(* ===== verification/Prelude.thy ===== *)
theory Prelude
  imports Main "HOL-Library.Word" "HOL-Library.Monad_Syntax"
begin

text \<open>
  Shared vocabulary of the development: the machine integer types of the C code, the
  option-valued outcome of kernel code that can stop (a call of \<^verbatim>\<open>panic\<close>, a NULL
  dereference, or an operation C leaves undefined), the collections of simplification rules the
  component theories feed, and the lemmas on words, lists and options they share.
\<close>

unbundle bit_operations_syntax

section \<open>Types and collections\<close>

type_synonym u8 = "8 word"
type_synonym u16 = "16 word"
type_synonym u32 = "32 word"
type_synonym u64 = "64 word"

named_theorems align_simps \<open>arithmetic meaning of the alignment macros\<close>
named_theorems radix_simps \<open>bit-level meaning of the radix tree comparisons\<close>
named_theorems kernel_defs \<open>definitions of kernel operations unfolded together\<close>

section \<open>Outcomes\<close>

text \<open>
  \<open>guard b\<close> is the outcome of a check that stops the machine when it fails: \<open>None\<close> stands for
  a kernel panic or a fault, so a theorem that an operation returns \<open>Some\<close> says it does neither.
\<close>

definition guard :: "bool \<Rightarrow> unit option" where
  "guard b = (if b then Some () else None)"

lemma guard_simps [simp]:
  "guard True = Some ()" "guard False = None"
  "guard b = Some u \<longleftrightarrow> b" "guard b = None \<longleftrightarrow> \<not> b"
  by (auto simp: guard_def)

lemma guard_bind [simp]: "(guard b \<bind> f = Some x) \<longleftrightarrow> b \<and> f () = Some x"
  by (auto simp: guard_def)

text \<open>A write to an array; outside its bounds the outcome is \<open>None\<close>.\<close>

definition poke :: "nat \<Rightarrow> 'a \<Rightarrow> 'a list \<Rightarrow> 'a list option" where
  "poke i v xs = (if i < length xs then Some (xs[i := v]) else None)"

section \<open>Words\<close>

lemma unat_and_mask: "unat (x AND mask n :: 'a::len word) = unat x mod 2 ^ n"
  by (metis take_bit_eq_mask take_bit_eq_mod unsigned_take_bit_eq)

lemma and_not_mask_conv: "x AND NOT (mask n) = x - (x AND mask n)" for x :: "'a::len word"
proof -
  have "push_bit n (drop_bit n x) + take_bit n x = x" by (rule bits_ident)
  moreover have "push_bit n (drop_bit n x) = x AND NOT (mask n)"
    by (rule bit_word_eqI) (auto simp: bit_simps)
  ultimately show ?thesis by (metis add_diff_cancel_right' take_bit_eq_mask)
qed

lemma unat_and_not_mask: "unat (x AND NOT (mask n) :: 'a::len word) = unat x div 2 ^ n * 2 ^ n"
proof -
  have "unat (x AND mask n) \<le> unat x" by (simp add: unat_and_mask)
  then have "unat (x - (x AND mask n)) = unat x - unat (x AND mask n)"
    by (simp add: unat_sub word_le_nat_alt)
  then show ?thesis
    by (simp add: and_not_mask_conv unat_and_mask minus_mod_eq_div_mult)
qed

lemma word_eq_iff_unat: "x = y \<longleftrightarrow> unat x = unat y" for x y :: "'a::len word"
  by (simp add: word_unat_eq_iff)

lemma unat_add_lt:
  "unat x + unat y < 2 ^ LENGTH('a) \<Longrightarrow> unat (x + y :: 'a::len word) = unat x + unat y"
  by (rule unat_add_lem [THEN iffD1])

lemma unat_of_nat_lt: "k < 2 ^ LENGTH('a) \<Longrightarrow> unat (of_nat k :: 'a::len word) = k"
  by (simp add: unat_of_nat take_bit_nat_eq_self)

lemma u64_bound [simp]: "unat (x :: u64) < 18446744073709551616"
  using unsigned_less [of x] by simp

text \<open>A scan code of a keyboard: the key in the lower seven bits, the release in the highest.\<close>

lemma code_cases:
  fixes x :: u8
  shows "x AND 0x80 \<noteq> 0 \<longleftrightarrow> 128 \<le> unat x" "unat (x AND 0x7F) = unat x mod 128"
proof -
  have "unat (x AND mask 7) = unat x mod 2 ^ 7" by (rule unat_and_mask)
  then show "unat (x AND 0x7F) = unat x mod 128" by (simp add: mask_eq_exp_minus_1)
  show "x AND 0x80 \<noteq> 0 \<longleftrightarrow> 128 \<le> unat x"
  proof -
    have "x AND 0x80 \<noteq> 0 \<longleftrightarrow> bit x 7" by (simp add: bit_iff_and_push_bit_not_eq_0)
    also have "\<dots> \<longleftrightarrow> bit (unat x) 7" by (simp add: bit_unsigned_iff)
    also have "\<dots> \<longleftrightarrow> odd (unat x div 128)" by (simp add: bit_iff_odd)
    also have "\<dots> \<longleftrightarrow> 128 \<le> unat x"
    proof -
      have "unat x < 256" using unsigned_less [of x] by simp
      then have "unat x div 128 < 2" by (simp add: div_less_iff_less_mult)
      then show ?thesis by (cases "unat x div 128 = 0") (auto simp: div_eq_0_iff less_2_cases_iff)
    qed
    finally show ?thesis .
  qed
qed

section \<open>Little-endian bytes\<close>

definition le :: "nat \<Rightarrow> 'a::len word \<Rightarrow> u8 list" where
  "le n w = map (\<lambda>k. ucast (drop_bit (8 * k) w)) [0..<n]"

fun unle :: "u8 list \<Rightarrow> 'a::len word" where
  "unle [] = 0"
| "unle (b # bs) = ucast b OR push_bit 8 (unle bs)"

lemma length_le [simp]: "length (le n w) = n"
  by (simp add: le_def)

lemma le_Suc: "le (Suc n) w = ucast w # le n (drop_bit 8 w)"
proof -
  have "[0..<Suc n] = 0 # map Suc [0..<n]" by (simp add: upt_conv_Cons map_Suc_upt del: upt_Suc)
  then show ?thesis by (simp add: le_def add.commute del: upt_Suc)
qed

lemma unle_le: "unle (le n w) = take_bit (8 * n) w"
proof (induction n arbitrary: w)
  case (Suc n)
  show ?case
    by (rule bit_word_eqI) (auto simp: le_Suc Suc bit_simps)
qed (simp add: le_def)

lemma unle_le_full: "LENGTH('a) \<le> 8 * n \<Longrightarrow> unle (le n w) = (w :: 'a::len word)"
  by (simp add: unle_le take_bit_word_eq_self)

section \<open>Byte arrays\<close>

text \<open>The bytes \<open>bs\<close> written over an array from the position \<open>off\<close> on; a C string inside an array.\<close>

definition patch :: "nat \<Rightarrow> u8 list \<Rightarrow> u8 list \<Rightarrow> u8 list" where
  "patch off bs s = take off s @ bs @ drop (off + length bs) s"

lemma length_patch [simp]: "off + length bs \<le> length s \<Longrightarrow> length (patch off bs s) = length s"
  by (simp add: patch_def)

lemma take_drop_patch:
  "\<lbrakk>off + length bs \<le> length s\<rbrakk> \<Longrightarrow> take (length bs) (drop off (patch off bs s)) = bs"
  "\<lbrakk>off + length bs \<le> length s; a + n \<le> off\<rbrakk> \<Longrightarrow> take n (drop a (patch off bs s)) = take n (drop a s)"
  "\<lbrakk>off + length bs \<le> length s; off + length bs \<le> a\<rbrakk> \<Longrightarrow> take n (drop a (patch off bs s)) = take n (drop a s)"
  by (auto simp: patch_def min_def take_drop)

definition cstr_at :: "nat \<Rightarrow> u8 list \<Rightarrow> u8 list option" where
  "cstr_at off a = (let s = drop off a in if 0 \<in> set s then Some (takeWhile (\<lambda>x. x \<noteq> 0) s) else None)"

lemma cstr_at_append: "\<lbrakk>off = length pre; 0 \<notin> set s\<rbrakk> \<Longrightarrow> cstr_at off (pre @ s @ 0 # rest) = Some s"
  unfolding cstr_at_def by (simp add: Let_def) (subst takeWhile_append2, auto)

end
