(* ===== verification/Binradix.thy ===== *)
theory Binradix
  imports Bitops
begin

text \<open>
  The fixed-length binary radix tree of \<^verbatim>\<open>sys/lib/binradix.c\<close>, the map from 64-bit
  addresses to objects that the page manager (\<^verbatim>\<open>phys_pages\<close>) and every address space
  (\<^verbatim>\<open>vaddr_map\<close>) use. A node of the C tree is never shared, so the tree is a datatype and
  the loops that walk it are recursive functions that return the updated tree. \<open>bwf\<close> is the
  shape the operations keep; under it the tree behaves as a partial map: insertion of an absent
  key, deletion of a present key and lookup satisfy the laws of the locale \<open>address_map\<close>.
\<close>

section \<open>The tree\<close>

text \<open>\<open>BNull\<close> is the NULL pointer. The fields are those of \<^verbatim>\<open>struct binradix_node\<close>;
  the payload of a leaf is \<open>Some\<close>, the NULL of an inner node is \<open>None\<close>. The root's
  \<^verbatim>\<open>data\<close> holds the object pool its nodes come from and is no payload.\<close>

datatype 'a bnode =
    BNull
  | BNode (next0: "'a bnode") (next1: "'a bnode") (data: "'a option") (part: u64) (len: nat)

text \<open>\<^verbatim>\<open>__builtin_clzll\<close> counts the leading zero bits. Its result is undefined for 0, where
  the code computes it but does not use it.\<close>

definition hibit :: "u64 \<Rightarrow> nat" where
  "hibit x = length (takeWhile (\<lambda>i. \<not> bit x i) (rev [0..<64]))"

definition bincmp :: "u64 \<Rightarrow> u64 \<Rightarrow> nat \<Rightarrow> nat \<Rightarrow> u64" where
  "bincmp a b off nbit =
     (let x = a XOR b;
          x = x AND (push_bit off 2 - 1)
      in if int off - int nbit < 63
         then x AND NOT (push_bit (nat (int off - int nbit + 1)) 1 - 1)
         else 0)"

definition bineq :: "u64 \<Rightarrow> u64 \<Rightarrow> nat \<Rightarrow> nat \<Rightarrow> bool" where
  "bineq a b off nbit = (if nbit = 0 then True else bincmp a b off nbit = 0)"

text \<open>\<open>key_bit key off\<close> is \<^verbatim>\<open>(key>>off)&1\<close>, the child to follow.\<close>

definition key_bit :: "u64 \<Rightarrow> nat \<Rightarrow> bool" where
  "key_bit key off \<longleftrightarrow> drop_bit off key AND 1 \<noteq> 0"

section \<open>Operations\<close>

fun binradix_find_from :: "'a bnode \<Rightarrow> u64 \<Rightarrow> nat \<Rightarrow> 'a option" where
  "binradix_find_from BNull key key_off = None"
| "binradix_find_from (BNode l r d p n) key key_off =
     (if bineq p key key_off n then
        if key_off \<ge> n then
          if key_bit key (key_off - n) then binradix_find_from r key (key_off - n)
          else binradix_find_from l key (key_off - n)
        else d
      else None)"

definition binradix_find :: "'a bnode \<Rightarrow> u64 \<Rightarrow> 'a option" where
  "binradix_find root key = binradix_find_from root key 63"

text \<open>
  One run of the loop of \<^verbatim>\<open>binradix_insert\<close> from a node on. The inner pair is what the
  function returns (NULL, or the data of a duplicate key) and the updated subtree. A shift of the
  64-bit \<^verbatim>\<open>key_off_s\<close> by 64 is undefined in C: the outcome is then \<open>None\<close>.
\<close>

fun binradix_insert_from ::
  "'a bnode \<Rightarrow> u64 \<Rightarrow> 'a \<Rightarrow> u64 \<Rightarrow> nat \<Rightarrow> ('a option \<times> 'a bnode) option" where
  "binradix_insert_from BNull key v key_off_s key_off = Some (None, BNull)"
| "binradix_insert_from (BNode l r d p n) key v key_off_s key_off =
     (let x = bincmp p key key_off n; hb = 63 - hibit x in
      if x \<noteq> 0 then
        let ln = key_off - hb;
            key_off_s = drop_bit ln key_off_s;
            b = (key AND key_off_s \<noteq> 0);
            old = BNode l r d p (n - ln);
            new = BNode BNull BNull (Some v) key (hb + 1)
        in Some (None, if b then BNode old new None p ln else BNode new old None p ln)
      else if n \<ge> 64 then None
      else
        let key_off_s = drop_bit n key_off_s;
            b = (key AND key_off_s \<noteq> 0)
        in if key_off_s = 0 then Some (d, BNode l r d p n)
           else let new = BNode BNull BNull (Some v) key (key_off - n + 1) in
             if b then
               (if r = BNull then Some (None, BNode l new d p n)
                else do { (res, r') \<leftarrow> binradix_insert_from r key v key_off_s (key_off - n);
                          Some (res, BNode l r' d p n) })
             else
               (if l = BNull then Some (None, BNode new r d p n)
                else do { (res, l') \<leftarrow> binradix_insert_from l key v key_off_s (key_off - n);
                          Some (res, BNode l' r d p n) }))"

definition binradix_insert :: "'a bnode \<Rightarrow> u64 \<Rightarrow> 'a \<Rightarrow> ('a option \<times> 'a bnode) option" where
  "binradix_insert root key v = binradix_insert_from root key v (push_bit 63 1) 63"

text \<open>
  Deletion. \<open>binradix_unlink\<close> is the code after the loop: it clears the child of the parent and,
  unless the parent is the root, folds the other child into it. \<open>binradix_delete_from\<close> is the
  loop, seen from a parent whose bits already matched. Dereferencing the NULL child, or a missing
  sibling, is the outcome \<open>None\<close>.
\<close>

fun binradix_merge :: "u64 \<Rightarrow> nat \<Rightarrow> nat \<Rightarrow> 'a bnode \<Rightarrow> 'a bnode option" where
  "binradix_merge p n key_off BNull = None"
| "binradix_merge p n key_off (BNode ml mr md mp mn) =
     (let msk = push_bit key_off 2 - 1 in
      Some (BNode ml mr md ((p AND NOT msk) OR (mp AND msk)) (n + mn)))"

definition binradix_unlink ::
  "bool \<Rightarrow> 'a bnode \<Rightarrow> 'a bnode \<Rightarrow> 'a option \<Rightarrow> u64 \<Rightarrow> nat \<Rightarrow> bool \<Rightarrow> nat \<Rightarrow> 'a bnode option" where
  "binradix_unlink is_root l r d p n b key_off =
     (if is_root then Some (if b then BNode l BNull d p n else BNode BNull r d p n)
      else binradix_merge p n key_off (if b then l else r))"

fun binradix_delete_from ::
  "bool \<Rightarrow> 'a bnode \<Rightarrow> u64 \<Rightarrow> nat \<Rightarrow> ('a option \<times> 'a bnode) option" where
  "binradix_delete_from is_root BNull key key_off = None"
| "binradix_delete_from is_root (BNode l r d p n) key key_off =
     (let b = key_bit key key_off in
      if b then
        (case r of BNull \<Rightarrow> None
         | BNode cl cr cd cp cn \<Rightarrow>
             if \<not> bineq cp key key_off cn then Some (None, BNode l r d p n)
             else if key_off < cn then
               do { t \<leftarrow> binradix_unlink is_root l r d p n b key_off; Some (cd, t) }
             else do { (res, r') \<leftarrow> binradix_delete_from False r key (key_off - cn);
                       Some (res, BNode l r' d p n) })
      else
        (case l of BNull \<Rightarrow> None
         | BNode cl cr cd cp cn \<Rightarrow>
             if \<not> bineq cp key key_off cn then Some (None, BNode l r d p n)
             else if key_off < cn then
               do { t \<leftarrow> binradix_unlink is_root l r d p n b key_off; Some (cd, t) }
             else do { (res, l') \<leftarrow> binradix_delete_from False l key (key_off - cn);
                       Some (res, BNode l' r d p n) }))"

definition binradix_delete :: "'a bnode \<Rightarrow> u64 \<Rightarrow> ('a option \<times> 'a bnode) option" where
  "binradix_delete root key =
     (if root = BNull then None
      else if \<not> bineq (part root) key 63 (len root) then Some (None, root)
      else if 63 < len root then None
      else binradix_delete_from True root key (63 - len root))"

definition binradix_new :: "'a bnode" where
  "binradix_new = BNode BNull BNull None 0 0"

text \<open>The visitor is a state transformer on the client's state.\<close>

fun binradix_for_each_from :: "'a bnode \<Rightarrow> ('a \<Rightarrow> 's \<Rightarrow> 's) \<Rightarrow> 's \<Rightarrow> 's" where
  "binradix_for_each_from BNull v s = s"
| "binradix_for_each_from (BNode l r d p n) v s =
     (case d of Some x \<Rightarrow> v x s
      | None \<Rightarrow> binradix_for_each_from r v (binradix_for_each_from l v s))"

definition binradix_for_each :: "'a bnode \<Rightarrow> ('a \<Rightarrow> 's \<Rightarrow> 's) \<Rightarrow> 's \<Rightarrow> 's" where
  "binradix_for_each root v s =
     (case root of BNull \<Rightarrow> s
      | BNode l r d p n \<Rightarrow> binradix_for_each_from r v (binradix_for_each_from l v s))"

section \<open>Shape of a tree\<close>

text \<open>
  \<open>bwf off t\<close>: \<open>t\<close> is a node below the root whose part starts at bit \<open>off\<close>. A leaf covers all
  remaining bits and carries data; an inner node covers fewer, carries none and has two children
  whose parts differ in their first bit. The root covers no bit and may miss children.
\<close>

fun bwf :: "nat \<Rightarrow> 'a bnode \<Rightarrow> bool" where
  "bwf off BNull = False"
| "bwf off (BNode l r d p n) =
     (0 < n \<and> n \<le> off + 1 \<and>
      (if n = off + 1 then l = BNull \<and> r = BNull \<and> d \<noteq> None
       else d = None \<and> bwf (off - n) l \<and> bwf (off - n) r \<and>
            \<not> bit (part l) (off - n) \<and> bit (part r) (off - n)))"

definition child_ok :: "bool \<Rightarrow> 'a bnode \<Rightarrow> bool" where
  "child_ok b t \<longleftrightarrow> t = BNull \<or> bwf 63 t \<and> bit (part t) 63 = b"

fun binradix_wf :: "'a bnode \<Rightarrow> bool" where
  "binradix_wf BNull = False"
| "binradix_wf (BNode l r d p n) \<longleftrightarrow> n = 0 \<and> d = None \<and> child_ok False l \<and> child_ok True r"

section \<open>Bit-level meaning of the comparisons\<close>

lemma key_bit_iff [radix_simps]: "key_bit key off \<longleftrightarrow> bit key off"
  by (simp add: key_bit_def bit_iff_odd_drop_bit and_one_eq mod_2_eq_odd)

lemma push_2_minus_1: "push_bit off 2 - 1 = (mask (Suc off) :: u64)"
  by (simp add: mask_eq_decr_exp push_bit_eq_mult mult.commute)

lemma push_1_minus_1: "push_bit n 1 - 1 = (mask n :: u64)"
  by (simp add: mask_eq_decr_exp push_bit_of_1)

lemma bit_bincmp [radix_simps]:
  assumes "off < 64"
  shows "bit (bincmp a b off n) i \<longleftrightarrow> i \<le> off \<and> off < i + n \<and> bit a i \<noteq> bit b i"
proof (cases "int off - int n < 63")
  case True
  have "nat (int off - int n + 1) \<le> i \<longleftrightarrow> off < i + n" by linarith
  with True assms show ?thesis
    unfolding bincmp_def Let_def push_2_minus_1 push_1_minus_1
    by (auto simp: bit_simps not_less)
next
  case False
  with assms have "n = 0" "off = 63" by auto
  then show ?thesis by (simp add: bincmp_def)
qed

lemma bincmp_eq_0 [radix_simps]:
  assumes "off < 64"
  shows "bincmp a b off n = 0 \<longleftrightarrow> (\<forall>i \<le> off. off < i + n \<longrightarrow> bit a i = bit b i)"
  using assms by (auto simp: bit_eq_iff [of "bincmp a b off n"] bit_bincmp)

lemma bineq_iff [radix_simps]:
  assumes "off < 64"
  shows "bineq a b off n \<longleftrightarrow> (\<forall>i \<le> off. off < i + n \<longrightarrow> bit a i = bit b i)"
  using assms by (auto simp: bineq_def bincmp_eq_0)

lemma takeWhile_rev_upt:
  assumes "i < n" and "P i"
  shows "let k = length (takeWhile (\<lambda>i. \<not> P i) (rev [0..<n])) in
    k < n \<and> P (n - 1 - k) \<and> (\<forall>j<n. P j \<longrightarrow> j \<le> n - 1 - k)"
  using assms
proof (induction n)
  case (Suc n)
  show ?case
  proof (cases "P n")
    case False
    with Suc.prems have "i < n" by (metis less_SucE)
    with Suc False show ?thesis by (auto simp: Let_def less_Suc_eq)
  next
    case True
    then show ?thesis by (simp add: Let_def)
  qed
next
  case 0
  then show ?case by simp
qed

lemma hibit_props:
  assumes "x \<noteq> (0 :: u64)"
  shows "bit x (63 - hibit x)" and "\<And>j. bit x j \<Longrightarrow> j \<le> 63 - hibit x" and "hibit x \<le> 63"
proof -
  obtain i where i: "bit x i" using assms by (auto simp: bit_eq_iff)
  have lt: "j < 64" if "bit x j" for j using bit_imp_le_length [OF that] by simp
  note k = takeWhile_rev_upt [where P = "bit x", OF lt [OF i] i, folded hibit_def, unfolded Let_def]
  from k show "bit x (63 - hibit x)" and "hibit x \<le> 63" by auto
  from k show "\<And>j. bit x j \<Longrightarrow> j \<le> 63 - hibit x" using lt by auto
qed


section \<open>Lookup\<close>

definition low_eq :: "nat \<Rightarrow> u64 \<Rightarrow> u64 \<Rightarrow> bool" where
  "low_eq off a b \<longleftrightarrow> (\<forall>i \<le> off. bit a i = bit b i)"

lemma low_eq_63 [simp]: "low_eq 63 a b \<longleftrightarrow> a = b"
  using bit_imp_le_length [of a] bit_imp_le_length [of b]
  by (fastforce simp: low_eq_def bit_eq_iff [of a b])

lemma low_eq_refl [simp]: "low_eq off a a"
  by (simp add: low_eq_def)

lemma low_eq_sym: "low_eq off a b \<longleftrightarrow> low_eq off b a"
  by (auto simp: low_eq_def)

lemma bineq_full: "off < 64 \<Longrightarrow> bineq a b off (Suc off) \<longleftrightarrow> low_eq off a b"
  by (simp add: bineq_iff low_eq_def)

lemma bineq_shorter: "off < 64 \<Longrightarrow> bineq a b off n \<Longrightarrow> m \<le> n \<Longrightarrow> bineq a b off m"
  by (auto simp: bineq_iff)

lemma low_eq_split:
  assumes "off < 64" and "m \<le> off"
  shows "low_eq off a b \<longleftrightarrow> bineq a b off m \<and> low_eq (off - m) a b"
proof -
  have "i \<le> off \<longleftrightarrow> (i \<le> off \<and> off < i + m) \<or> i \<le> off - m" for i
    using assms(2) by linarith
  then show ?thesis using assms(1) unfolding low_eq_def bineq_iff [OF assms(1)] by metis
qed

lemma bineq_split:
  assumes "off < 64" and "m \<le> off" and "m \<le> n"
  shows "bineq a b off n \<longleftrightarrow> bineq a b off m \<and> bineq a b (off - m) (n - m)"
proof -
  have "(i \<le> off \<and> off < i + n) \<longleftrightarrow>
    (i \<le> off \<and> off < i + m) \<or> (i \<le> off - m \<and> off - m < i + (n - m))" for i
    using assms(2,3) by linarith
  then have "(\<forall>i. i \<le> off \<and> off < i + n \<longrightarrow> bit a i = bit b i) \<longleftrightarrow>
    (\<forall>i. i \<le> off \<and> off < i + m \<longrightarrow> bit a i = bit b i) \<and>
    (\<forall>i. i \<le> off - m \<and> off - m < i + (n - m) \<longrightarrow> bit a i = bit b i)"
    by blast
  with assms(1) show ?thesis by (auto simp: bineq_iff)
qed

lemma find_from_split:
  assumes "off < 64" and "m \<le> off" and "m \<le> n"
  shows "binradix_find_from (BNode l r d p n) k off =
    (if bineq p k off m then binradix_find_from (BNode l r d p (n - m)) k (off - m) else None)"
  using assms bineq_split [OF assms, of p k] by auto

lemma find_from_part_cong:
  assumes "off < 64" and "bineq p q off n"
  shows "binradix_find_from (BNode l r d p n) k off = binradix_find_from (BNode l r d q n) k off"
  using assms by (auto simp: bineq_iff)

lemma bwf_not_null [simp]: "bwf off t \<Longrightarrow> t \<noteq> BNull"
  by auto

lemma find_from_wrong_bit:
  assumes "off < 64" and "bwf off t" and "bit (part t) off \<noteq> bit k off"
  shows "binradix_find_from t k off = None"
  using assms by (cases t) (auto simp: bineq_iff)

lemma find_from_leaf:
  "off < 64 \<Longrightarrow> binradix_find_from (BNode BNull BNull (Some v) key (Suc off)) k off =
    (if low_eq off key k then Some v else None)"
  by (simp add: bineq_full)

section \<open>Insertion\<close>

lemma drop_exp: "drop_bit n (2 ^ off :: u64) = (if n \<le> off \<and> off < 64 then 2 ^ (off - n) else 0)"
  by (rule bit_word_eqI) (auto simp: bit_simps)

lemma and_exp [simp]: "key AND 2 ^ n = 0 \<longleftrightarrow> \<not> bit key n" for key :: u64
  by (simp add: bit_iff_and_push_bit_not_eq_0)

lemma exp_neq_0: "n < 64 \<Longrightarrow> 2 ^ n \<noteq> (0 :: u64)"
  by (auto simp: bit_eq_iff bit_simps)

text \<open>The node that a split produces: its part is cut at the highest differing bit.\<close>

lemma insert_split_node:
  assumes off: "off < 64" and wf: "bwf off (BNode l r d p n)" and top: "bit p off = bit key off"
    and x: "bincmp p key off n \<noteq> 0"
  defines "hb \<equiv> 63 - hibit (bincmp p key off n)"
  shows "hb < off" and "off - hb < n" and "bit p hb \<noteq> bit key hb" and "bineq p key off (off - hb)"
proof -
  let ?x = "bincmp p key off n"
  from hibit_props(1) [OF x] have hb: "hb \<le> off \<and> off < hb + n \<and> bit p hb \<noteq> bit key hb"
    using off by (simp add: bit_bincmp hb_def)
  moreover from hb top have "hb \<noteq> off" by auto
  ultimately show lt: "hb < off" and "off - hb < n" and "bit p hb \<noteq> bit key hb"
    by auto
  have "bit p i = bit key i" if i: "i \<le> off" "off < i + (off - hb)" for i
  proof (rule ccontr)
    assume "bit p i \<noteq> bit key i"
    moreover from i lt hb have "off < i + n" by linarith
    ultimately have "bit ?x i" using i off by (simp add: bit_bincmp)
    then have "i \<le> hb" unfolding hb_def by (rule hibit_props(2) [OF x])
    with i lt show False by simp
  qed
  then show "bineq p key off (off - hb)" using off by (simp add: bineq_iff)
qed

lemma insert_split_find:
  fixes l r :: "'a bnode" and d :: "'a option" and v :: 'a
  assumes off: "off < 64" and hb: "hb < off" "off - hb < n"
    and diff: "bit p hb \<noteq> bit key hb" and eq: "bineq p key off (off - hb)"
  defines "old \<equiv> BNode l r d p (n - (off - hb))"
    and "new \<equiv> BNode BNull BNull (Some v) key (Suc hb)"
  shows "binradix_find_from (if bit key hb then BNode old new None p (off - hb)
      else BNode new old None p (off - hb)) k off =
    (if low_eq off key k then Some v else binradix_find_from (BNode l r d p n) k off)"
proof -
  have hb': "off - (off - hb) = hb" "hb < 64" "off - hb \<le> off" using hb off by auto
  have le: "low_eq off key k \<longleftrightarrow> bineq p k off (off - hb) \<and> low_eq hb key k"
    using low_eq_split [OF off hb'(3), of key k] eq hb' off by (auto simp: bineq_iff)
  have f: "binradix_find_from (BNode l r d p n) k off =
      (if bineq p k off (off - hb) then binradix_find_from old k hb else None)"
    using find_from_split [OF off hb'(3) less_imp_le [OF hb(2)], of l r d p k] hb'(1)
    unfolding old_def by simp
  have new: "binradix_find_from new k hb = (if low_eq hb key k then Some v else None)"
    unfolding new_def by (rule find_from_leaf [OF hb'(2)])
  have old: "binradix_find_from old k hb = None" if "bit p hb \<noteq> bit k hb"
    using that hb hb' by (auto simp: old_def bineq_iff)
  have "low_eq hb key k \<Longrightarrow> bit key hb = bit k hb" by (simp add: low_eq_def)
  then show ?thesis
    using hb hb' diff f new old le by (auto simp: key_bit_iff)
qed

lemma insert_split_wf:
  fixes v :: 'a
  assumes wf: "bwf off (BNode l r d p n)" and hb: "hb < off" "off - hb < n"
    and diff: "bit p hb \<noteq> bit key hb"
  defines "old \<equiv> BNode l r d p (n - (off - hb))"
    and "new \<equiv> BNode BNull BNull (Some v) key (Suc hb)"
  shows "bwf off (if bit key hb then BNode old new None p (off - hb)
      else BNode new old None p (off - hb))"
proof -
  have "off - (off - hb) = hb" using hb by simp
  moreover have "bwf hb old"
  proof (cases "n = off + 1")
    case True
    then have "n - (off - hb) = Suc hb" using hb by simp
    with True wf show ?thesis by (simp add: old_def)
  next
    case False
    then have "n - (off - hb) \<noteq> Suc hb" "hb - (n - (off - hb)) = off - n" using hb wf by auto
    with False wf hb show ?thesis by (auto simp: old_def)
  qed
  ultimately show ?thesis
    using hb diff by (simp add: new_def del: One_nat_def) (simp add: old_def, linarith)
qed

lemma insert_from_correct:
  assumes "off < 64" and "bwf off t" and "bit (part t) off = bit key off"
    and "binradix_find_from t key off = None"
  shows "\<exists>t'. binradix_insert_from t key v (2 ^ off) off = Some (None, t') \<and> bwf off t' \<and>
    part t' = part t \<and>
    (\<forall>k. binradix_find_from t' k off = (if low_eq off key k then Some v else binradix_find_from t k off))"
  using assms
proof (induction t arbitrary: off)
  case (BNode l r d p n)
  note off = \<open>off < 64\<close> and wf = \<open>bwf off (BNode l r d p n)\<close>
  let ?x = "bincmp p key off n"
  show ?case
  proof (cases "?x = 0")
    case False
    define hb where "hb = 63 - hibit ?x"
    have top: "bit p off = bit key off" using BNode.prems(3) by simp
    note sp = insert_split_node [OF off wf top False, folded hb_def]
    let ?old = "BNode l r d p (n - (off - hb))"
    let ?new = "BNode BNull BNull (Some v) key (Suc hb)"
    let ?t = "if bit key hb then BNode ?old ?new None p (off - hb)
      else BNode ?new ?old None p (off - hb)"
    have "drop_bit (off - hb) (2 ^ off) = (2 ^ hb :: u64)"
      unfolding drop_exp using sp(1) off by simp
    then have ins: "binradix_insert_from (BNode l r d p n) key v (2 ^ off) off = Some (None, ?t)"
      using False by (simp add: Let_def flip: hb_def)
    moreover have "bwf off ?t" by (rule insert_split_wf [OF wf sp(1-3)])
    moreover have "part ?t = p" by simp
    ultimately show ?thesis
      using insert_split_find [OF off sp, of l r d v] by (intro exI [of _ ?t] conjI allI) simp_all
  next
    case True
    then have eq: "bineq p key off n" using off by (simp add: bincmp_eq_0 bineq_iff)
    have "n \<noteq> off + 1"
    proof
      assume "n = off + 1"
      with wf have "d \<noteq> None" by simp
      with \<open>n = off + 1\<close> BNode.prems(4) eq show False by simp
    qed
    with wf have le: "n \<le> off" and d: "d = None"
      and sub: "bwf (off - n) l" "bwf (off - n) r" "\<not> bit (part l) (off - n)" "bit (part r) (off - n)"
      by simp_all
    have n: "\<not> 64 \<le> n" "off - n < 64" using le off by auto
    define c where "c = (if bit key (off - n) then r else l)"
    have c: "bwf (off - n) c" "bit (part c) (off - n) = bit key (off - n)"
      "binradix_find_from c key (off - n) = None"
      using sub le BNode.prems(4) eq by (simp_all add: c_def key_bit_iff split: if_splits)
    obtain c' where c': "binradix_insert_from c key v (2 ^ (off - n)) (off - n) = Some (None, c')"
      "bwf (off - n) c'" "part c' = part c"
      "\<And>k. binradix_find_from c' k (off - n) =
        (if low_eq (off - n) key k then Some v else binradix_find_from c k (off - n))"
    proof (cases "bit key (off - n)")
      case True
      with BNode.IH(2) [OF n(2)] c that show ?thesis by (auto simp: c_def)
    next
      case False
      with BNode.IH(1) [OF n(2)] c that show ?thesis by (auto simp: c_def)
    qed
    let ?t = "if bit key (off - n) then BNode l c' d p n else BNode c' r d p n"
    have nn: "l \<noteq> BNull" "r \<noteq> BNull" using sub by auto
    have "binradix_insert_from (BNode l r d p n) key v (2 ^ off) off = Some (None, ?t)"
      using True n le off c'(1) nn exp_neq_0 [OF n(2)]
      by (simp add: Let_def drop_exp c_def split: if_splits)
    moreover have "bwf off ?t" using wf le c'(2,3) c(2) sub by (simp add: c_def)
    moreover have "binradix_find_from ?t k off =
        (if low_eq off key k then Some v else binradix_find_from (BNode l r d p n) k off)" for k
      using le c'(4) low_eq_split [OF off le, of key k] eq off n
      by (auto simp: c_def key_bit_iff bineq_iff low_eq_def)
    ultimately show ?thesis by (intro exI [of _ ?t]) auto
  qed
qed simp


text \<open>The root: insertion of an absent key.\<close>

lemma child_ok_BNull [simp]: "child_ok b BNull"
  by (simp add: child_ok_def)

lemma find_root:
  "binradix_find (BNode l r d p 0) k =
    (if bit k 63 then binradix_find_from r k 63 else binradix_find_from l k 63)"
  by (simp add: binradix_find_def bineq_def key_bit_iff)

lemma insert_child:
  assumes "child_ok b c" and "bit key 63 = b" and "binradix_find_from c key 63 = None"
  shows "\<exists>c'. (if c = BNull then Some (None, BNode BNull BNull (Some v) key 64)
      else binradix_insert_from c key v (2 ^ 63) 63) = Some (None, c') \<and> child_ok b c' \<and>
    (\<forall>k. binradix_find_from c' k 63 = (if k = key then Some v else binradix_find_from c k 63))"
proof (cases "c = BNull")
  case True
  with assms show ?thesis
    using find_from_leaf [of 63 v key] by (auto simp: child_ok_def simp del: binradix_find_from.simps(2))
next
  case False
  with assms have "bwf 63 c" "bit (part c) 63 = bit key 63" by (auto simp: child_ok_def)
  from insert_from_correct [OF _ this assms(3), of v] False assms(2) this
  show ?thesis by (auto simp: child_ok_def eq_commute)
qed

lemma insert_absent:
  assumes "binradix_wf t" and "binradix_find t key = None"
  shows "\<exists>t'. binradix_insert t key v = Some (None, t') \<and> binradix_wf t' \<and>
    binradix_find t' = (binradix_find t)(key \<mapsto> v)"
proof -
  from assms(1) obtain l r p where t: "t = BNode l r None p 0" and ok: "child_ok False l" "child_ok True r"
    by (cases t) auto
  define c where "c = (if bit key 63 then r else l)"
  have "child_ok (bit key 63) c" "binradix_find_from c key 63 = None"
    using ok assms(2) by (auto simp: c_def t find_root)
  from insert_child [OF this(1) refl this(2), of v] obtain c' where
    c': "(if c = BNull then Some (None, BNode BNull BNull (Some v) key 64)
      else binradix_insert_from c key v (2 ^ 63) 63) = Some (None, c')" "child_ok (bit key 63) c'"
    "\<And>k. binradix_find_from c' k 63 = (if k = key then Some v else binradix_find_from c k 63)"
    by auto
  let ?t = "if bit key 63 then BNode l c' None p 0 else BNode c' r None p 0"
  have b: "key AND 9223372036854775808 = 0 \<longleftrightarrow> \<not> bit key 63" using and_exp [of key 63] by simp
  have "binradix_insert t key v = Some (None, ?t)"
    using c'(1) by (auto simp: binradix_insert_def t c_def bincmp_eq_0 b split: if_splits)
  moreover have "binradix_wf ?t" using ok c'(2) by auto
  moreover have "binradix_find ?t = (binradix_find t)(key \<mapsto> v)"
    using c'(3) by (auto simp: t c_def find_root fun_eq_iff)
  ultimately show ?thesis by (intro exI [of _ ?t] conjI)
qed

section \<open>Deletion\<close>

lemma merge_bits:
  assumes "ko < 64"
  shows "bit ((p AND NOT (push_bit ko 2 - 1)) OR (q AND (push_bit ko 2 - 1)) :: u64) i =
    (if i \<le> ko then bit q i else bit p i)"
  unfolding push_2_minus_1 using assms by (auto simp: bit_simps dest: bit_imp_le_length)

lemma merge_correct:
  assumes off: "off < 64" and n: "0 < n" "n \<le> off" and s: "bwf (off - n) s"
  shows "\<exists>t'. binradix_merge p n (off - n) s = Some t' \<and> bwf off t' \<and> bit (part t') off = bit p off \<and>
    (\<forall>k. binradix_find_from t' k off =
      (if bineq p k off n then binradix_find_from s k (off - n) else None))"
proof -
  from s obtain ml mr md mp mn where s': "s = BNode ml mr md mp mn" by (cases s) auto
  define ko where "ko = off - n"
  define q where "q = ((p AND NOT (push_bit ko 2 - 1)) OR (mp AND (push_bit ko 2 - 1)))"
  have ko: "ko < 64" "ko < off" "off = ko + n" using off n by (auto simp: ko_def)
  have q: "bit q i = (if i \<le> ko then bit mp i else bit p i)" for i
    unfolding q_def by (rule merge_bits [OF ko(1)])
  let ?t = "BNode ml mr md q (n + mn)"
  have "binradix_merge p n (off - n) s = Some ?t"
    by (simp add: s' q_def ko_def Let_def)
  moreover have "bwf off ?t"
    using s n ko by (auto simp: s' simp flip: ko_def)
  moreover have "bit (part ?t) off = bit p off" using q ko by simp
  moreover have "binradix_find_from ?t k off =
      (if bineq p k off n then binradix_find_from s k (off - n) else None)" for k
  proof -
    have "bineq q k off n = bineq p k off n" using q off n by (auto simp: bineq_iff ko_def)
    moreover have "binradix_find_from (BNode ml mr md q mn) k ko =
        binradix_find_from (BNode ml mr md mp mn) k ko"
      using q ko by (intro find_from_part_cong) (auto simp: bineq_iff)
    ultimately show ?thesis
      using find_from_split [OF off n(2), of "n + mn" ml mr md q k]
      by (simp add: s' ko_def del: binradix_find_from.simps)
  qed
  ultimately show ?thesis by (intro exI [of _ ?t] conjI allI)
qed


text \<open>After a leaf is unlinked, what is left of its parent answers like its sibling.\<close>

lemma unlink_find:
  assumes off: "off < 64" and n: "n \<le> off" and eq: "bineq p key off n"
    and s: "bwf (off - n) s" "bit (part s) (off - n) \<noteq> bit key (off - n)"
    and leaf: "low_eq (off - n) cp key" "c = BNode BNull BNull d cp (Suc (off - n))"
    and t: "t = (if bit key (off - n) then BNode s c None p n else BNode c s None p n)"
  shows "(if bineq p k off n then binradix_find_from s k (off - n) else None) =
    (if low_eq off key k then None else binradix_find_from t k off)"
proof -
  define ko where "ko = off - n"
  have ko: "ko < 64" using off by (simp add: ko_def)
  have le: "low_eq off key k \<longleftrightarrow> bineq p k off n \<and> low_eq ko key k"
    using low_eq_split [OF off n, of key k] eq off by (auto simp: bineq_iff ko_def)
  have c: "binradix_find_from c k ko = (if low_eq ko key k then d else None)"
    using leaf ko by (simp add: ko_def [symmetric] bineq_full) (auto simp: low_eq_def)
  have s': "binradix_find_from s k ko = None" if "bit key ko = bit k ko"
    using find_from_wrong_bit [OF ko, of s k] s that by (simp add: ko_def)
  have bits: "low_eq ko key k \<Longrightarrow> bit key ko = bit k ko" by (simp add: low_eq_def)
  have find_t: "binradix_find_from t k off = (if bineq p k off n then
      binradix_find_from (if bit key ko = bit k ko then c else s) k ko else None)"
    using n by (simp add: t key_bit_iff ko_def)
  show ?thesis
    using le c s' bits find_t by (cases "bit key ko = bit k ko") (auto simp flip: ko_def)
qed

lemma delete_from_node:
  "binradix_delete_from is_root (BNode l r d p n) key ko =
     (let c = (if bit key ko then r else l) in
      if c = BNull then None
      else if \<not> bineq (part c) key ko (len c) then Some (None, BNode l r d p n)
      else if ko < len c then
        do { t \<leftarrow> binradix_unlink is_root l r d p n (bit key ko) ko; Some (data c, t) }
      else do { (res, c') \<leftarrow> binradix_delete_from False c key (ko - len c);
                Some (res, if bit key ko then BNode l c' d p n else BNode c' r d p n) })"
  by (cases l; cases r) (simp_all add: key_bit_iff Let_def split: option.splits)

lemma delete_from_correct:
  assumes "off < 64" and "bwf off t" and "bineq (part t) key off (len t)" and "len t \<le> off"
    and "binradix_find_from t key off = Some v"
  shows "\<exists>t'. binradix_delete_from False t key (off - len t) = Some (Some v, t') \<and> bwf off t' \<and>
    bit (part t') off = bit (part t) off \<and>
    (\<forall>k. binradix_find_from t' k off = (if low_eq off key k then None else binradix_find_from t k off))"
  using assms
proof (induction t arbitrary: off)
  case (BNode l r d p n)
  define ko where "ko = off - n"
  define c where "c = (if bit key ko then r else l)"
  define s where "s = (if bit key ko then l else r)"
  have off: "off < 64" and n: "n \<le> off" and eq: "bineq p key off n" using BNode.prems by auto
  have ko: "ko < 64" using off by (simp add: ko_def)
  have t: "BNode l r d p n = (if bit key ko then BNode s c None p n else BNode c s None p n)"
    and n0: "0 < n" and d: "d = None" and c: "bwf ko c" and s: "bwf ko s"
    and bits: "bit (part c) ko = bit key ko" "bit (part s) ko \<noteq> bit key ko"
    using BNode.prems(2) n by (auto simp: c_def s_def ko_def)
  have fc: "binradix_find_from c key ko = Some v"
    using BNode.prems(5) n eq by (simp add: c_def ko_def key_bit_iff split: if_splits)
  obtain cl cr cd cp cn where c': "c = BNode cl cr cd cp cn" using c by (cases c) auto
  have ceq: "bineq cp key ko cn" using fc by (simp add: c' split: if_splits)
  show ?case
  proof (cases "ko < cn")
    case True
    with c have leaf: "cn = Suc ko" "c = BNode BNull BNull cd cp (Suc ko)" by (auto simp: c')
    with fc have v: "cd = Some v" by (simp add: c' split: if_splits)
    from merge_correct [OF off n0 n, of s p] s obtain t' where
      t': "binradix_merge p n ko s = Some t'" "bwf off t'" "bit (part t') off = bit p off"
      "\<And>k. binradix_find_from t' k off =
        (if bineq p k off n then binradix_find_from s k ko else None)"
      by (auto simp: ko_def)
    have "low_eq ko cp key" using ceq leaf ko by (simp add: bineq_full)
    from unlink_find [OF off n eq _ _ _ _ t [unfolded ko_def], folded ko_def, OF s bits(2) this leaf(2)]
    have "binradix_find_from t' k off =
        (if low_eq off key k then None else binradix_find_from (BNode l r d p n) k off)" for k
      by (simp add: t')
    moreover have "binradix_delete_from False (BNode l r d p n) key ko = Some (Some v, t')"
      using True ceq v t'(1)
      by (simp add: delete_from_node c' binradix_unlink_def s_def flip: c_def del: binradix_delete_from.simps
          split: if_splits)
    ultimately show ?thesis using t' by (intro exI [of _ t']) (simp add: ko_def)
  next
    case False
    then have cn: "len c \<le> ko" "bineq (part c) key ko (len c)" using ceq by (auto simp: c')
    obtain c2 where c2: "binradix_delete_from False c key (ko - len c) = Some (Some v, c2)" "bwf ko c2"
      "bit (part c2) ko = bit (part c) ko"
      "\<And>k. binradix_find_from c2 k ko = (if low_eq ko key k then None else binradix_find_from c k ko)"
    proof (cases "bit key ko")
      case True
      with BNode.IH(2) [OF ko] c cn fc that show ?thesis by (auto simp: c_def)
    next
      case False
      with BNode.IH(1) [OF ko] c cn fc that show ?thesis by (auto simp: c_def)
    qed
    let ?t = "if bit key ko then BNode l c2 d p n else BNode c2 r d p n"
    have "binradix_delete_from False (BNode l r d p n) key ko = Some (Some v, ?t)"
      using c2(1) cn c
      by (auto simp: delete_from_node simp flip: c_def simp del: binradix_delete_from.simps)
    moreover have "bwf off ?t"
      using BNode.prems(2) n c2 bits by (simp add: ko_def)
    moreover have "binradix_find_from ?t k off =
        (if low_eq off key k then None else binradix_find_from (BNode l r d p n) k off)" for k
      using n c2(4) [of k] low_eq_split [OF off n, of key k] eq off ko
      by (auto simp: c_def key_bit_iff bineq_iff low_eq_def simp flip: ko_def)
    ultimately show ?thesis by (intro exI [of _ ?t]) (simp add: ko_def)
  qed
qed simp

lemma delete_present:
  assumes "binradix_wf t" and "binradix_find t key = Some v"
  shows "\<exists>t'. binradix_delete t key = Some (Some v, t') \<and> binradix_wf t' \<and>
    binradix_find t' = (binradix_find t)(key := None)"
proof -
  from assms(1) obtain l r p where t: "t = BNode l r None p 0" and ok: "child_ok False l" "child_ok True r"
    by (cases t) auto
  define c where "c = (if bit key 63 then r else l)"
  have fc: "binradix_find_from c key 63 = Some v" using assms(2) by (simp add: t c_def find_root split: if_splits)
  then have "c \<noteq> BNull" by auto
  with ok have c: "bwf 63 c" "bit (part c) 63 = bit key 63" by (auto simp: c_def child_ok_def split: if_splits)
  obtain cl cr cd cp cn where c': "c = BNode cl cr cd cp cn" using c by (cases c) auto
  have ceq: "bineq cp key 63 cn" using fc by (simp add: c' split: if_splits)
  have del: "binradix_delete t key = binradix_delete_from True t key 63"
    by (simp add: binradix_delete_def t bineq_def)
  show ?thesis
  proof (cases "63 < cn")
    case True
    with c have leaf: "cn = 64" "cl = BNull" "cr = BNull" "cd = Some v"
      using fc by (auto simp: c' split: if_splits)
    let ?t = "if bit key 63 then BNode l BNull None p 0 else BNode BNull r None p 0"
    have "binradix_delete t key = Some (Some v, ?t)"
      unfolding del unfolding t delete_from_node
      using True ceq leaf by (simp add: c' binradix_unlink_def flip: c_def)
    moreover have "binradix_find_from c k 63 = None" if "k \<noteq> key" for k
      using find_from_leaf [of 63 v cp k] leaf ceq bineq_full [of 63 cp key] that
      by (auto simp: c')
    then have "binradix_find ?t = (binradix_find t)(key := None)"
      by (auto simp: t c_def find_root fun_eq_iff split: if_splits)
    moreover have "binradix_wf ?t" using ok by auto
    ultimately show ?thesis by (intro exI [of _ ?t] conjI)
  next
    case False
    with ceq have cn: "len c \<le> 63" "bineq (part c) key 63 (len c)" by (auto simp: c')
    from delete_from_correct [OF _ c(1) cn(2,1) fc] obtain c2 where
      c2: "binradix_delete_from False c key (63 - len c) = Some (Some v, c2)" "bwf 63 c2"
      "bit (part c2) 63 = bit (part c) 63"
      "\<And>k. binradix_find_from c2 k 63 = (if key = k then None else binradix_find_from c k 63)"
      by auto
    let ?t = "if bit key 63 then BNode l c2 None p 0 else BNode c2 r None p 0"
    have "binradix_delete t key = Some (Some v, ?t)"
      unfolding del unfolding t delete_from_node
      using c2(1) cn c by (auto simp flip: c_def)
    moreover have "binradix_wf ?t" using ok c2 c by (auto simp: child_ok_def)
    moreover have "binradix_find ?t = (binradix_find t)(key := None)"
      using c2(4) by (auto simp: t c_def find_root fun_eq_iff)
    ultimately show ?thesis by (intro exI [of _ ?t] conjI)
  qed
qed


section \<open>Iteration\<close>

fun binradix_values :: "'a bnode \<Rightarrow> 'a list" where
  "binradix_values BNull = []"
| "binradix_values (BNode l r d p n) =
     (case d of Some x \<Rightarrow> [x] | None \<Rightarrow> binradix_values l @ binradix_values r)"

lemma for_each_from_fold: "binradix_for_each_from t v s = fold v (binradix_values t) s"
  by (induction t arbitrary: s) (auto split: option.splits)

lemma find_from_low_cong:
  "off < 64 \<Longrightarrow> low_eq off k k' \<Longrightarrow> binradix_find_from t k off = binradix_find_from t k' off"
proof (induction t arbitrary: off)
  case (BNode l r d p n)
  have "low_eq (off - n) k k'" "off - n < 64" using BNode.prems by (auto simp: low_eq_def)
  with BNode.IH BNode.prems show ?case by (auto simp: bineq_iff key_bit_iff low_eq_def)
qed simp

lemma values_find_from:
  assumes "off < 64" and "bwf off t"
  shows "v \<in> set (binradix_values t) \<longleftrightarrow> (\<exists>k. binradix_find_from t k off = Some v)"
  using assms
proof (induction t arbitrary: off)
  case (BNode l r d p n)
  show ?case
  proof (cases "n = off + 1")
    case True
    with BNode.prems show ?thesis
      by (auto simp: bineq_full intro: exI [of _ p])
  next
    case False
    define ko where "ko = off - n"
    have wf: "n \<le> off" "ko < 64" "bwf ko l" "bwf ko r" "\<not> bit (part l) ko" "bit (part r) ko" "d = None"
      using False BNode.prems by (auto simp: ko_def)
    have sub: "\<exists>k. binradix_find_from (BNode l r d p n) k off = Some v"
      if c: "binradix_find_from c k ko = Some v" and "c = (if b then r else l)" for c b k
    proof -
      let ?k = "(p AND NOT (push_bit ko 2 - 1)) OR (k AND (push_bit ko 2 - 1))"
      have bits: "bit ?k i = (if i \<le> ko then bit k i else bit p i)" for i
        by (rule merge_bits [OF wf(2)])
      have "bit k ko = b"
        using c that(2) wf find_from_wrong_bit [OF wf(2)] by (cases b) fastforce+
      moreover have "binradix_find_from c ?k ko = binradix_find_from c k ko"
        using bits wf(2) by (intro find_from_low_cong) (auto simp: low_eq_def)
      ultimately show ?thesis
        using c that(2) wf bits BNode.prems(1)
        by (intro exI [of _ ?k]) (auto simp: bineq_iff key_bit_iff ko_def)
    qed
    have "v \<in> set (binradix_values (BNode l r d p n)) \<longleftrightarrow>
        (\<exists>k. binradix_find_from l k ko = Some v) \<or> (\<exists>k. binradix_find_from r k ko = Some v)"
      using BNode.IH wf by simp
    also have "\<dots> \<longleftrightarrow> (\<exists>k. binradix_find_from (BNode l r d p n) k off = Some v)"
    proof
      assume "(\<exists>k. binradix_find_from l k ko = Some v) \<or> (\<exists>k. binradix_find_from r k ko = Some v)"
      then show "\<exists>k. binradix_find_from (BNode l r d p n) k off = Some v"
        using sub [of l _ False] sub [of r _ True] by (metis (full_types))
    next
      assume "\<exists>k. binradix_find_from (BNode l r d p n) k off = Some v"
      then show "(\<exists>k. binradix_find_from l k ko = Some v) \<or> (\<exists>k. binradix_find_from r k ko = Some v)"
        using wf by (auto simp: ko_def split: if_splits)
    qed
    finally show ?thesis .
  qed
qed simp


section \<open>The interface the memory manager relies on\<close>

text \<open>
  What \<^verbatim>\<open>page_man.c\<close> and \<^verbatim>\<open>aspace.c\<close> need of an address map: an insertion of a key that
  is absent and a deletion of a key that is present succeed, keep the invariant and change the
  lookup at that key only.
\<close>

locale address_map =
  fixes empty :: 'm
    and lookup :: "'m \<Rightarrow> 'k \<Rightarrow> 'v option"
    and insert :: "'m \<Rightarrow> 'k \<Rightarrow> 'v \<Rightarrow> ('v option \<times> 'm) option"
    and delete :: "'m \<Rightarrow> 'k \<Rightarrow> ('v option \<times> 'm) option"
    and invar :: "'m \<Rightarrow> bool"
  assumes lookup_empty: "lookup empty = Map.empty"
    and invar_empty: "invar empty"
    and insert_ok: "invar m \<Longrightarrow> lookup m k = None \<Longrightarrow>
      \<exists>m'. insert m k v = Some (None, m') \<and> invar m' \<and> lookup m' = (lookup m)(k \<mapsto> v)"
    and delete_ok: "invar m \<Longrightarrow> lookup m k = Some v \<Longrightarrow>
      \<exists>m'. delete m k = Some (Some v, m') \<and> invar m' \<and> lookup m' = (lookup m)(k := None)"
begin

lemma insert_delete:
  assumes "invar m" and "lookup m k = None"
  shows "\<exists>m1 m2. insert m k v = Some (None, m1) \<and> delete m1 k = Some (Some v, m2) \<and>
    invar m2 \<and> lookup m2 = lookup m"
proof -
  from insert_ok [OF assms] obtain m1 where
    m1: "insert m k v = Some (None, m1)" "invar m1" "lookup m1 = (lookup m)(k \<mapsto> v)" by blast
  then have "lookup m1 k = Some v" by simp
  from delete_ok [OF m1(2) this] obtain m2 where
    "delete m1 k = Some (Some v, m2)" "invar m2" "lookup m2 = (lookup m1)(k := None)" by blast
  with m1 assms(2) show ?thesis by auto
qed

lemma replace_ok:
  assumes "invar m" and "lookup m k = Some w"
  shows "\<exists>m1 m2. delete m k = Some (Some w, m1) \<and> insert m1 k v = Some (None, m2) \<and>
    invar m2 \<and> lookup m2 = (lookup m)(k \<mapsto> v)"
proof -
  from delete_ok [OF assms] obtain m1 where
    m1: "delete m k = Some (Some w, m1)" "invar m1" "lookup m1 = (lookup m)(k := None)" by blast
  then have "lookup m1 k = None" by simp
  from insert_ok [OF m1(2) this, of v] m1 show ?thesis by fastforce
qed

end

lemma binradix_new_find: "binradix_find binradix_new = Map.empty"
  by (simp add: fun_eq_iff binradix_new_def find_root)

lemma binradix_new_wf: "binradix_wf binradix_new"
  by (simp add: binradix_new_def)

interpretation radix: address_map binradix_new binradix_find binradix_insert binradix_delete binradix_wf
proof unfold_locales
qed (auto simp: binradix_new_find binradix_new_wf insert_absent delete_present simp del: fun_upd_apply)

section \<open>Properties\<close>

text \<open>C1. Inserting an absent key into a well-formed tree never runs into undefined behaviour,
  returns NULL, keeps the tree well formed, and afterwards a lookup of any key gives the new data
  at the inserted key and what it gave before at every other key.\<close>

theorem binradix_insert_correct:
  assumes "binradix_wf t" and "binradix_find t key = None"
  shows "\<exists>t'. binradix_insert t key v = Some (None, t') \<and> binradix_wf t' \<and>
    binradix_find t' = (binradix_find t)(key \<mapsto> v)"
  by (rule radix.insert_ok [OF assms])

theorem binradix_insert_correct_witness:
  "\<exists>t'. binradix_insert (binradix_new :: nat bnode) 0x1000 7 = Some (None, t') \<and> binradix_wf t' \<and>
    binradix_find t' = (binradix_find binradix_new)(0x1000 \<mapsto> 7)"
  by (rule binradix_insert_correct) (simp_all add: binradix_new_wf binradix_new_find)

text \<open>C2. Deleting a present key from a well-formed tree returns its data without dereferencing
  NULL, keeps the tree well formed (the parent that is left with one child is folded into it) and
  removes this key only.\<close>

theorem binradix_delete_correct:
  assumes "binradix_wf t" and "binradix_find t key = Some v"
  shows "\<exists>t'. binradix_delete t key = Some (Some v, t') \<and> binradix_wf t' \<and>
    binradix_find t' = (binradix_find t)(key := None)"
  by (rule radix.delete_ok [OF assms])

theorem binradix_delete_correct_witness:
  "\<exists>t'. binradix_delete (BNode (BNode BNull BNull (Some (7::nat)) 5 64) BNull None 0 0) 5 = Some (Some 7, t') \<and>
    binradix_wf t' \<and>
    binradix_find t' = (binradix_find (BNode (BNode BNull BNull (Some 7) 5 64) BNull None 0 0))(5 := None)"
  by (rule binradix_delete_correct) (simp_all add: child_ok_def find_root bineq_iff)

text \<open>Traversal: \<^verbatim>\<open>binradix_for_each\<close> applies the visitor to a list of data that holds
  exactly the values some key maps to.\<close>

theorem binradix_for_each_correct:
  assumes "binradix_wf t"
  shows "\<exists>xs. (\<forall>v (s::'s). binradix_for_each t v s = fold v xs s) \<and> set xs = ran (binradix_find t)"
proof -
  from assms obtain l r p where t: "t = BNode l r None p 0" and ok: "child_ok False l" "child_ok True r"
    by (cases t) auto
  let ?xs = "binradix_values l @ binradix_values r"
  have sub: "v \<in> set (binradix_values c) \<longleftrightarrow> (\<exists>k. binradix_find_from c k 63 = Some v \<and> bit k 63 = b)"
    if "child_ok b c" for c :: "'a bnode" and b v
  proof (cases "c = BNull")
    case False
    with that have c: "bwf 63 c" "bit (part c) 63 = b" by (auto simp: child_ok_def)
    from values_find_from [OF _ c(1), of v] find_from_wrong_bit [OF _ c(1)] c(2)
    show ?thesis by fastforce
  qed simp
  have "v \<in> set ?xs \<longleftrightarrow> v \<in> ran (binradix_find t)" for v
    using sub [OF ok(1), of v] sub [OF ok(2), of v] by (auto simp: t ran_def find_root split: if_splits)
  moreover have "binradix_for_each t v s = fold v ?xs s" for v and s :: 's
    by (simp add: binradix_for_each_def t for_each_from_fold)
  ultimately show ?thesis by blast
qed

theorem binradix_for_each_correct_witness:
  "\<exists>xs. (\<forall>v (s::nat). binradix_for_each (binradix_new :: nat bnode) v s = fold v xs s) \<and>
    set xs = ran (binradix_find (binradix_new :: nat bnode))"
  by (rule binradix_for_each_correct [OF binradix_new_wf])

text \<open>Two corners of the code the memory manager stays clear of: deleting a key when the
  root has no child on its side dereferences NULL, and inserting the only key of its half of the
  address range a second time shifts a 64-bit value by 64.\<close>

theorem binradix_corner_cases:
  "binradix_delete (binradix_new :: 'a bnode) key = None \<and>
   (\<exists>t. binradix_insert (binradix_new :: 'a bnode) key v = Some (None, t) \<and> binradix_insert t key w = None)"
proof -
  have b: "key AND 9223372036854775808 = 0 \<longleftrightarrow> \<not> bit key 63" using and_exp [of key 63] by simp
  show ?thesis
    by (cases "bit key 63")
      (simp_all add: binradix_delete_def binradix_insert_def binradix_new_def bineq_def bincmp_eq_0 b
        key_bit_iff)
qed

end
