(* ===== verification/Splay.thy ===== *)
theory Splay
  imports Prelude "HOL-Library.Tree"
begin

text \<open>
  The top-down splay tree of \<^verbatim>\<open>sys/lib/splay.c\<close>. A tree of \<^verbatim>\<open>struct splay_node\<close> is a
  \<open>'a tree\<close> of the library (\<open>Leaf\<close> is NULL); the comparison is the caller's \<^verbatim>\<open>splay_cmp\<close>,
  a parameter. The loop of \<^verbatim>\<open>splay\<close> keeps the two trees it takes apart as the lists of the
  nodes linked so far, the most recent first. Splaying keeps the in-order sequence and brings a
  neighbour of the data to the root; insertion, deletion and search are correct for every
  comparison that orders the data by some key. \<^verbatim>\<open>splay_prev\<close> and \<^verbatim>\<open>splay_next\<close> are
  correct only where the data is in the tree.
\<close>

section \<open>Splaying\<close>

type_synonym 'a splay_cmp = "'a \<Rightarrow> 'a \<Rightarrow> int"

fun splay_loop :: "'a splay_cmp \<Rightarrow> 'a \<Rightarrow> ('a tree \<times> 'a) list \<Rightarrow> 'a tree \<Rightarrow> ('a \<times> 'a tree) list \<Rightarrow>
    ('a tree \<times> 'a) list \<times> 'a tree \<times> ('a \<times> 'a tree) list" where
  "splay_loop cmp x L Leaf R = (L, Leaf, R)"
| "splay_loop cmp x L (Node l a r) R =
     (if cmp x a < 0 then
        (case l of
           Leaf \<Rightarrow> (L, Node l a r, R)
         | Node ll b lr \<Rightarrow>
             if cmp x b < 0 then \<comment> \<open>rotate right\<close>
               if ll = Leaf then (L, Node ll b (Node lr a r), R)
               else splay_loop cmp x L ll ((b, Node lr a r) # R)
             else splay_loop cmp x L (Node ll b lr) ((a, r) # R))
      else if cmp x a > 0 then
        (case r of
           Leaf \<Rightarrow> (L, Node l a r, R)
         | Node rl b rr \<Rightarrow>
             if cmp x b > 0 then \<comment> \<open>rotate left\<close>
               if rr = Leaf then (L, Node (Node l a rl) b rr, R)
               else splay_loop cmp x ((Node l a rl, b) # L) rr R
             else splay_loop cmp x ((l, a) # L) (Node rl b rr) R)
      else (L, Node l a r, R))"

text \<open>The trees hanging off \<^verbatim>\<open>tmp_root\<close>: the chain of nodes linked left ends in \<open>t\<close> on its
  right spine, the chain linked right on its left spine.\<close>

fun close_left :: "('a tree \<times> 'a) list \<Rightarrow> 'a tree \<Rightarrow> 'a tree" where
  "close_left [] t = t"
| "close_left ((l, a) # L) t = close_left L (Node l a t)"

fun close_right :: "('a \<times> 'a tree) list \<Rightarrow> 'a tree \<Rightarrow> 'a tree" where
  "close_right [] t = t"
| "close_right ((a, r) # R) t = close_right R (Node t a r)"

definition splay :: "'a splay_cmp \<Rightarrow> 'a \<Rightarrow> 'a tree \<Rightarrow> 'a tree" where
  "splay cmp x t =
     (case splay_loop cmp x [] t [] of
        (L, Leaf, R) \<Rightarrow> Leaf
      | (L, Node l a r, R) \<Rightarrow> Node (close_left L l) a (close_right R r))"

section \<open>Operations\<close>

text \<open>Each operation returns the data pointer of the C function (\<open>None\<close> is NULL) and the new
  root.\<close>

definition splay_insert :: "'a splay_cmp \<Rightarrow> 'a tree \<Rightarrow> 'a \<Rightarrow> 'a option \<times> 'a tree" where
  "splay_insert cmp root x =
     (if root = Leaf then (None, Node Leaf x Leaf)
      else case splay cmp x root of
        Leaf \<Rightarrow> (None, Leaf)
      | Node l a r \<Rightarrow>
          if cmp x a = 0 then (Some a, Node l a r)
          else if cmp x a < 0 then (None, Node l x (Node Leaf a r))
          else (None, Node (Node l a Leaf) x r))"

definition splay_delete :: "'a splay_cmp \<Rightarrow> 'a tree \<Rightarrow> 'a \<Rightarrow> 'a option \<times> 'a tree" where
  "splay_delete cmp root x =
     (if root = Leaf then (None, Leaf)
      else case splay cmp x root of
        Leaf \<Rightarrow> (None, Leaf)
      | Node l a r \<Rightarrow>
          if cmp x a = 0 then
            (Some a,
             case splay cmp x l of
               Leaf \<Rightarrow> r
             | Node ll b lr \<Rightarrow> Node ll b r)
          else (None, Node l a r))"

definition splay_prev :: "'a splay_cmp \<Rightarrow> 'a tree \<Rightarrow> 'a \<Rightarrow> 'a option \<times> 'a tree" where
  "splay_prev cmp root x =
     (if root = Leaf then (None, Leaf)
      else case splay cmp x root of
        Leaf \<Rightarrow> (None, Leaf)
      | Node l a r \<Rightarrow>
          if cmp x a \<ge> 0 then
            (case splay cmp x l of
               Leaf \<Rightarrow> (None, Node l a r)
             | Node ll b lr \<Rightarrow> (Some b, Node (Node ll b lr) a r))
          else (Some a, Node l a r))"

definition splay_next :: "'a splay_cmp \<Rightarrow> 'a tree \<Rightarrow> 'a \<Rightarrow> 'a option \<times> 'a tree" where
  "splay_next cmp root x =
     (if root = Leaf then (None, Leaf)
      else case splay cmp x root of
        Leaf \<Rightarrow> (None, Leaf)
      | Node l a r \<Rightarrow>
          if cmp x a \<le> 0 then
            (case splay cmp x r of
               Leaf \<Rightarrow> (None, Node l a r)
             | Node rl b rr \<Rightarrow> (Some b, Node l a (Node rl b rr)))
          else (Some a, Node l a r))"

definition splay_find :: "'a splay_cmp \<Rightarrow> 'a tree \<Rightarrow> 'a \<Rightarrow> 'a option \<times> 'a tree" where
  "splay_find cmp root x =
     (if root = Leaf then (None, Leaf)
      else case splay cmp x root of
        Leaf \<Rightarrow> (None, Leaf)
      | Node l a r \<Rightarrow> (if cmp x a = 0 then Some a else None, Node l a r))"

definition splay_new :: "'a tree" where
  "splay_new = Leaf"

section \<open>What a comparison has to be, and search trees\<close>

text \<open>The contract of \<^verbatim>\<open>splay_cmp\<close>: negative, zero or positive as the key of the first
  argument is below, equal to or above the key of the second.\<close>

definition cmp_by :: "('a \<Rightarrow> 'k::linorder) \<Rightarrow> 'a splay_cmp \<Rightarrow> bool" where
  "cmp_by key cmp \<longleftrightarrow> (\<forall>x y. (cmp x y < 0 \<longleftrightarrow> key x < key y) \<and> (cmp x y > 0 \<longleftrightarrow> key y < key x))"

definition search_tree :: "('a \<Rightarrow> 'k::linorder) \<Rightarrow> 'a tree \<Rightarrow> bool" where
  "search_tree key t \<longleftrightarrow> sorted_wrt (<) (map key (inorder t))"

lemma cmp_by_simps:
  assumes "cmp_by key cmp"
  shows "cmp x y < 0 \<longleftrightarrow> key x < key y" "cmp x y > 0 \<longleftrightarrow> key y < key x"
    "cmp x y = 0 \<longleftrightarrow> key x = key y" "cmp x y \<ge> 0 \<longleftrightarrow> key y \<le> key x" "cmp x y \<le> 0 \<longleftrightarrow> key x \<le> key y"
proof -
  show 1: "cmp x y < 0 \<longleftrightarrow> key x < key y" and 2: "cmp x y > 0 \<longleftrightarrow> key y < key x"
    using assms by (auto simp: cmp_by_def)
  show "cmp x y = 0 \<longleftrightarrow> key x = key y" "cmp x y \<ge> 0 \<longleftrightarrow> key y \<le> key x" "cmp x y \<le> 0 \<longleftrightarrow> key x \<le> key y"
    using 1 2 by (metis linorder_cases order_less_irrefl) (use 1 2 in \<open>auto simp: not_less [symmetric]\<close>)
qed

lemma search_tree_simps [simp]:
  "search_tree key Leaf"
  "search_tree key (Node l a r) \<longleftrightarrow> search_tree key l \<and> search_tree key r \<and>
    (\<forall>y \<in> set_tree l. key y < key a) \<and> (\<forall>y \<in> set_tree r. key a < key y)"
  by (auto simp: search_tree_def sorted_wrt_append) (metis order.strict_trans)

section \<open>Splaying keeps the sequence and finds a neighbour\<close>

lemma inorder_close_left: "inorder (close_left L t) = concat (map (\<lambda>(l, a). inorder l @ [a]) (rev L)) @ inorder t"
  by (induction L t rule: close_left.induct) auto

lemma inorder_close_right: "inorder (close_right R t) = inorder t @ concat (map (\<lambda>(a, r). a # inorder r) R)"
  by (induction R t rule: close_right.induct) auto

text \<open>One iteration of the loop: either it stops with the node to put at the root (possibly after
  a rotation), or it goes on with a smaller tree. The loop is reasoned about through these steps.\<close>

datatype 'a splay_move =
    Stop "'a tree"
  | LinkRight 'a "'a tree" "'a tree"
  | LinkLeft "'a tree" 'a "'a tree"

fun splay_step :: "'a splay_cmp \<Rightarrow> 'a \<Rightarrow> 'a tree \<Rightarrow> 'a splay_move" where
  "splay_step cmp x Leaf = Stop Leaf"
| "splay_step cmp x (Node l a r) =
     (if cmp x a < 0 then
        (case l of Leaf \<Rightarrow> Stop (Node l a r)
         | Node ll b lr \<Rightarrow>
             if cmp x b < 0 then
               if ll = Leaf then Stop (Node ll b (Node lr a r)) else LinkRight b (Node lr a r) ll
             else LinkRight a r l)
      else if cmp x a > 0 then
        (case r of Leaf \<Rightarrow> Stop (Node l a r)
         | Node rl b rr \<Rightarrow>
             if cmp x b > 0 then
               if rr = Leaf then Stop (Node (Node l a rl) b rr) else LinkLeft (Node l a rl) b rr
             else LinkLeft l a r)
      else Stop (Node l a r))"

lemma splay_loop_step:
  "splay_loop cmp x L t R =
    (case splay_step cmp x t of
       Stop t' \<Rightarrow> (L, t', R)
     | LinkRight a r t' \<Rightarrow> splay_loop cmp x L t' ((a, r) # R)
     | LinkLeft l a t' \<Rightarrow> splay_loop cmp x ((l, a) # L) t' R)"
proof (cases t)
  case (Node l a r)
  show ?thesis
    unfolding Node splay_loop.simps(2) [of _ _ _ l] splay_step.simps
    by (cases l; cases r; simp only: tree.case splay_move.case if_distrib [where f = "case_splay_move _ _ _"] cong: if_cong)
qed simp

lemma splay_step_size:
  "splay_step cmp x t = LinkRight a r t' \<Longrightarrow> size t' < size t"
  "splay_step cmp x t = LinkLeft l a t' \<Longrightarrow> size t' < size t"
  by (cases t; auto split: if_splits tree.splits)+

lemma splay_loop_induct [case_names Step]:
  assumes "\<And>L t R. (\<And>a r t'. splay_step cmp x t = LinkRight a r t' \<Longrightarrow> P L t' ((a, r) # R)) \<Longrightarrow>
    (\<And>l a t'. splay_step cmp x t = LinkLeft l a t' \<Longrightarrow> P ((l, a) # L) t' R) \<Longrightarrow> P L t R"
  shows "P L t R"
proof (induction t arbitrary: L R rule: measure_induct_rule [of size])
  case (less t)
  show ?case by (rule assms) (auto intro: less splay_step_size)
qed

lemma splay_step_Leaf: "splay_step cmp x t = Stop Leaf \<longleftrightarrow> t = Leaf"
  by (cases t) (auto split: tree.splits)

lemma splay_step_inorder:
  "splay_step cmp x t = Stop t' \<Longrightarrow> inorder t' = inorder t"
  "splay_step cmp x t = LinkRight a r t' \<Longrightarrow> inorder t' @ a # inorder r = inorder t"
  "splay_step cmp x t = LinkLeft l a t' \<Longrightarrow> inorder l @ a # inorder t' = inorder t"
  by (cases t; auto split: if_splits tree.splits)+

lemma splay_step_notLeaf:
  "splay_step cmp x t = LinkRight a r t' \<Longrightarrow> t' \<noteq> Leaf"
  "splay_step cmp x t = LinkLeft l a t' \<Longrightarrow> t' \<noteq> Leaf"
  by (cases t; auto split: if_splits tree.splits)+

lemma splay_loop_Leaf: "splay_loop cmp x L t R = (L', Leaf, R') \<Longrightarrow> t = Leaf"
proof (induction L t R rule: splay_loop_induct [of cmp x])
  case (Step L t R)
  then show ?case
    using splay_loop_step [of cmp x L t R] splay_step_notLeaf [of cmp x t] splay_step_Leaf [of cmp x t]
    by (auto split: splay_move.splits)
qed

lemma splay_loop_inorder:
  "splay_loop cmp x L t R = (L', t', R') \<Longrightarrow>
   inorder (close_left L' Leaf) @ inorder t' @ inorder (close_right R' Leaf) =
   inorder (close_left L Leaf) @ inorder t @ inorder (close_right R Leaf)"
proof (induction L t R rule: splay_loop_induct [of cmp x])
  case (Step L t R)
  show ?case
    using Step splay_loop_step [of cmp x L t R] splay_step_inorder [of cmp x t]
    by (auto simp: inorder_close_left inorder_close_right split: splay_move.splits)
qed

lemma splay_eq_Leaf [simp]: "splay cmp x t = Leaf \<longleftrightarrow> t = Leaf"
  using splay_loop_Leaf [of cmp x "[]" t "[]"]
  by (auto simp: splay_def split: prod.splits tree.splits)

lemma splay_Leaf [simp]: "splay cmp x Leaf = Leaf"
  by simp

lemma inorder_splay: "inorder (splay cmp x t) = inorder t"
proof -
  obtain L t' R where s: "splay_loop cmp x [] t [] = (L, t', R)" by (metis prod_cases3)
  with splay_loop_inorder [OF s] splay_loop_Leaf [of cmp x "[]" t "[]"] show ?thesis
    by (auto simp: splay_def inorder_close_left inorder_close_right split: tree.splits)
qed

lemma set_tree_splay: "set_tree (splay cmp x t) = set_tree t"
  by (metis inorder_splay set_inorder)

lemma search_tree_splay: "search_tree key (splay cmp x t) = search_tree key t"
  by (simp add: search_tree_def inorder_splay)

text \<open>At the end of the loop everything linked left lies below the data, everything linked right
  above it, and so do the two subtrees of the node where it stopped.\<close>

lemma splay_step_split:
  assumes "cmp_by key cmp" and "search_tree key t"
  shows "splay_step cmp x t = Stop (Node l a r) \<Longrightarrow>
      (\<forall>y \<in> set_tree l. key y < key x) \<and> (\<forall>y \<in> set_tree r. key x < key y)"
    and "splay_step cmp x t = LinkRight b r' t' \<Longrightarrow>
      key x < key b \<and> (\<forall>y \<in> set_tree r'. key x < key y) \<and> search_tree key t'"
    and "splay_step cmp x t = LinkLeft l' b t' \<Longrightarrow>
      key b < key x \<and> (\<forall>y \<in> set_tree l'. key y < key x) \<and> search_tree key t'"
  using assms
  by (cases t; fastforce simp: cmp_by_simps [OF assms(1)] split: if_splits tree.splits)+

definition left_set :: "('a tree \<times> 'a) list \<Rightarrow> 'a set" where
  "left_set L = (\<Union>(l, a) \<in> set L. insert a (set_tree l))"

definition right_set :: "('a \<times> 'a tree) list \<Rightarrow> 'a set" where
  "right_set R = (\<Union>(a, r) \<in> set R. insert a (set_tree r))"

lemma left_right_set_simps [simp]:
  "left_set [] = {}" "right_set [] = {}"
  "left_set ((l, a) # L) = left_set L \<union> insert a (set_tree l)"
  "right_set ((a, r) # R) = right_set R \<union> insert a (set_tree r)"
  by (auto simp: left_set_def right_set_def)

lemma set_close_left: "set_tree (close_left L t) = left_set L \<union> set_tree t"
  by (induction L t rule: close_left.induct) auto

lemma set_close_right: "set_tree (close_right R t) = right_set R \<union> set_tree t"
  by (induction R t rule: close_right.induct) auto

lemma splay_loop_split:
  assumes "cmp_by key cmp" and "search_tree key t"
    and "\<forall>y \<in> left_set L. key y < key x" and "\<forall>y \<in> right_set R. key x < key y"
    and "splay_loop cmp x L t R = (L', Node l a r, R')"
  shows "(\<forall>y \<in> left_set L' \<union> set_tree l. key y < key x) \<and>
    (\<forall>y \<in> right_set R' \<union> set_tree r. key x < key y)"
  using assms(2-)
proof (induction L t R rule: splay_loop_induct [of cmp x])
  case (Step L t R)
  note split = splay_step_split [OF assms(1) Step.prems(1), of x]
  note step = splay_loop_step [of cmp x L t R]
  show ?case
  proof (cases "splay_step cmp x t")
    case (Stop t')
    with step Step.prems(4) have "L' = L" "t' = Node l a r" "R' = R" by simp_all
    with split(1) Stop Step.prems show ?thesis by auto
  next
    case (LinkRight b r' t')
    with split(2) [OF LinkRight] Step.prems step show ?thesis
      by (intro Step.IH(1) [OF LinkRight]) auto
  next
    case (LinkLeft l' b t')
    with split(3) [OF LinkLeft] Step.prems step show ?thesis
      by (intro Step.IH(2) [OF LinkLeft]) auto
  qed
qed

lemma splay_split:
  assumes "cmp_by key cmp" and "search_tree key t" and "splay cmp x t = Node l a r"
  shows "\<forall>y \<in> set_tree l. key y < key x" and "\<forall>y \<in> set_tree r. key x < key y"
proof -
  obtain L l' a' r' R where s: "splay_loop cmp x [] t [] = (L, Node l' a' r', R)"
    and t: "l = close_left L l'" "a = a'" "r = close_right R r'"
    using assms(3) by (auto simp: splay_def split: prod.splits tree.splits)
  from splay_loop_split [OF assms(1,2) _ _ s]
  show "\<forall>y \<in> set_tree l. key y < key x" "\<forall>y \<in> set_tree r. key x < key y"
    by (auto simp: t set_close_left set_close_right)
qed

lemma splay_set:
  assumes "splay cmp x t = Node l a r"
  shows "set_tree t = insert a (set_tree l \<union> set_tree r)"
  using set_tree_splay [of cmp x t] assms by simp

lemma splay_wf:
  assumes "search_tree key t" and "splay cmp x t = Node l a r"
  shows "search_tree key l" "search_tree key r" "\<forall>y \<in> set_tree l. key y < key a"
    "\<forall>y \<in> set_tree r. key a < key y"
  using search_tree_splay [of key cmp x t] assms by simp_all

text \<open>Splaying for data above the whole tree leaves no right child.\<close>

lemma splay_lower_right:
  assumes "cmp_by key cmp" and "search_tree key t" and "splay cmp x t = Node l a r"
    and "\<forall>y \<in> set_tree t. key y < key x"
  shows "set_tree r = {}"
proof (rule equals0I)
  fix y assume y: "y \<in> set_tree r"
  then have "key x < key y" using splay_split(2) [OF assms(1-3)] by simp
  moreover have "key y < key x" using y assms(4) splay_set [OF assms(3)] by simp
  ultimately show False by simp
qed

lemma splay_root:
  assumes "cmp_by key cmp" and "search_tree key t" and "t \<noteq> Leaf"
  obtains l a r where "splay cmp x t = Node l a r"
    "\<forall>y \<in> set_tree l. key y < key x" "\<forall>y \<in> set_tree r. key x < key y"
    "key a = key x \<longleftrightarrow> key x \<in> key ` set_tree t"
proof -
  obtain l a r where s: "splay cmp x t = Node l a r"
    using assms(3) splay_eq_Leaf [of cmp x t] by (cases "splay cmp x t") auto
  note split = splay_split [OF assms(1,2) s]
  have "key a = key x \<longleftrightarrow> key x \<in> key ` set_tree t"
    using splay_set [OF s] split by force
  with s split show ?thesis by (rule that)
qed

section \<open>Properties\<close>

text \<open>Splaying any data, present or not, keeps the in-order sequence of the tree and splits
  it at the data: below the new root everything on the left is smaller than the data and
  everything on the right is greater, so the root is a neighbour of the data, and it is the data's
  node when the data is present.\<close>

theorem splay_correct:
  assumes "cmp_by key cmp" and "search_tree key t" and "t \<noteq> Leaf"
  shows "\<exists>l a r. splay cmp x t = Node l a r \<and> inorder (Node l a r) = inorder t \<and>
    (\<forall>y \<in> set_tree l. key y < key x) \<and> (\<forall>y \<in> set_tree r. key x < key y) \<and>
    (key a = key x \<longleftrightarrow> key x \<in> key ` set_tree t)"
proof -
  obtain l a r where "splay cmp x t = Node l a r" "\<forall>y \<in> set_tree l. key y < key x"
    "\<forall>y \<in> set_tree r. key x < key y" "key a = key x \<longleftrightarrow> key x \<in> key ` set_tree t"
    by (rule splay_root [OF assms])
  with inorder_splay [of cmp x t] show ?thesis by auto
qed

definition int_cmp :: "int splay_cmp" where
  "int_cmp x y = x - y"

lemma int_cmp_ok: "cmp_by id int_cmp"
  by (simp add: cmp_by_def int_cmp_def)

theorem splay_correct_witness:
  "\<exists>l a r. splay int_cmp 15 (Node (Node Leaf (10::int) Leaf) 20 Leaf) = Node l a r \<and>
    inorder (Node l a r) = [10, 20] \<and> 10 \<notin> set_tree r \<and> 20 \<notin> set_tree l"
  using splay_correct [OF int_cmp_ok, of "Node (Node Leaf (10::int) Leaf) 20 Leaf" 15] by fastforce

text \<open>Insertion: when the key is new, NULL is returned and the data is added; otherwise the
  tree's data with that key is returned and nothing is added. The result is a search tree.\<close>

theorem splay_insert_correct:
  assumes "cmp_by key cmp" and "search_tree key t"
  shows "search_tree key (snd (splay_insert cmp t x)) \<and>
    (if key x \<in> key ` set_tree t
     then set_tree (snd (splay_insert cmp t x)) = set_tree t \<and>
       (\<exists>y \<in> set_tree t. key y = key x \<and> fst (splay_insert cmp t x) = Some y)
     else set_tree (snd (splay_insert cmp t x)) = insert x (set_tree t) \<and>
       fst (splay_insert cmp t x) = None)"
proof (cases "t = Leaf")
  case False
  obtain l a r where s: "splay cmp x t = Node l a r"
    and split: "\<forall>y \<in> set_tree l. key y < key x" "\<forall>y \<in> set_tree r. key x < key y"
    and eq: "key a = key x \<longleftrightarrow> key x \<in> key ` set_tree t"
    by (rule splay_root [OF assms False])
  note wf = splay_wf [OF assms(2) s] and set = splay_set [OF s]
  consider "key x = key a" | "key x < key a" | "key a < key x" by (metis linorder_cases)
  then show ?thesis
  proof cases
    case 1
    then show ?thesis
      using False s wf eq set by (auto simp: splay_insert_def cmp_by_simps [OF assms(1)])
  next
    case 2
    then show ?thesis
      using False s wf eq set split by (auto simp: splay_insert_def cmp_by_simps [OF assms(1)])
  next
    case 3
    then show ?thesis
      using False s wf eq set split by (auto simp: splay_insert_def cmp_by_simps [OF assms(1)])
  qed
qed (auto simp: splay_insert_def)


theorem splay_insert_correct_witness:
  "search_tree id (snd (splay_insert int_cmp (Node Leaf 3 Leaf) 5)) \<and>
    set_tree (snd (splay_insert int_cmp (Node Leaf 3 Leaf) 5)) = {3, 5} \<and>
    fst (splay_insert int_cmp (Node Leaf 3 Leaf) 5) = None"
  using splay_insert_correct [OF int_cmp_ok, of "Node Leaf 3 Leaf" 5] by auto

text \<open>Deletion removes exactly the data with the given key and returns it, or returns NULL
  and removes nothing when the key is absent. The result is a search tree; in particular the
  right child that \<^verbatim>\<open>t->left->right = t->right\<close> overwrites is always NULL.\<close>

theorem splay_delete_correct:
  assumes "cmp_by key cmp" and "search_tree key t"
  shows "search_tree key (snd (splay_delete cmp t x)) \<and>
    set_tree (snd (splay_delete cmp t x)) = {y \<in> set_tree t. key y \<noteq> key x} \<and>
    (case fst (splay_delete cmp t x) of
       Some y \<Rightarrow> y \<in> set_tree t \<and> key y = key x
     | None \<Rightarrow> key x \<notin> key ` set_tree t)"
proof (cases "t = Leaf")
  case False
  obtain l a r where s: "splay cmp x t = Node l a r"
    and split: "\<forall>y \<in> set_tree l. key y < key x" "\<forall>y \<in> set_tree r. key x < key y"
    and eq: "key a = key x \<longleftrightarrow> key x \<in> key ` set_tree t"
    by (rule splay_root [OF assms False])
  note wf = splay_wf [OF assms(2) s] and set = splay_set [OF s]
  show ?thesis
  proof (cases "key x = key a")
    case True
    show ?thesis
    proof (cases "splay cmp x l")
      case Leaf
      then show ?thesis using False s wf set True split
        by (auto simp: splay_delete_def cmp_by_simps [OF assms(1)])
    next
      case (Node ll b lr)
      note set2 = splay_set [OF Node]
        and wf2 = splay_wf [OF wf(1) Node]
      have lr: "set_tree lr = {}" by (rule splay_lower_right [OF assms(1) wf(1) Node split(1)])
      have "key b < key x" using split(1) set2 by simp
      then have below: "\<forall>y \<in> set_tree r. key b < key y" using split(2) by auto
      have del: "splay_delete cmp t x = (Some a, Node ll b r)"
        using False s Node True by (simp add: splay_delete_def cmp_by_simps [OF assms(1)])
      have "set_tree t = insert a (insert b (set_tree ll \<union> set_tree r))" using set set2 lr by auto
      moreover have "key y \<noteq> key x" if "y \<in> insert b (set_tree ll \<union> set_tree r)" for y
      proof -
        have "key y < key x \<or> key x < key y" using that split set2 by auto
        then show ?thesis by auto
      qed
      ultimately have "set_tree (Node ll b r) = {y \<in> set_tree t. key y \<noteq> key x}" using True by auto
      with del wf(2) wf2(1,3) below set True show ?thesis by simp
    qed
  next
    case neq: False
    then have absent: "key x \<notin> key ` set_tree t" using eq by auto
    have "key y \<noteq> key x" if "y \<in> set_tree t" for y
      using absent imageI [OF that, of key] by (auto simp del: image_eqI)
    then have "{y \<in> set_tree t. key y \<noteq> key x} = set_tree t" by blast
    moreover have "splay_delete cmp t x = (None, Node l a r)"
      using neq False s by (simp add: splay_delete_def cmp_by_simps [OF assms(1)])
    ultimately show ?thesis using absent wf set by simp
  qed
qed (simp add: splay_delete_def)

theorem splay_delete_correct_witness:
  "search_tree id (snd (splay_delete int_cmp (Node Leaf 3 (Node Leaf 5 Leaf)) 5)) \<and>
    set_tree (snd (splay_delete int_cmp (Node Leaf 3 (Node Leaf 5 Leaf)) 5)) = {y \<in> {5, 3}. y \<noteq> 5} \<and>
    fst (splay_delete int_cmp (Node Leaf 3 (Node Leaf 5 Leaf)) 5) \<noteq> None"
  using splay_delete_correct [OF int_cmp_ok, of "Node Leaf 3 (Node Leaf 5 Leaf)" 5]
  by (cases "fst (splay_delete int_cmp (Node Leaf 3 (Node Leaf 5 Leaf)) 5)") simp_all

text \<open>Searching returns the data with the given key exactly when the tree has one, and keeps
  the elements of the tree.\<close>

theorem splay_find_correct:
  assumes "cmp_by key cmp" and "search_tree key t"
  shows "inorder (snd (splay_find cmp t x)) = inorder t \<and>
    (case fst (splay_find cmp t x) of
       Some y \<Rightarrow> y \<in> set_tree t \<and> key y = key x
     | None \<Rightarrow> key x \<notin> key ` set_tree t)"
proof (cases "t = Leaf")
  case False
  obtain l a r where s: "splay cmp x t = Node l a r"
    and eq: "key a = key x \<longleftrightarrow> key x \<in> key ` set_tree t"
    by (rule splay_root [OF assms False])
  have "inorder (Node l a r) = inorder t" using inorder_splay [of cmp x t] s by simp
  moreover have "fst (splay_find cmp t x) = (if key x = key a then Some a else None)"
    "snd (splay_find cmp t x) = Node l a r"
    using False s by (simp_all add: splay_find_def cmp_by_simps [OF assms(1)])
  ultimately show ?thesis using eq splay_set [OF s] by (auto simp del: inorder.simps)
qed (simp add: splay_find_def)

theorem splay_find_correct_witness:
  "inorder (snd (splay_find int_cmp (Node Leaf 3 (Node Leaf 5 Leaf)) 5)) = inorder (Node Leaf 3 (Node Leaf 5 Leaf)) \<and>
    (case fst (splay_find int_cmp (Node Leaf 3 (Node Leaf 5 Leaf)) 5) of
       Some y \<Rightarrow> y \<in> set_tree (Node Leaf 3 (Node Leaf 5 Leaf)) \<and> id y = id 5
     | None \<Rightarrow> id (5::int) \<notin> id ` set_tree (Node Leaf 3 (Node Leaf 5 Leaf)))"
  by (rule splay_find_correct [OF int_cmp_ok]) simp

definition is_pred :: "('a \<Rightarrow> 'k::linorder) \<Rightarrow> 'a tree \<Rightarrow> 'a \<Rightarrow> 'a \<Rightarrow> bool" where
  "is_pred key t x y \<longleftrightarrow> y \<in> set_tree t \<and> key y < key x \<and>
    (\<forall>z \<in> set_tree t. key z < key x \<longrightarrow> key z \<le> key y)"

text \<open>\<^verbatim>\<open>splay_prev\<close> is meant to return the last element below the data. It does so when
  the data is in the tree, but when the data is absent it never returns that element: the sign of
  its test is the wrong way round.\<close>

theorem splay_prev_behaviour:
  assumes "cmp_by key cmp" and "search_tree key t" and "is_pred key t x y"
  shows "fst (splay_prev cmp t x) = Some y \<longleftrightarrow> key x \<in> key ` set_tree t"
proof -
  have ne: "t \<noteq> Leaf" using assms(3) by (auto simp: is_pred_def)
  obtain l a r where s: "splay cmp x t = Node l a r"
    and split: "\<forall>y \<in> set_tree l. key y < key x" "\<forall>y \<in> set_tree r. key x < key y"
    and eq: "key a = key x \<longleftrightarrow> key x \<in> key ` set_tree t"
    by (rule splay_root [OF assms(1,2) ne])
  note wf = splay_wf [OF assms(2) s] and set = splay_set [OF s]
  note cmp = cmp_by_simps [OF assms(1)]
  consider "key x < key a" | "key a < key x" | "key a = key x" by (metis linorder_cases)
  then show ?thesis
  proof cases
    case 1
    then have "fst (splay_prev cmp t x) = Some a" using ne s by (auto simp: splay_prev_def cmp)
    with 1 eq assms(3) show ?thesis by (auto simp: is_pred_def)
  next
    case 2
    then have "key a \<le> key y" using assms(3) set by (auto simp: is_pred_def)
    moreover have "key b < key a" if "splay cmp x l = Node ll b lr" for ll b lr
      using wf(3) splay_set [OF that] by auto
    ultimately have "fst (splay_prev cmp t x) \<noteq> Some y"
      using 2 ne s by (cases "splay cmp x l") (auto simp: splay_prev_def cmp)
    with 2 eq show ?thesis by auto
  next
    case 3
    have y: "y \<in> set_tree l" using assms(3) set split 3 by (auto simp: is_pred_def)
    then obtain ll b lr where b: "splay cmp x l = Node ll b lr"
      by (cases "splay cmp x l") auto
    note sb = splay_set [OF b] and wb = splay_wf [OF wf(1) b]
    have "set_tree lr = {}" by (rule splay_lower_right [OF assms(1) wf(1) b split(1)])
    then have "y = b \<or> y \<in> set_tree ll" using y sb by auto
    moreover have "key b \<le> key y" using assms(3) set sb split(1) by (auto simp: is_pred_def)
    ultimately have "y = b" using wb(3) by auto
    then show ?thesis using 3 b ne s eq by (simp add: splay_prev_def cmp)
  qed
qed

theorem splay_prev_behaviour_witness:
  "fst (splay_prev int_cmp (Node (Node Leaf 10 Leaf) 20 Leaf) 15) = Some 10 \<longleftrightarrow>
    id (15::int) \<in> id ` set_tree (Node (Node Leaf 10 Leaf) 20 Leaf)"
  by (rule splay_prev_behaviour [OF int_cmp_ok]) (auto simp: is_pred_def)

end
