(* ===== verification/KList.thy ===== *)
theory KList
  imports Prelude
begin

text \<open>
  The intrusive doubly-linked lists of \<^verbatim>\<open>include/sys/list.h\<close>, with the debugging checks
  compiled out as in the kernel's build. A heap gives the two fields of every
  \<^verbatim>\<open>struct list_node\<close>; addresses are those of the nodes (an entry is found from its node by
  a constant offset), so the head of a list is a node too. Each operation is the sequence of its
  assignments. The abstraction \<open>is_list\<close> relates a head to the list of its nodes, and every
  operation refines the operation of HOL lists of the same meaning, without touching another list.
\<close>

section \<open>Heap and operations\<close>

type_synonym addr = nat

record list_heap =
  nxt :: "addr \<Rightarrow> addr"
  prv :: "addr \<Rightarrow> addr"

definition set_next :: "addr \<Rightarrow> addr \<Rightarrow> list_heap \<Rightarrow> list_heap" where
  "set_next a v s = s\<lparr>nxt := (nxt s)(a := v)\<rparr>"

definition set_prev :: "addr \<Rightarrow> addr \<Rightarrow> list_heap \<Rightarrow> list_heap" where
  "set_prev a v s = s\<lparr>prv := (prv s)(a := v)\<rparr>"

definition list_head_init :: "addr \<Rightarrow> list_heap \<Rightarrow> list_heap" where
  "list_head_init h s = set_next h h (set_prev h h s)"

definition list_node_init :: "addr \<Rightarrow> list_heap \<Rightarrow> list_heap" where
  "list_node_init n s = set_next n n (set_prev n n s)"

definition list_add_after :: "addr \<Rightarrow> addr \<Rightarrow> addr \<Rightarrow> list_heap \<Rightarrow> list_heap" where
  "list_add_after h p n s =
     (let s = set_next n (nxt s p) s;
          s = set_prev n p s;
          s = set_prev (nxt s p) n s
      in set_next p n s)"

definition list_add :: "addr \<Rightarrow> addr \<Rightarrow> list_heap \<Rightarrow> list_heap" where
  "list_add h n s = list_add_after h h n s"

definition list_add_before :: "addr \<Rightarrow> addr \<Rightarrow> addr \<Rightarrow> list_heap \<Rightarrow> list_heap" where
  "list_add_before h p n s =
     (let s = set_next n p s;
          s = set_prev n (prv s p) s;
          s = set_next (prv s p) n s
      in set_prev p n s)"

definition list_add_tail :: "addr \<Rightarrow> addr \<Rightarrow> list_heap \<Rightarrow> list_heap" where
  "list_add_tail h n s = list_add_before h h n s"

definition list_empty :: "addr \<Rightarrow> list_heap \<Rightarrow> bool" where
  "list_empty h s \<longleftrightarrow> nxt s h = h"

definition list_del :: "addr \<Rightarrow> list_heap \<Rightarrow> list_heap" where
  "list_del n s =
     (let s = set_prev (nxt s n) (prv s n) s
      in set_next (prv s n) (nxt s n) s)"

definition list_del_init :: "addr \<Rightarrow> list_heap \<Rightarrow> list_heap" where
  "list_del_init n s = list_node_init n (list_del n s)"

text \<open>Deleting from an empty list panics.\<close>

definition list_del_from :: "addr \<Rightarrow> addr \<Rightarrow> list_heap \<Rightarrow> list_heap option" where
  "list_del_from h n s = do { guard (\<not> list_empty h s); Some (list_del n s) }"

definition list_swap :: "addr \<Rightarrow> addr \<Rightarrow> list_heap \<Rightarrow> list_heap" where
  "list_swap old n s =
     (let s = set_next n (nxt s old) (set_prev n (prv s old) s);
          s = set_prev (nxt s n) n s
      in set_next (prv s n) n s)"

text \<open>The entry of a node is \<^verbatim>\<open>node - off\<close>; \<open>None\<close> is NULL.\<close>

definition list_top :: "addr \<Rightarrow> list_heap \<Rightarrow> addr option" where
  "list_top h s = (if list_empty h s then None else Some (nxt s h))"

definition list_pop :: "addr \<Rightarrow> list_heap \<Rightarrow> addr option \<times> list_heap" where
  "list_pop h s =
     (if list_empty h s then (None, s)
      else let n = nxt s h in (Some n, list_del n s))"

definition list_tail :: "addr \<Rightarrow> list_heap \<Rightarrow> addr option" where
  "list_tail h s = (if list_empty h s then None else Some (prv s h))"

definition list_entry_or_null :: "addr \<Rightarrow> addr \<Rightarrow> addr option" where
  "list_entry_or_null h n = (if n = h then None else Some n)"

definition list_next :: "addr \<Rightarrow> addr \<Rightarrow> list_heap \<Rightarrow> addr option" where
  "list_next h i s = list_entry_or_null h (nxt s i)"

definition list_prev :: "addr \<Rightarrow> addr \<Rightarrow> list_heap \<Rightarrow> addr option" where
  "list_prev h i s = list_entry_or_null h (prv s i)"

definition list_append_list :: "addr \<Rightarrow> addr \<Rightarrow> list_heap \<Rightarrow> list_heap" where
  "list_append_list to from s =
     (let from_tail = prv s from;
          to_tail = prv s to;
          s = set_prev to from_tail s;
          s = set_next from_tail to s;
          s = set_next to_tail from s;
          s = set_prev from to_tail s;
          s = list_del from s
      in list_head_init from s)"

definition list_prepend_list :: "addr \<Rightarrow> addr \<Rightarrow> list_heap \<Rightarrow> list_heap" where
  "list_prepend_list to from s =
     (let from_tail = prv s from;
          to_head = nxt s to;
          s = set_next to from s;
          s = set_prev from to s;
          s = set_prev to_head from_tail s;
          s = set_next from_tail to_head s;
          s = list_del from s
      in list_head_init from s)"

text \<open>
  The loops \<^verbatim>\<open>list_for_each\<close> and \<^verbatim>\<open>list_for_each_safe\<close>, from the node \<open>i\<close> on, with a body that
  transforms the client's state and the heap. On a heap that is no list the loop may run forever:
  \<open>fuel\<close> bounds the iterations, \<open>None\<close> is running out of it. The safe variant reads the
  successor before the body runs, so that the body may delete the node.
\<close>

fun list_for_each_from ::
  "nat \<Rightarrow> (list_heap \<Rightarrow> addr \<Rightarrow> addr) \<Rightarrow> addr \<Rightarrow> addr \<Rightarrow> (addr \<Rightarrow> 'c \<Rightarrow> 'c) \<Rightarrow> list_heap \<Rightarrow> 'c \<Rightarrow> 'c option" where
  "list_for_each_from 0 dir h i body s c = (if i = h then Some c else None)"
| "list_for_each_from (Suc k) dir h i body s c =
     (if i = h then Some c else list_for_each_from k dir h (dir s i) body s (body i c))"

definition list_for_each :: "nat \<Rightarrow> addr \<Rightarrow> (addr \<Rightarrow> 'c \<Rightarrow> 'c) \<Rightarrow> list_heap \<Rightarrow> 'c \<Rightarrow> 'c option" where
  "list_for_each k h body s c = list_for_each_from k nxt h (nxt s h) body s c"

definition list_for_each_rev :: "nat \<Rightarrow> addr \<Rightarrow> (addr \<Rightarrow> 'c \<Rightarrow> 'c) \<Rightarrow> list_heap \<Rightarrow> 'c \<Rightarrow> 'c option" where
  "list_for_each_rev k h body s c = list_for_each_from k prv h (prv s h) body s c"

fun list_for_each_safe_from ::
  "nat \<Rightarrow> addr \<Rightarrow> addr \<Rightarrow> addr \<Rightarrow> (addr \<Rightarrow> list_heap \<Rightarrow> 'c \<Rightarrow> list_heap \<times> 'c) \<Rightarrow> list_heap \<Rightarrow> 'c \<Rightarrow>
    (list_heap \<times> 'c) option" where
  "list_for_each_safe_from 0 h i nx body s c = (if i = h then Some (s, c) else None)"
| "list_for_each_safe_from (Suc k) h i nx body s c =
     (if i = h then Some (s, c)
      else let (s, c) = body i s c in list_for_each_safe_from k h nx (nxt s nx) body s c)"

definition list_for_each_safe ::
  "nat \<Rightarrow> addr \<Rightarrow> (addr \<Rightarrow> list_heap \<Rightarrow> 'c \<Rightarrow> list_heap \<times> 'c) \<Rightarrow> list_heap \<Rightarrow> 'c \<Rightarrow>
    (list_heap \<times> 'c) option" where
  "list_for_each_safe k h body s c =
     list_for_each_safe_from k h (nxt s h) (nxt s (nxt s h)) body s c"

section \<open>Abstraction\<close>

text \<open>\<open>path s zs\<close>: consecutive nodes of \<open>zs\<close> are linked in both directions.\<close>

fun path :: "list_heap \<Rightarrow> addr list \<Rightarrow> bool" where
  "path s (x # y # zs) \<longleftrightarrow> nxt s x = y \<and> prv s y = x \<and> path s (y # zs)"
| "path s _ \<longleftrightarrow> True"

definition is_list :: "list_heap \<Rightarrow> addr \<Rightarrow> addr list \<Rightarrow> bool" where
  "is_list s h xs \<longleftrightarrow> path s (h # xs @ [h]) \<and> distinct (h # xs)"

lemma heap_upd_simps [simp]:
  "nxt (set_next a v s) = (nxt s)(a := v)" "prv (set_next a v s) = prv s"
  "nxt (set_prev a v s) = nxt s" "prv (set_prev a v s) = (prv s)(a := v)"
  by (simp_all add: set_next_def set_prev_def)

lemma path_append:
  "xs \<noteq> [] \<Longrightarrow> ys \<noteq> [] \<Longrightarrow>
   path s (xs @ ys) \<longleftrightarrow> path s xs \<and> path s ys \<and> nxt s (last xs) = hd ys \<and> prv s (hd ys) = last xs"
  by (induction s xs rule: path.induct; cases ys) (auto simp: neq_Nil_conv)

lemma path_cong:
  assumes "\<forall>x \<in> set (butlast zs). nxt s' x = nxt s x" and "\<forall>x \<in> set (tl zs). prv s' x = prv s x"
  shows "path s' zs = path s zs"
  using assms by (induction s zs rule: path.induct) (auto split: if_splits)

text \<open>Around a gap in the ring: the part up to the node before the gap and the part from the node
  after it stay linked when only the pointers into the gap (and those of nodes outside) change.\<close>

lemma path_gap:
  assumes "distinct (h # xs @ ys)" and "path s (h # xs)" and "path s (ys @ [h])"
    and "\<forall>x. x \<in> set (h # xs @ ys) \<and> x \<noteq> last (h # xs) \<longrightarrow> nxt s' x = nxt s x"
    and "\<forall>x. x \<in> set (h # xs @ ys) \<and> x \<noteq> hd (ys @ [h]) \<longrightarrow> prv s' x = prv s x"
  shows "path s' (h # xs) \<and> path s' (ys @ [h])"
proof
  have 1: "x \<noteq> last (h # xs)" if "x \<in> set (butlast (h # xs))" for x
    using assms(1) that by (metis append_butlast_last_id distinct_append distinct.simps(2)
      list.distinct(1) not_distinct_conv_prefix append_Cons)
  have 2: "hd (ys @ [h]) \<notin> set xs" using assms(1) by (cases ys) auto
  have "path s' (h # xs) = path s (h # xs)"
    using assms(4,5) 1 2 by (intro path_cong) (auto dest: in_set_butlastD split: if_splits)
  then show "path s' (h # xs)" using assms(2) by simp
  have 3: "last (h # xs) \<notin> set ys" using assms(1) by (cases xs rule: rev_cases) auto
  have 4: "hd (ys @ [h]) \<notin> set (tl (ys @ [h]))" using assms(1) by (cases ys) auto
  have "path s' (ys @ [h]) = path s (ys @ [h])"
  proof (rule path_cong)
    show "\<forall>x \<in> set (butlast (ys @ [h])). nxt s' x = nxt s x" using assms(4) 3 by auto
    show "\<forall>x \<in> set (tl (ys @ [h])). prv s' x = prv s x"
    proof
      fix x assume "x \<in> set (tl (ys @ [h]))"
      moreover from this 4 have "x \<noteq> hd (ys @ [h])" by metis
      moreover have "set (tl (ys @ [h])) \<subseteq> set (h # xs @ ys)" by (cases ys) auto
      ultimately show "prv s' x = prv s x" using assms(5) by blast
    qed
  qed
  then show "path s' (ys @ [h])" using assms(3) by simp
qed

lemma is_list_split:
  "is_list s h (xs @ ys) \<longleftrightarrow> distinct (h # xs @ ys) \<and> path s (h # xs) \<and> path s (ys @ [h]) \<and>
    nxt s (last (h # xs)) = hd (ys @ [h]) \<and> prv s (hd (ys @ [h])) = last (h # xs)"
  using path_append [of "h # xs" "ys @ [h]" s] by (auto simp: is_list_def)

lemma is_list_split_node:
  "is_list s h (xs @ n # ys) \<longleftrightarrow> distinct (h # xs @ n # ys) \<and> path s (h # xs) \<and> path s (ys @ [h]) \<and>
    nxt s (last (h # xs)) = n \<and> prv s n = last (h # xs) \<and>
    nxt s n = hd (ys @ [h]) \<and> prv s (hd (ys @ [h])) = n"
  using path_append [of "[n]" "ys @ [h]" s] by (auto simp: is_list_split)

lemma is_list_distinct: "is_list s h xs \<Longrightarrow> distinct (h # xs)"
  by (simp add: is_list_def)

lemma is_list_nxt: "is_list s h xs \<Longrightarrow> nxt s h = hd (xs @ [h])"
  using is_list_split [of s h "[]" xs] by simp

lemma is_list_prv: "is_list s h xs \<Longrightarrow> prv s h = last (h # xs)"
  using is_list_split [of s h xs "[]"] by simp

lemma is_list_fields:
  assumes "is_list s h (xs @ n # ys)"
  shows "nxt s n = hd (ys @ [h])" "prv s n = last (h # xs)"
  using assms by (simp_all add: is_list_split_node)

lemma is_list_frame:
  assumes "is_list s h xs" and "\<forall>x \<in> set (h # xs). nxt s' x = nxt s x \<and> prv s' x = prv s x"
  shows "is_list s' h xs"
  using assms path_cong [of "h # xs @ [h]" s' s] by (auto simp: is_list_def butlast_append)

section \<open>Every operation refines a list operation\<close>

lemma is_list_head_init: "is_list (list_head_init h s) h []"
  by (simp add: is_list_def list_head_init_def)

lemma is_list_add_after:
  assumes "is_list s h (xs @ ys)" and "n \<notin> set (h # xs @ ys)" and "p = last (h # xs)"
  shows "is_list (list_add_after h p n s) h (xs @ n # ys)"
proof -
  let ?s = "list_add_after h p n s"
  have l: "distinct (h # xs @ ys)" "path s (h # xs)" "path s (ys @ [h])" "nxt s p = hd (ys @ [h])"
    using assms(1,3) by (simp_all add: is_list_split)
  have ne: "n \<noteq> p" "n \<noteq> hd (ys @ [h])"
    using assms(2,3) by (auto simp: hd_append dest: last_in_set split: if_splits)
  have upd: "nxt ?s = (nxt s)(n := hd (ys @ [h]), p := n)" "prv ?s = (prv s)(n := p, hd (ys @ [h]) := n)"
    using ne l(4) by (simp_all add: list_add_after_def Let_def)
  have "path ?s (h # xs) \<and> path ?s (ys @ [h])"
    by (rule path_gap [OF l(1-3)]) (use assms(2,3) upd in auto)
  then show ?thesis using l(1) assms(2,3) ne upd by (simp add: is_list_split_node)
qed

lemma is_list_add_before:
  assumes "is_list s h (xs @ ys)" and "n \<notin> set (h # xs @ ys)" and "p = hd (ys @ [h])"
  shows "is_list (list_add_before h p n s) h (xs @ n # ys)"
proof -
  let ?s = "list_add_before h p n s" and ?q = "last (h # xs)"
  have l: "distinct (h # xs @ ys)" "path s (h # xs)" "path s (ys @ [h])" "prv s p = ?q"
    using assms(1,3) by (simp_all add: is_list_split)
  have ne: "n \<noteq> p" "n \<noteq> ?q"
    using assms(2,3) by (auto simp: hd_append dest: last_in_set split: if_splits)
  have upd: "nxt ?s = (nxt s)(n := p, ?q := n)" "prv ?s = (prv s)(n := ?q, p := n)"
    using ne l(4) by (simp_all add: list_add_before_def Let_def)
  have "path ?s (h # xs) \<and> path ?s (ys @ [h])"
    by (rule path_gap [OF l(1-3)]) (use assms(2,3) upd in auto)
  then show ?thesis using l(1) assms(2,3) ne upd by (simp add: is_list_split_node)
qed

lemma is_list_del:
  assumes "is_list s h (xs @ n # ys)"
  shows "is_list (list_del n s) h (xs @ ys)"
proof -
  let ?s = "list_del n s" and ?p = "last (h # xs)" and ?q = "hd (ys @ [h])"
  have l: "distinct (h # xs @ n # ys)" "path s (h # xs)" "path s (ys @ [h])" "nxt s n = ?q" "prv s n = ?p"
    using assms by (simp_all add: is_list_split_node)
  have d: "distinct (h # xs @ ys)" using l(1) by auto
  have ne: "n \<noteq> ?p" "n \<noteq> ?q"
    using l(1) by (auto simp: hd_append dest: last_in_set split: if_splits)
  have upd: "nxt ?s = (nxt s)(?p := ?q)" "prv ?s = (prv s)(?q := ?p)"
    using ne l(4,5) by (simp_all add: list_del_def Let_def)
  have "path ?s (h # xs) \<and> path ?s (ys @ [h])"
    by (rule path_gap [OF d l(2,3)]) (use upd in auto)
  then show ?thesis using d upd by (simp add: is_list_split)
qed

lemma is_list_swap:
  assumes "is_list s h (xs @ m # ys)" and "n \<notin> set (h # xs @ m # ys)"
  shows "is_list (list_swap m n s) h (xs @ n # ys)"
proof -
  let ?s = "list_swap m n s" and ?p = "last (h # xs)" and ?q = "hd (ys @ [h])"
  have l: "distinct (h # xs @ m # ys)" "path s (h # xs)" "path s (ys @ [h])" "nxt s m = ?q" "prv s m = ?p"
    using assms(1) by (simp_all add: is_list_split_node)
  have d: "distinct (h # xs @ ys)" using l(1) by auto
  have ne: "n \<noteq> ?p" "n \<noteq> ?q"
    using assms(2) by (auto simp: hd_append dest: last_in_set split: if_splits)
  have upd: "nxt ?s = (nxt s)(n := ?q, ?p := n)" "prv ?s = (prv s)(n := ?p, ?q := n)"
    using ne l(4,5) by (simp_all add: list_swap_def Let_def)
  have "path ?s (h # xs) \<and> path ?s (ys @ [h])"
    by (rule path_gap [OF d l(2,3)]) (use assms(2) upd in auto)
  then show ?thesis using l(1) assms(2) ne upd by (simp add: is_list_split_node)
qed

lemma list_empty_iff: "is_list s h xs \<Longrightarrow> list_empty h s \<longleftrightarrow> xs = []"
  using is_list_nxt [of s h xs] by (cases xs) (auto simp: list_empty_def is_list_def)

lemma list_pop_Cons:
  assumes "is_list s h (x # xs)"
  shows "list_pop h s = (Some x, list_del x s)"
  using assms list_empty_iff [OF assms] is_list_nxt [OF assms] by (simp add: list_pop_def Let_def)

text \<open>Moving a whole list: the two rings are cut at the ends that are sewn together.\<close>

lemma distinct_last_butlast: "distinct zs \<Longrightarrow> x \<in> set (butlast zs) \<Longrightarrow> x \<noteq> last zs"
  by (induction zs) (auto split: if_splits dest: in_set_butlastD)

lemma distinct_hd_tl: "distinct zs \<Longrightarrow> x \<in> set (tl zs) \<Longrightarrow> x \<noteq> hd zs"
  by (cases zs) auto

lemma path_cut:
  assumes "distinct zs" and "path s zs"
    and "\<forall>x \<in> set zs. x \<noteq> last zs \<longrightarrow> nxt s' x = nxt s x" and "\<forall>x \<in> set zs. x \<noteq> hd zs \<longrightarrow> prv s' x = prv s x"
  shows "path s' zs"
  using assms path_cong [of zs s' s]
  by (metis distinct_hd_tl distinct_last_butlast in_set_butlastD list.set_sel(2) tl_Nil empty_iff set_empty)

lemma is_list_cut:
  assumes "is_list s h ys" and "ys \<noteq> []"
  shows "path s (h # ys)" "path s ys" "nxt s h = hd ys" "prv s h = last ys" "prv s (hd ys) = h" "nxt s (last ys) = h"
  using assms is_list_split [of s h "[]" ys] path_append [of ys "[h]" s] is_list_split [of s h ys "[]"] by auto

lemma is_list_append_list:
  assumes "is_list s t xs" and "is_list s f ys" and "set (t # xs) \<inter> set (f # ys) = {}"
  shows "is_list (list_append_list t f s) t (xs @ ys) \<and> is_list (list_append_list t f s) f []"
proof (cases "ys = []")
  case True
  let ?s = "list_append_list t f s"
  have pt: "prv s t = last (t # xs)" and pf: "prv s f = f"
    using is_list_prv assms(1,2) True by fastforce+
  have nt: "nxt s (last (t # xs)) = t" using assms(1) is_list_split [of s t xs "[]"] by simp
  have ne: "f \<noteq> t" "f \<noteq> last (t # xs)" using assms(3) by (auto dest: last_in_set split: if_splits)
  have upd: "nxt ?s = (nxt s)(f := f)" "prv ?s = (prv s)(f := f)"
    using ne pt pf nt by (auto simp: list_append_list_def list_del_def list_head_init_def Let_def)
  have "is_list ?s t xs" by (rule is_list_frame [OF assms(1)]) (use upd assms(3) in auto)
  then show ?thesis using True upd by (simp add: is_list_def)
next
  case False
  let ?s = "list_append_list t f s" and ?tt = "last (t # xs)" and ?ft = "last ys"
  note f = is_list_cut [OF assms(2) False]
  have pt: "prv s t = ?tt" using is_list_prv [OF assms(1)] .
  have in_f: "?ft \<in> set ys" "hd ys \<in> set ys" using False by simp_all
  have ne: "f \<noteq> t" "f \<noteq> ?tt" "f \<noteq> ?ft" "f \<noteq> hd ys" "?tt \<noteq> ?ft" "t \<noteq> hd ys" "t \<noteq> ?ft"
    using assms(3) is_list_distinct [OF assms(2)] in_f by (auto dest: last_in_set split: if_splits)
  have upd: "nxt ?s = (nxt s)(?ft := t, ?tt := hd ys, f := f)" "prv ?s = (prv s)(t := ?ft, hd ys := ?tt, f := f)"
    using ne pt f by (auto simp: list_append_list_def list_del_def list_head_init_def Let_def fun_eq_iff)
  have px: "path ?s (t # xs)"
    by (rule path_cut [of _ s]) (use assms in_f upd is_list_split [of s t xs "[]"] in \<open>auto simp: is_list_def\<close>)
  have py: "path ?s ys"
    by (rule path_cut [of _ s]) (use assms in_f upd f is_list_distinct [OF assms(2)] in \<open>auto dest: last_in_set split: if_splits\<close>)
  have dis: "distinct (t # xs @ ys)"
    using is_list_distinct [OF assms(1)] is_list_distinct [OF assms(2)] assms(3) by auto
  have pyt: "path ?s (ys @ [t])"
    using py upd ne False path_append [of ys "[t]" ?s] by simp
  have "is_list ?s t (xs @ ys)"
    unfolding is_list_split using px pyt dis upd ne False by simp
  then show ?thesis using upd by (simp add: is_list_def)
qed

lemma is_list_prepend_list:
  assumes "is_list s t xs" and "is_list s f ys" and "set (t # xs) \<inter> set (f # ys) = {}"
  shows "is_list (list_prepend_list t f s) t (ys @ xs) \<and> is_list (list_prepend_list t f s) f []"
proof (cases "ys = []")
  case True
  let ?s = "list_prepend_list t f s"
  have nt: "nxt s t = hd (xs @ [t])" and pf: "prv s f = f"
    using is_list_prv is_list_nxt assms(1,2) True by fastforce+
  have pt: "prv s (hd (xs @ [t])) = t" using assms(1) is_list_split [of s t "[]" xs] by simp
  have ne: "f \<noteq> t" "f \<noteq> hd (xs @ [t])" using assms(3) by (auto simp: hd_append)
  have upd: "nxt ?s = (nxt s)(f := f)" "prv ?s = (prv s)(f := f)"
    using ne pt pf nt by (auto simp: list_prepend_list_def list_del_def list_head_init_def Let_def)
  have "is_list ?s t xs" by (rule is_list_frame [OF assms(1)]) (use upd assms(3) in auto)
  then show ?thesis using True upd by (simp add: is_list_def)
next
  case False
  let ?s = "list_prepend_list t f s" and ?th = "hd (xs @ [t])" and ?ft = "last ys"
  note f = is_list_cut [OF assms(2) False]
  have nt: "nxt s t = ?th" using is_list_nxt [OF assms(1)] .
  have in_f: "?ft \<in> set ys" "hd ys \<in> set ys" using False by simp_all
  have in_t: "?th \<in> set (t # xs)" by (cases xs) auto
  have ne: "f \<noteq> t" "f \<noteq> ?th" "f \<noteq> ?ft" "f \<noteq> hd ys" "?th \<noteq> ?ft" "t \<noteq> hd ys" "t \<noteq> ?ft" "?th \<noteq> hd ys"
    using assms(3) is_list_distinct [OF assms(2)] in_f in_t by auto
  have upd: "nxt ?s = (nxt s)(t := hd ys, ?ft := ?th, f := f)" "prv ?s = (prv s)(?th := ?ft, hd ys := t, f := f)"
    using ne nt f by (auto simp: list_prepend_list_def list_del_def list_head_init_def Let_def fun_eq_iff)
  have th: "?th \<notin> set ys" using in_t assms(3) by auto
  have dx: "distinct (xs @ [t])" using is_list_distinct [OF assms(1)] by auto
  have px: "path ?s (xs @ [t])"
    by (rule path_cut [of _ s]) (use assms dx in_f upd is_list_split [of s t "[]" xs] in auto)
  have py: "path ?s ys"
    by (rule path_cut [of _ s])
      (use assms th in_f upd f(2) is_list_distinct [OF assms(2)] in \<open>auto simp del: hd_append\<close>)
  have dis: "distinct (t # ys @ xs)"
    using is_list_distinct [OF assms(1)] is_list_distinct [OF assms(2)] assms(3) by auto
  have pty: "path ?s (t # ys)" using py upd ne False by (cases ys) auto
  have "is_list ?s t (ys @ xs)"
    unfolding is_list_split using px pty dis upd ne False by simp
  then show ?thesis using upd by (simp add: is_list_def)
qed

section \<open>Iteration\<close>

lemma list_for_each_from_nxt:
  "is_list s h (ds @ zs) \<Longrightarrow> length zs \<le> k \<Longrightarrow>
   list_for_each_from k nxt h (hd (zs @ [h])) body s c = Some (fold body zs c)"
proof (induction zs arbitrary: ds k c)
  case Nil
  then show ?case by (cases k) auto
next
  case (Cons z zs)
  from Cons.prems obtain k' where k: "k = Suc k'" "length zs \<le> k'" by (cases k) auto
  have "z \<noteq> h" using Cons.prems(1) by (auto simp: is_list_def)
  with k Cons.IH [of "ds @ [z]" k' "body z c"] Cons.prems is_list_fields(1) [OF Cons.prems(1)]
  show ?case by simp
qed

lemma list_for_each_from_prv:
  "is_list s h (zs @ ds) \<Longrightarrow> length zs \<le> k \<Longrightarrow>
   list_for_each_from k prv h (last (h # zs)) body s c = Some (fold body (rev zs) c)"
proof (induction zs arbitrary: ds k c rule: rev_induct)
  case Nil
  then show ?case by (cases k) auto
next
  case (snoc z zs)
  from snoc.prems obtain k' where k: "k = Suc k'" "length zs \<le> k'" by (cases k) auto
  have l: "is_list s h (zs @ z # ds)" using snoc.prems by simp
  have "z \<noteq> h" using l by (auto simp: is_list_def)
  with k snoc.IH [OF l k(2), of "body z c"] is_list_fields(2) [OF l]
  show ?case by simp
qed

lemma list_for_each_safe_from_del:
  fixes P :: "addr \<Rightarrow> bool"
  defines "body \<equiv> \<lambda>i s c. (if P i then list_del i s else s, c @ [i])"
  shows "is_list s h (ds @ zs) \<Longrightarrow> length zs \<le> k \<Longrightarrow> nx = nxt s (hd (zs @ [h])) \<Longrightarrow>
   \<exists>s'. list_for_each_safe_from k h (hd (zs @ [h])) nx body s c = Some (s', c @ zs) \<and>
     is_list s' h (ds @ filter (\<lambda>x. \<not> P x) zs)"
proof (induction zs arbitrary: ds k c s nx)
  case Nil
  then show ?case by (cases k) auto
next
  case (Cons z zs)
  from Cons.prems obtain k' where k: "k = Suc k'" "length zs \<le> k'" by (cases k) auto
  have "z \<noteq> h" using Cons.prems(1) by (auto simp: is_list_def)
  have nx: "nx = hd (zs @ [h])" using Cons.prems(3) is_list_fields(1) [OF Cons.prems(1)] by simp
  define s1 where "s1 = (if P z then list_del z s else s)"
  define ds1 where "ds1 = (if P z then ds else ds @ [z])"
  have "is_list s1 h (ds1 @ zs)"
    using Cons.prems(1) is_list_del [OF Cons.prems(1)] by (simp add: s1_def ds1_def)
  from Cons.IH [OF this k(2) refl, of "c @ [z]"] \<open>z \<noteq> h\<close> k(1) nx show ?case
    by (simp add: body_def s1_def ds1_def split: if_splits)
qed

section \<open>The list interface\<close>

text \<open>What the users of lists rely on: a queue of nodes that are added at the tail and taken from
  the front. \<open>pops pop k\<close> takes \<open>k\<close> nodes.\<close>

fun pops :: "('h \<Rightarrow> 'n option \<times> 'h) \<Rightarrow> nat \<Rightarrow> 'h \<Rightarrow> 'n option list \<times> 'h" where
  "pops pop 0 s = ([], s)"
| "pops pop (Suc k) s = (let (x, s) = pop s; (xs, s) = pops pop k s in (x # xs, s))"

locale node_queue =
  fixes rep :: "'h \<Rightarrow> 'n \<Rightarrow> 'n list \<Rightarrow> bool"
    and init :: "'n \<Rightarrow> 'h \<Rightarrow> 'h"
    and add_tail :: "'n \<Rightarrow> 'n \<Rightarrow> 'h \<Rightarrow> 'h"
    and pop :: "'n \<Rightarrow> 'h \<Rightarrow> 'n option \<times> 'h"
  assumes rep_init: "rep (init h s) h []"
    and rep_add_tail: "rep s h xs \<Longrightarrow> n \<notin> set (h # xs) \<Longrightarrow> rep (add_tail h n s) h (xs @ [n])"
    and pop_Nil: "rep s h [] \<Longrightarrow> pop h s = (None, s)"
    and pop_Cons: "rep s h (x # xs) \<Longrightarrow> \<exists>s'. pop h s = (Some x, s') \<and> rep s' h xs"
begin

lemma rep_fold_add_tail:
  "rep s h xs \<Longrightarrow> distinct (h # xs @ ns) \<Longrightarrow> rep (fold (add_tail h) ns s) h (xs @ ns)"
proof (induction ns arbitrary: s xs)
  case (Cons n ns)
  have "rep (add_tail h n s) h (xs @ [n])" using Cons.prems by (intro rep_add_tail) auto
  from Cons.IH [OF this] Cons.prems(2) show ?case by simp
qed simp

lemma pops_all:
  "rep s h xs \<Longrightarrow> \<exists>s'. pops (pop h) (length xs) s = (map Some xs, s') \<and> rep s' h []"
proof (induction xs arbitrary: s)
  case (Cons x xs)
  from pop_Cons [OF Cons.prems] obtain s1 where "pop h s = (Some x, s1)" "rep s1 h xs" by auto
  with Cons.IH [of s1] show ?case by auto
qed simp

lemma fifo:
  assumes "distinct (h # ns)"
  shows "\<exists>s'. pops (pop h) (length ns) (fold (add_tail h) ns (init h s)) = (map Some ns, s') \<and> rep s' h [] \<and>
    pop h s' = (None, s')"
proof -
  have "rep (fold (add_tail h) ns (init h s)) h ns"
    using rep_fold_add_tail [OF rep_init, of h ns s] assms by simp
  from pops_all [OF this] show ?thesis using pop_Nil by blast
qed

end

interpretation kq: node_queue is_list list_head_init list_add_tail list_pop
proof unfold_locales
  show "is_list (list_add_tail h n s) h (xs @ [n])" if "is_list s h xs" "n \<notin> set (h # xs)" for s h xs n
    using is_list_add_before [of s h xs "[]" n h] that by (simp add: list_add_tail_def)
  show "list_pop h s = (None, s)" if "is_list s h []" for s h
    using list_empty_iff [OF that] by (simp add: list_pop_def)
  show "\<exists>s'. list_pop h s = (Some x, s') \<and> is_list s' h xs" if "is_list s h (x # xs)" for s h x xs
    using list_pop_Cons [OF that] is_list_del [of s h "[]" x xs] that by simp
qed (rule is_list_head_init)

section \<open>Properties\<close>

text \<open>C25. The list operations refine the operations on sequences: deleting a node, adding one
  after or before another, and swapping one for another change the sequence of the ring in exactly
  that place, and the first, last, next and previous entries are those of the sequence.\<close>

theorem list_ops_refine:
  assumes "is_list s h (xs @ n # ys)" and "m \<notin> set (h # xs @ n # ys)"
  shows "is_list (list_del n s) h (xs @ ys) \<and>
    is_list (list_add_after h n m s) h (xs @ n # m # ys) \<and>
    is_list (list_add_before h n m s) h (xs @ m # n # ys) \<and>
    is_list (list_swap n m s) h (xs @ m # ys) \<and>
    list_top h s = Some (hd (xs @ [n])) \<and> list_tail h s = Some (last (n # ys)) \<and>
    list_next h n s = (if ys = [] then None else Some (hd ys)) \<and>
    list_prev h n s = (if xs = [] then None else Some (last xs))"
proof -
  have l: "is_list s h ((xs @ [n]) @ ys)" "is_list s h (xs @ [n] @ ys)" using assms(1) by simp_all
  have "is_list (list_add_after h n m s) h ((xs @ [n]) @ m # ys)"
    by (rule is_list_add_after [OF l(1)]) (use assms(2) in auto)
  moreover have "is_list (list_add_before h n m s) h (xs @ m # [n] @ ys)"
    by (rule is_list_add_before [OF l(2)]) (use assms(2) in auto)
  moreover have "list_top h s = Some (hd (xs @ [n]))" "list_tail h s = Some (last (n # ys))"
    using list_empty_iff [OF assms(1)] is_list_nxt [OF assms(1)] is_list_prv [OF assms(1)]
    by (simp_all add: list_top_def list_tail_def hd_append)
  moreover have "list_next h n s = (if ys = [] then None else Some (hd ys))"
      "list_prev h n s = (if xs = [] then None else Some (last xs))"
    using is_list_fields [OF assms(1)] is_list_distinct [OF assms(1)]
    by (auto simp: list_next_def list_prev_def list_entry_or_null_def dest: hd_in_set last_in_set)
  ultimately show ?thesis using is_list_del [OF assms(1)] is_list_swap [OF assms] by simp
qed

definition three_ring :: list_heap where
  "three_ring = fold (list_add_tail 0) [1, 2] (list_head_init 0 \<lparr>nxt = id, prv = id\<rparr>)"

lemma three_ring_ok: "is_list three_ring 0 [1, 2]"
  unfolding three_ring_def using kq.rep_fold_add_tail [OF kq.rep_init, of 0 "[1, 2]"] by simp

theorem list_ops_refine_witness:
  "is_list (list_del 1 three_ring) 0 [2] \<and> is_list (list_add_after 0 1 3 three_ring) 0 [1, 3, 2] \<and>
    list_next 0 1 three_ring = Some 2"
  using list_ops_refine [of three_ring 0 "[]" 1 "[2]" 3] three_ring_ok by simp

text \<open>Moving a whole list to the end or to the start of another one concatenates the
  sequences and leaves the source empty.\<close>

theorem list_move_refine:
  assumes "is_list s t xs" and "is_list s f ys" and "set (t # xs) \<inter> set (f # ys) = {}"
  shows "is_list (list_append_list t f s) t (xs @ ys) \<and> is_list (list_append_list t f s) f [] \<and>
    is_list (list_prepend_list t f s) t (ys @ xs) \<and> is_list (list_prepend_list t f s) f []"
  using is_list_append_list [OF assms] is_list_prepend_list [OF assms] by simp

theorem list_move_refine_witness:
  "is_list (list_append_list 0 5 (list_head_init 5 three_ring)) 0 ([1, 2] @ [])"
  using list_move_refine [of "list_head_init 5 three_ring" 0 "[1, 2]" 5 "[]"] three_ring_ok
    is_list_head_init is_list_frame [OF three_ring_ok, of "list_head_init 5 three_ring"]
  by (simp add: list_head_init_def)

text \<open>A list is a first-in-first-out queue: the nodes added at its tail are popped in the
  order they were added, after which it is empty again.\<close>

theorem list_fifo:
  assumes "distinct (h # ns)"
  shows "\<exists>s'. pops (list_pop h) (length ns) (fold (list_add_tail h) ns (list_head_init h s)) =
      (map Some ns, s') \<and> is_list s' h [] \<and> list_pop h s' = (None, s')"
  by (rule kq.fifo [OF assms])

theorem list_fifo_witness:
  "\<exists>s'. pops (list_pop 0) 2 (fold (list_add_tail 0) [7, 4] (list_head_init 0 three_ring)) =
      ([Some 7, Some 4], s')"
  using list_fifo [of 0 "[7, 4]" three_ring] by (auto simp: eval_nat_numeral)

text \<open>C37. The loops visit the nodes of the sequence in order, forwards or backwards, and end;
  the safe loop may delete any of the nodes it visits and still visits all of them.\<close>

theorem list_for_each_correct:
  assumes "is_list s h xs" and "length xs \<le> k"
  shows "list_for_each k h body s c = Some (fold body xs c) \<and>
    list_for_each_rev k h body s c = Some (fold body (rev xs) c) \<and>
    (\<exists>s'. list_for_each_safe k h (\<lambda>i s c. (if P i then list_del i s else s, c @ [i])) s [] = Some (s', xs) \<and>
       is_list s' h (filter (\<lambda>x. \<not> P x) xs))"
  using list_for_each_from_nxt [of s h "[]" xs k body c] list_for_each_from_prv [of s h xs "[]" k body c]
    list_for_each_safe_from_del [of s h "[]" xs k _ P "[]"] assms is_list_nxt [OF assms(1)] is_list_prv [OF assms(1)]
  by (simp add: list_for_each_def list_for_each_rev_def list_for_each_safe_def)

theorem list_for_each_correct_witness:
  "list_for_each 2 0 (\<lambda>i c. c + i) three_ring 0 = Some 3 \<and> list_for_each_rev 2 0 (\<lambda>i c. c @ [i]) three_ring [] = Some [2, 1]"
  using list_for_each_correct [OF three_ring_ok, of 2 "\<lambda>i c. c + i" 0]
    list_for_each_correct [OF three_ring_ok, of 2 "\<lambda>i c. c @ [i]" "[]"] by simp

end
