(* ===== verification/CString.thy ===== *)
theory CString
  imports Prelude
begin

text \<open>
  The memory and string functions of \<^verbatim>\<open>libc/string.c\<close> (the kernel's
  \<^verbatim>\<open>sys/lib/string.c\<close> has the same text). Memory is a map from addresses to bytes;
  addresses do not wrap. \<^verbatim>\<open>char\<close> is signed, as on x86-64, so bytes are compared as signed
  numbers. A scan for a terminator that is not there need not end: the outcome of those loops is
  an option, and \<open>None\<close> is not returning.
\<close>

section \<open>Blocks of memory\<close>

type_synonym bmem = "nat \<Rightarrow> u8"

fun copy_forward :: "nat \<Rightarrow> nat \<Rightarrow> nat \<Rightarrow> bmem \<Rightarrow> bmem" where
  "copy_forward 0 dst src m = m"
| "copy_forward (Suc s) dst src m = copy_forward s (dst + 1) (src + 1) (m(dst := m src))"

fun copy_backward :: "nat \<Rightarrow> nat \<Rightarrow> nat \<Rightarrow> bmem \<Rightarrow> bmem" where
  "copy_backward 0 dst src m = m"
| "copy_backward (Suc s) dst src m = copy_backward s (dst - 1) (src - 1) (m(dst - 1 := m (src - 1)))"

definition memcpy :: "nat \<Rightarrow> nat \<Rightarrow> nat \<Rightarrow> bmem \<Rightarrow> bmem" where
  "memcpy dst src s m =
     (if dst < src then copy_forward s dst src m
      else copy_backward s (dst + s) (src + s) m)"

definition memmove :: "nat \<Rightarrow> nat \<Rightarrow> nat \<Rightarrow> bmem \<Rightarrow> bmem" where
  "memmove s1 s2 n m = memcpy s1 s2 n m"

definition bcopy :: "nat \<Rightarrow> nat \<Rightarrow> nat \<Rightarrow> bmem \<Rightarrow> bmem" where
  "bcopy s1 s2 n m = memcpy s2 s1 n m"

fun memset :: "nat \<Rightarrow> u8 \<Rightarrow> nat \<Rightarrow> bmem \<Rightarrow> bmem" where
  "memset dst v 0 m = m"
| "memset dst v (Suc s) m = memset (dst + 1) v s (m(dst := v))"

section \<open>Strings\<close>

partial_function (option) strchr :: "nat \<Rightarrow> u8 \<Rightarrow> bmem \<Rightarrow> nat option option" where
  "strchr inp c m =
     (if m inp \<noteq> 0 then if m inp = c then Some (Some inp) else strchr (inp + 1) c m
      else Some None)"

partial_function (option) strlen_from :: "nat \<Rightarrow> nat \<Rightarrow> bmem \<Rightarrow> nat option" where
  "strlen_from inp ret m = (if m inp \<noteq> 0 then strlen_from (inp + 1) (ret + 1) m else Some ret)"

definition strlen :: "nat \<Rightarrow> bmem \<Rightarrow> nat option" where
  "strlen inp m = strlen_from inp 0 m"

text \<open>The lengths below are kept in an \<^verbatim>\<open>int\<close>: a string that long is out of the model.\<close>

definition int_strlen :: "nat \<Rightarrow> bmem \<Rightarrow> nat option" where
  "int_strlen inp m = do { n \<leftarrow> strlen inp m; guard (n < 2 ^ 31 - 1); Some n }"

text \<open>The block \<^verbatim>\<open>malloc\<close> returned is the argument \<open>new\<close>.\<close>

definition strdup :: "nat \<Rightarrow> nat \<Rightarrow> bmem \<Rightarrow> bmem option" where
  "strdup new inp m = do { ln \<leftarrow> int_strlen inp m; Some ((memcpy new inp ln m)(new + ln := 0)) }"

fun strncmp_from :: "nat \<Rightarrow> nat \<Rightarrow> nat \<Rightarrow> bmem \<Rightarrow> int" where
  "strncmp_from a b 0 m = 0"
| "strncmp_from a b (Suc n) m =
     (if sint (m a) < sint (m b) then -1
      else if sint (m a) > sint (m b) then 1
      else strncmp_from (a + 1) (b + 1) n m)"

definition strncmp :: "nat \<Rightarrow> nat \<Rightarrow> int \<Rightarrow> bmem \<Rightarrow> int" where
  "strncmp a b n m = strncmp_from a b (nat n) m"

fun strncpy_from :: "nat \<Rightarrow> nat \<Rightarrow> nat \<Rightarrow> bmem \<Rightarrow> bmem" where
  "strncpy_from dest source 0 m = m(dest := 0)"
| "strncpy_from dest source (Suc n) m =
     (let m' = m(dest := m source) in
      if m' source = 0 then m'(dest := 0) else strncpy_from (dest + 1) (source + 1) n m')"

definition strncpy :: "nat \<Rightarrow> nat \<Rightarrow> int \<Rightarrow> bmem \<Rightarrow> bmem" where
  "strncpy dest source count m = strncpy_from dest source (nat count) m"

partial_function (option) strcmp :: "nat \<Rightarrow> nat \<Rightarrow> bmem \<Rightarrow> int option" where
  "strcmp a b m =
     (if m a \<noteq> 0 \<or> m b \<noteq> 0 then
        if sint (m a) < sint (m b) then Some (-1)
        else if sint (m a) > sint (m b) then Some 1
        else strcmp (a + 1) (b + 1) m
      else Some 0)"

definition strcpy :: "nat \<Rightarrow> nat \<Rightarrow> bmem \<Rightarrow> bmem option" where
  "strcpy dst src m = do { ln \<leftarrow> int_strlen src m; Some (memcpy dst src (ln + 1) m) }"

definition strcat :: "nat \<Rightarrow> nat \<Rightarrow> bmem \<Rightarrow> bmem option" where
  "strcat dst app m = do { ldst \<leftarrow> int_strlen dst m; strcpy (dst + ldst) app m }"

section \<open>Blocks\<close>

lemma copy_forward_eq:
  "dst < src \<Longrightarrow> copy_forward s dst src m = (\<lambda>a. if dst \<le> a \<and> a < dst + s then m (src + (a - dst)) else m a)"
proof (induction s arbitrary: dst src m)
  case (Suc s)
  have "Suc (src + (a - Suc dst)) = src + (a - dst)" if "Suc dst \<le> a" for a using that by simp
  with Suc show ?case by (auto simp: fun_eq_iff)
qed (auto intro!: ext)

lemma copy_backward_eq:
  "src \<le> dst \<Longrightarrow> copy_backward s (dst + s) (src + s) m = (\<lambda>a. if dst \<le> a \<and> a < dst + s then m (src + (a - dst)) else m a)"
  by (induction s arbitrary: m) (auto simp: fun_eq_iff less_Suc_eq)

lemma memcpy_eq: "memcpy dst src s m = (\<lambda>a. if dst \<le> a \<and> a < dst + s then m (src + (a - dst)) else m a)"
  by (simp add: memcpy_def copy_forward_eq copy_backward_eq)

lemma memset_eq: "memset dst v s m = (\<lambda>a. if dst \<le> a \<and> a < dst + s then v else m a)"
  by (induction s arbitrary: dst m) (auto intro!: ext)

section \<open>Zero-terminated strings\<close>

text \<open>\<open>bytes m a xs\<close>: the bytes from \<open>a\<close> on are \<open>xs\<close>; \<open>cstr m a xs\<close>: they are a C string.\<close>

fun bytes :: "bmem \<Rightarrow> nat \<Rightarrow> u8 list \<Rightarrow> bool" where
  "bytes m a [] \<longleftrightarrow> True"
| "bytes m a (x # xs) \<longleftrightarrow> m a = x \<and> bytes m (Suc a) xs"

definition cstr :: "bmem \<Rightarrow> nat \<Rightarrow> u8 list \<Rightarrow> bool" where
  "cstr m a xs \<longleftrightarrow> bytes m a (xs @ [0]) \<and> 0 \<notin> set xs"

lemma bytes_nth: "bytes m a xs \<longleftrightarrow> (\<forall>i < length xs. m (a + i) = xs ! i)"
  by (induction xs arbitrary: a) (auto simp: All_less_Suc2)

lemma bytes_append [simp]: "bytes m a (xs @ ys) \<longleftrightarrow> bytes m a xs \<and> bytes m (a + length xs) ys"
  by (induction m a xs rule: bytes.induct) auto

lemma bytes_frame: "bytes m a xs \<Longrightarrow> (\<forall>i. a \<le> i \<and> i < a + length xs \<longrightarrow> m' i = m i) \<Longrightarrow> bytes m' a xs"
  by (auto simp: bytes_nth)

lemma cstr_Nil [simp]: "cstr m a [] \<longleftrightarrow> m a = 0"
  by (simp add: cstr_def)

lemma cstr_Cons [simp]: "cstr m a (x # xs) \<longleftrightarrow> m a = x \<and> x \<noteq> 0 \<and> cstr m (Suc a) xs"
  by (auto simp: cstr_def)

lemma cstr_frame: "cstr m a xs \<Longrightarrow> (\<forall>i. a \<le> i \<and> i \<le> a + length xs \<longrightarrow> m' i = m i) \<Longrightarrow> cstr m' a xs"
  unfolding cstr_def by (auto intro: bytes_frame)

lemma bytes_memcpy: "bytes m src xs \<Longrightarrow> length xs = s \<Longrightarrow> bytes (memcpy dst src s m) dst xs"
  by (auto simp: bytes_nth memcpy_eq)

lemma strlen_from_cstr: "cstr m a xs \<Longrightarrow> strlen_from a k m = Some (k + length xs)"
  by (induction xs arbitrary: a k) (subst strlen_from.simps, simp)+

lemma strchr_cstr:
  "cstr m a xs \<Longrightarrow> strchr a c m =
     Some (if c \<in> set xs then Some (a + length (takeWhile (\<lambda>x. x \<noteq> c) xs)) else None)"
proof (induction xs arbitrary: a)
  case Nil
  then show ?case by (subst strchr.simps) simp
next
  case (Cons x xs)
  then have "cstr m (Suc a) xs" and "m a = x" "x \<noteq> 0" by auto
  then show ?case using Cons.IH [of "Suc a"] by (subst strchr.simps) simp
qed

lemma strlen_cstr: "cstr m a xs \<Longrightarrow> strlen a m = Some (length xs)"
  by (simp add: strlen_def strlen_from_cstr)

lemma int_strlen_cstr: "cstr m a xs \<Longrightarrow> length xs < 2 ^ 31 - 1 \<Longrightarrow> int_strlen a m = Some (length xs)"
  by (simp add: int_strlen_def strlen_cstr guard_def)

lemma strcpy_cstr:
  assumes "cstr m src xs" and "length xs < 2 ^ 31 - 1"
  shows "strcpy dst src m = Some (memcpy dst src (length xs + 1) m)"
    and "cstr (memcpy dst src (length xs + 1) m) dst xs"
  using assms bytes_memcpy [of m src "xs @ [0]" "length xs + 1" dst]
  by (simp_all add: strcpy_def int_strlen_cstr cstr_def)

section \<open>Properties\<close>

text \<open>C28. \<^verbatim>\<open>memcpy\<close> (and so \<^verbatim>\<open>memmove\<close> and \<^verbatim>\<open>bcopy\<close>) moves the block correctly for
  every pair of addresses, overlapping or not: afterwards the destination holds what the source
  held before, and no other byte changed. \<^verbatim>\<open>memset\<close> fills exactly its block.\<close>

theorem memcpy_overlap_safe:
  "memcpy dst src s m a = (if dst \<le> a \<and> a < dst + s then m (src + (a - dst)) else m a) \<and>
   memmove dst src s m = memcpy dst src s m \<and> bcopy src dst s m = memcpy dst src s m \<and>
   memset dst v s m a = (if dst \<le> a \<and> a < dst + s then v else m a)"
  by (simp add: memcpy_eq memmove_def bcopy_def memset_eq)

text \<open>On C strings the string functions return and do what their names say:
  \<^verbatim>\<open>strlen\<close> counts, \<^verbatim>\<open>strcpy\<close> and \<^verbatim>\<open>strdup\<close> copy, \<^verbatim>\<open>strcat\<close> appends (the source
  must not overlap the bytes that are written), and nothing outside the written range changes.\<close>

theorem string_functions_correct:
  assumes "cstr m d xs" and "cstr m a ys" and "length xs < 2 ^ 31 - 1" and "length ys < 2 ^ 31 - 1"
  shows "strlen d m = Some (length xs) \<and>
    (\<exists>m'. strcpy e a m = Some m' \<and> cstr m' e ys \<and> (\<forall>i. i < e \<or> e + length ys < i \<longrightarrow> m' i = m i)) \<and>
    (\<exists>m'. strdup e a m = Some m' \<and> cstr m' e ys) \<and>
    (\<exists>m'. strcat d a m = Some m' \<and> cstr m' d (xs @ ys) \<and>
       (\<forall>i. i < d + length xs \<or> d + length xs + length ys < i \<longrightarrow> m' i = m i))"
proof -
  have y: "bytes m a ys" "0 \<notin> set ys" using assms(2) by (simp_all add: cstr_def)
  have x: "bytes m d xs" "0 \<notin> set xs" using assms(1) by (simp_all add: cstr_def)
  note cp = strcpy_cstr [OF assms(2,4)]
  have "bytes (memcpy e a (length ys) m) e ys" by (rule bytes_memcpy [OF y(1)]) simp
  then have "bytes ((memcpy e a (length ys) m)(e + length ys := 0)) e ys"
    by (rule bytes_frame) auto
  then have dup: "\<exists>m'. strdup e a m = Some m' \<and> cstr m' e ys"
    using y(2) int_strlen_cstr [OF assms(2,4)] by (simp add: strdup_def cstr_def)
  let ?m = "memcpy (d + length xs) a (length ys + 1) m"
  have "bytes ?m d xs" by (rule bytes_frame [OF x(1)]) (auto simp: memcpy_eq)
  then have "cstr ?m d (xs @ ys)" using cp(2) [of "d + length xs"] x(2) by (simp add: cstr_def)
  then have cat: "\<exists>m'. strcat d a m = Some m' \<and> cstr m' d (xs @ ys) \<and>
      (\<forall>i. i < d + length xs \<or> d + length xs + length ys < i \<longrightarrow> m' i = m i)"
    using cp(1) assms(1,3) by (simp add: strcat_def int_strlen_cstr memcpy_eq)
  have "(\<forall>i. i < e \<or> e + length ys < i \<longrightarrow> memcpy e a (length ys + 1) m i = m i)"
    by (auto simp: memcpy_eq)
  with cp show ?thesis using strlen_cstr [OF assms(1)] dup cat by simp
qed

definition hi_mem :: bmem where
  "hi_mem = (\<lambda>_. 0)(10 := 104, 11 := 105)"

lemma hi_mem_cstr: "cstr hi_mem 10 [104, 105]" "cstr hi_mem 20 []"
  by (simp_all add: hi_mem_def)

theorem string_functions_correct_witness:
  "strlen 20 hi_mem = Some 0 \<and> (\<exists>m'. strcat 20 10 hi_mem = Some m' \<and> cstr m' 20 [104, 105])"
  using string_functions_correct [OF hi_mem_cstr(2,1), of 30] by auto

text \<open>\<^verbatim>\<open>strcmp\<close> returns for any two strings, and its result is the lexicographic order
  of their bytes read as signed numbers, terminator included: 0 exactly for equal strings.\<close>

theorem strcmp_correct:
  assumes "cstr m a xs" and "cstr m b ys"
  shows "\<exists>r. strcmp a b m = Some r \<and> (r = 0 \<longleftrightarrow> xs = ys) \<and>
    (r < 0 \<longleftrightarrow> ord_class.lexordp (map sint (xs @ [0])) (map sint (ys @ [0]))) \<and>
    (r > 0 \<longleftrightarrow> ord_class.lexordp (map sint (ys @ [0])) (map sint (xs @ [0])))"
  using assms
proof (induction xs arbitrary: a b ys)
  case Nil
  show ?case
  proof (cases ys)
    case Nil
    with \<open>cstr m a []\<close> \<open>cstr m b ys\<close> show ?thesis by (subst strcmp.simps) simp
  next
    case (Cons y ys')
    with \<open>cstr m b ys\<close> have y: "m b = y" "y \<noteq> 0" by simp_all
    then have "sint y \<noteq> 0" by (metis sint_0 signed_word_eqI)
    with y Cons \<open>cstr m a []\<close> show ?thesis by (subst strcmp.simps) auto
  qed
next
  case (Cons x xs)
  then have x: "m a = x" "x \<noteq> 0" "cstr m (Suc a) xs" by simp_all
  show ?case
  proof (cases ys)
    case Nil
    have "sint x \<noteq> 0" using x(2) by (metis sint_0 signed_word_eqI)
    with x Nil \<open>cstr m b ys\<close> show ?thesis by (subst strcmp.simps) auto
  next
    case ys: (Cons y ys')
    then have y: "m b = y" "y \<noteq> 0" "cstr m (Suc b) ys'" using Cons.prems by simp_all
    from Cons.IH [OF x(3) y(3)] obtain r where r: "strcmp (Suc a) (Suc b) m = Some r" "r = 0 \<longleftrightarrow> xs = ys'"
      "r < 0 \<longleftrightarrow> ord_class.lexordp (map sint (xs @ [0])) (map sint (ys' @ [0]))"
      "r > 0 \<longleftrightarrow> ord_class.lexordp (map sint (ys' @ [0])) (map sint (xs @ [0]))" by auto
    have inj: "sint x = sint y \<longleftrightarrow> x = y" by (metis signed_word_eqI)
    show ?thesis
    proof (cases "sint x = sint y")
      case True
      with inj r x y ys show ?thesis by (subst strcmp.simps) simp
    next
      case False
      with inj r x y ys show ?thesis by (subst strcmp.simps) auto
    qed
  qed
qed

theorem strcmp_correct_witness: "\<exists>r. strcmp 10 20 hi_mem = Some r \<and> r \<noteq> 0"
  using strcmp_correct [OF hi_mem_cstr] by auto

lemma strncmp_from_0: "strncmp_from a b n m = 0 \<longleftrightarrow> (\<forall>i < n. m (a + i) = m (b + i))"
proof (induction n arbitrary: a b)
  case (Suc n)
  have "sint (m a) = sint (m b) \<longleftrightarrow> m a = m b" by (metis signed_word_eqI)
  then show ?case using Suc [of "a + 1" "b + 1"] by (auto simp: All_less_Suc2)
qed simp

lemma strncpy_from_trunc:
  assumes "\<forall>i < n. m (src + i) \<noteq> 0" and "dst + n \<le> src"
  shows "strncpy_from dst src n m (dst + n) = 0"
  using assms
proof (induction n arbitrary: dst src m)
  case (Suc n)
  have "strncpy_from (dst + 1) (src + 1) n (m(dst := m src)) (dst + 1 + n) = 0"
  proof (rule Suc.IH)
    show "\<forall>i < n. (m(dst := m src)) (src + 1 + i) \<noteq> 0" using Suc.prems by (auto dest: spec [of _ "Suc _"])
  qed (use Suc.prems in simp)
  moreover have "m src \<noteq> 0" "dst \<noteq> src" using Suc.prems by force+
  ultimately show ?case by (simp add: Let_def)
qed simp

text \<open>\<^verbatim>\<open>strncmp\<close> compares \<open>n\<close> bytes and does not stop at a terminator: it returns 0
  exactly when all \<open>n\<close> bytes agree, so two equal strings shorter than \<open>n\<close> can compare as
  different. \<^verbatim>\<open>strncpy\<close> writes \<open>count + 1\<close> bytes when the source is longer than
  \<open>count\<close>: the terminator lands behind the destination.\<close>

theorem strncmp_strncpy_behaviour:
  assumes "\<forall>i < n. m (src + i) \<noteq> 0" and "dst + n \<le> src"
  shows "(strncmp a b (int n) m = 0 \<longleftrightarrow> (\<forall>i < n. m (a + i) = m (b + i))) \<and>
    strncpy dst src (int n) m (dst + n) = 0"
  using strncpy_from_trunc [OF assms] by (simp add: strncmp_def strncmp_from_0 strncpy_def)

theorem strncmp_strncpy_behaviour_witness:
  "strncmp 1 6 (int 4) ((\<lambda>_. 1)(3 := 0, 8 := 0, 9 := 2)) \<noteq> 0 \<and>
   strncpy 10 20 (int 4) ((\<lambda>_. 1)(3 := 0, 8 := 0, 9 := 2)) 14 = 0"
proof -
  let ?m = "(\<lambda>_. 1)(3 := 0, 8 := 0, 9 := 2) :: bmem"
  have "?m (20 + i) \<noteq> 0" for i by simp
  then have "(strncmp 1 6 (int 4) ?m = 0 \<longleftrightarrow> (\<forall>i < 4. ?m (1 + i) = ?m (6 + i))) \<and>
      strncpy 10 20 (int 4) ?m (10 + 4) = 0"
    by (intro strncmp_strncpy_behaviour) auto
  moreover have "\<not> (\<forall>i < 4. ?m (1 + i) = ?m (6 + i))"
  proof
    assume "\<forall>i < 4. ?m (1 + i) = ?m (6 + i)"
    then show False by (auto dest: spec [of _ 3])
  qed
  ultimately show ?thesis by simp
qed

end
