(* ===== verification/PhysMem.thy ===== *)
theory PhysMem
  imports Bitops "HOL-Library.Multiset"
begin

text \<open>
  The physical page allocator of \<^verbatim>\<open>sys/mm/get_page.c\<close> and the allocator of fixed-size objects
  of \<^verbatim>\<open>sys/mm/obj_pool.c\<close>, which call each other, with the nested interrupt lock of
  \<^verbatim>\<open>include/sys/interrupt.h\<close>. The chain of free pages, the chain of free objects and the
  chain of a pool's pages are lists of addresses; the list of memory ranges is a list of its nodes.
  A panic, a NULL dereference or any other undefined behaviour is the outcome \<open>None\<close>.

  The page allocator hands out every free page once (its free pages are a multiset from which a
  page is taken or to which it is returned); a pool hands out objects that overlap no live object.
\<close>

section \<open>State\<close>

record obj_pool =
  free_page :: u64
  free_list :: "u64 list"
  page_head :: "u64 list"
  obj_size :: u64
  page_free :: u16

record memory_range =
  mr_base :: u64
  mr_length :: u64

record phys_mem =
  head :: "u64 list"
  usable_head :: "(u64 \<times> memory_range) list"
  mrng_pool :: "obj_pool option"
  meta_obj_pool :: obj_pool
  early_get_page :: bool
  interrupt_disabled :: nat

section \<open>The interrupt lock\<close>

definition disable_interrupts :: "'z phys_mem_scheme \<Rightarrow> 'z phys_mem_scheme" where
  "disable_interrupts s =
     (if interrupt_disabled s \<noteq> 0 then s\<lparr>interrupt_disabled := interrupt_disabled s + 1\<rparr>
      else s\<lparr>interrupt_disabled := 1\<rparr>)"

definition enable_interrupts :: "'z phys_mem_scheme \<Rightarrow> 'z phys_mem_scheme option" where
  "enable_interrupts s = do {
     guard (interrupt_disabled s \<noteq> 0);
     Some (s\<lparr>interrupt_disabled := interrupt_disabled s - 1\<rparr>) }"

section \<open>Returning an object to its pool\<close>

definition sizeof_page_hdr :: u64 where "sizeof_page_hdr = 8"
definition sizeof_free_obj :: u64 where "sizeof_free_obj = 8"
definition sizeof_obj_pool :: u64 where "sizeof_obj_pool = 40"
definition sizeof_memory_range :: u64 where "sizeof_memory_range = 24"

definition obj_pool_free :: "obj_pool \<Rightarrow> u64 \<Rightarrow> obj_pool option" where
  "obj_pool_free obp obj = do {
     let tmp_aligned = ALIGN obj PAGE_SIZE_BIT;
     guard (obj_size obp \<noteq> 0);
     guard ((obj - tmp_aligned - sizeof_page_hdr) mod obj_size obp = 0);
     Some (obp\<lparr>free_list := obj # free_list obp\<rparr>) }"

section \<open>Pages\<close>

definition get_phys_page_locked :: "'z phys_mem_scheme \<Rightarrow> (u64 \<times> 'z phys_mem_scheme) option" where
  "get_phys_page_locked s = do {
     guard (\<not> early_get_page s);
     case head s of
       p # ps \<Rightarrow> Some (p - KERN_VMBASE, s\<lparr>head := ps\<rparr>)
     | [] \<Rightarrow>
         (case usable_head s of
            [] \<Rightarrow> None
          | (node, r) # rs \<Rightarrow>
              if mr_length r = PAGE_SIZE then do {
                obp \<leftarrow> mrng_pool s;
                obp \<leftarrow> obj_pool_free obp node;
                Some (mr_base r, s\<lparr>mrng_pool := Some obp, usable_head := rs\<rparr>) }
              else
                Some (mr_base r, s\<lparr>usable_head :=
                  (node, r\<lparr>mr_base := mr_base r + PAGE_SIZE, mr_length := mr_length r - PAGE_SIZE\<rparr>) # rs\<rparr>)) }"

definition get_phys_page :: "'z phys_mem_scheme \<Rightarrow> (u64 \<times> 'z phys_mem_scheme) option" where
  "get_phys_page s = do {
     (ret, s) \<leftarrow> get_phys_page_locked (disable_interrupts s);
     s \<leftarrow> enable_interrupts s;
     Some (ret, s) }"

definition get_page :: "'z phys_mem_scheme \<Rightarrow> (u64 \<times> 'z phys_mem_scheme) option" where
  "get_page s = do {
     let s = disable_interrupts s;
     case head s of
       p # ps \<Rightarrow> do { s \<leftarrow> enable_interrupts (s\<lparr>head := ps\<rparr>); Some (p, s) }
     | [] \<Rightarrow> do {
         (p, s) \<leftarrow> get_phys_page_locked s;
         s \<leftarrow> enable_interrupts s;
         Some (p + KERN_VMBASE, s) } }"

definition drop_page :: "u64 \<Rightarrow> 'z phys_mem_scheme \<Rightarrow> 'z phys_mem_scheme option" where
  "drop_page pg s = do {
     let s = disable_interrupts s;
     guard (pg AND 0xfff = 0);
     enable_interrupts (s\<lparr>head := pg # head s\<rparr>) }"

section \<open>Object pools\<close>

text \<open>\<open>gp\<close> is the page source; the kernel's pools take their pages from \<open>get_page\<close>.\<close>

definition obj_pool_alloc_with ::
  "('s \<Rightarrow> (u64 \<times> 's) option) \<Rightarrow> obj_pool \<Rightarrow> 's \<Rightarrow> (u64 \<times> obj_pool \<times> 's) option" where
  "obj_pool_alloc_with gp obp s =
     (case free_list obp of
        x # xs \<Rightarrow> Some (x, obp\<lparr>free_list := xs\<rparr>, s)
      | [] \<Rightarrow> do {
          (obp, s) \<leftarrow>
            (if ucast (page_free obp) < obj_size obp then do {
               (page, s) \<leftarrow> gp s;
               Some (obp\<lparr>page_head := page # page_head obp, free_page := page,
                         page_free := ucast (PAGE_SIZE - sizeof_page_hdr)\<rparr>, s) }
             else Some (obp, s));
          let ret = free_page obp + PAGE_SIZE - ucast (page_free obp);
          Some (ret, obp\<lparr>page_free := ucast (ucast (page_free obp) - obj_size obp)\<rparr>, s) })"

definition obj_pool_alloc ::
  "obj_pool \<Rightarrow> 'z phys_mem_scheme \<Rightarrow> (u64 \<times> obj_pool \<times> 'z phys_mem_scheme) option" where
  "obj_pool_alloc obp s = obj_pool_alloc_with get_page obp s"

text \<open>A pool is itself an object of the meta pool: creation returns its address and its value.\<close>

definition obj_pool_create ::
  "u64 \<Rightarrow> 'z phys_mem_scheme \<Rightarrow> (u64 \<times> obj_pool \<times> 'z phys_mem_scheme) option" where
  "obj_pool_create sz s = do {
     guard (\<not> (sz < sizeof_free_obj \<or> sz > PAGE_SIZE));
     let s = disable_interrupts s;
     (obp, meta, s) \<leftarrow> obj_pool_alloc (meta_obj_pool s) s;
     s \<leftarrow> enable_interrupts (s\<lparr>meta_obj_pool := meta\<rparr>);
     Some (obp, \<lparr>free_page = 0, free_list = [], page_head = [], obj_size = sz, page_free = 0\<rparr>, s) }"

fun drop_pages :: "u64 list \<Rightarrow> 'z phys_mem_scheme \<Rightarrow> 'z phys_mem_scheme option" where
  "drop_pages [] s = Some s"
| "drop_pages (ph # phs) s = do { s \<leftarrow> drop_page ph s; drop_pages phs s }"

definition obj_pool_destroy ::
  "u64 \<Rightarrow> obj_pool \<Rightarrow> 'z phys_mem_scheme \<Rightarrow> 'z phys_mem_scheme option" where
  "obj_pool_destroy addr obp s = do {
     s \<leftarrow> drop_pages (page_head obp) s;
     let s = disable_interrupts s;
     meta \<leftarrow> obj_pool_free (meta_obj_pool s) addr;
     enable_interrupts (s\<lparr>meta_obj_pool := meta\<rparr>) }"

definition obj_pool_size_eq :: "obj_pool \<Rightarrow> u64 \<Rightarrow> bool" where
  "obj_pool_size_eq obp sz \<longleftrightarrow> obj_size obp = sz"

section \<open>The free pages\<close>

definition range_pages :: "memory_range \<Rightarrow> u64 list" where
  "range_pages r = map (\<lambda>i. mr_base r + of_nat i * PAGE_SIZE + KERN_VMBASE) [0..<unat (mr_length r) div 4096]"

definition free_pages :: "'z phys_mem_scheme \<Rightarrow> u64 list" where
  "free_pages s = head s @ concat (map (\<lambda>(node, r). range_pages r) (usable_head s))"

definition node_ok :: "obj_pool \<Rightarrow> u64 \<Rightarrow> bool" where
  "node_ok obp node \<longleftrightarrow> obj_size obp \<noteq> 0 \<and>
     (node - ALIGN node PAGE_SIZE_BIT - sizeof_page_hdr) mod obj_size obp = 0"

definition range_ok :: "memory_range \<Rightarrow> bool" where
  "range_ok r \<longleftrightarrow> mr_length r \<noteq> 0 \<and> IS_ALIGNED (mr_base r) PAGE_SIZE_BIT \<and> IS_ALIGNED (mr_length r) PAGE_SIZE_BIT"

definition phys_inv :: "'z phys_mem_scheme \<Rightarrow> bool" where
  "phys_inv s \<longleftrightarrow> \<not> early_get_page s \<and> distinct (free_pages s) \<and>
     (\<forall>p \<in> set (head s). IS_ALIGNED p PAGE_SIZE_BIT) \<and>
     (\<forall>(node, r) \<in> set (usable_head s). range_ok r \<and> (\<exists>obp. mrng_pool s = Some obp \<and> node_ok obp node))"

lemma IS_ALIGNED_page: "IS_ALIGNED x 12 \<longleftrightarrow> 4096 dvd unat x"
  by (simp add: IS_ALIGNED_iff)

lemma page_dvd_add:
  assumes "4096 dvd unat x" and "4096 dvd unat y"
  shows "4096 dvd unat (x + y :: u64)"
  unfolding unat_word_ariths using assms by (intro dvd_mod dvd_add) (simp_all add: dvd_def)

lemma range_pages_step:
  assumes "range_ok r" and "mr_length r \<noteq> PAGE_SIZE"
  shows "range_pages r = (mr_base r + KERN_VMBASE) #
      range_pages (r\<lparr>mr_base := mr_base r + PAGE_SIZE, mr_length := mr_length r - PAGE_SIZE\<rparr>)"
    and "range_ok (r\<lparr>mr_base := mr_base r + PAGE_SIZE, mr_length := mr_length r - PAGE_SIZE\<rparr>)"
proof -
  from assms(1) obtain n where n: "unat (mr_length r) = 4096 * n" by (auto simp: range_ok_def IS_ALIGNED_page dvd_def)
  moreover have "n \<noteq> 0" using assms(1) n by (metis mult_0_right range_ok_def unat_eq_zero)
  moreover have "n \<noteq> 1" using assms(2) n by (auto simp: word_eq_iff_unat PAGE_SIZE_val)
  ultimately obtain k where k: "unat (mr_length r) = 4096 * (k + 2)"
    by (metis add_2_eq_Suc' not0_implies_Suc One_nat_def)
  then have len: "unat (mr_length r - PAGE_SIZE) = 4096 * (k + 1)"
    by (subst unat_sub) (simp_all add: PAGE_SIZE_val word_le_nat_alt)
  have "[0..<k + 2] = 0 # map Suc [0..<k + 1]" by (simp add: map_Suc_upt upt_conv_Cons del: upt_Suc)
  then show "range_pages r = (mr_base r + KERN_VMBASE) #
      range_pages (r\<lparr>mr_base := mr_base r + PAGE_SIZE, mr_length := mr_length r - PAGE_SIZE\<rparr>)"
    using k len by (simp add: range_pages_def comp_def algebra_simps del: upt_Suc)
  have "4096 dvd unat (mr_base r)" using assms(1) by (simp add: range_ok_def IS_ALIGNED_page)
  then have "4096 dvd unat (mr_base r + PAGE_SIZE)" by (intro page_dvd_add) (simp_all add: PAGE_SIZE_val)
  then show "range_ok (r\<lparr>mr_base := mr_base r + PAGE_SIZE, mr_length := mr_length r - PAGE_SIZE\<rparr>)"
    using len by (auto simp: range_ok_def IS_ALIGNED_page word_eq_iff_unat)
qed

lemma range_pages_last:
  assumes "mr_length r = PAGE_SIZE"
  shows "range_pages r = [mr_base r + KERN_VMBASE]"
  using assms by (simp add: range_pages_def PAGE_SIZE_val)

lemma range_ok_pages: "range_ok r \<Longrightarrow> range_pages r \<noteq> []"
  using range_pages_step(1) [of r] range_pages_last [of r] by fastforce

lemma get_phys_page_locked_spec:
  assumes "phys_inv s" and "free_pages s = p # ps"
  obtains s' where "get_phys_page_locked s = Some (p - KERN_VMBASE, s')" "free_pages s' = ps" "phys_inv s'"
    "interrupt_disabled s' = interrupt_disabled s" "phys_mem.more s' = phys_mem.more s"
    "meta_obj_pool s' = meta_obj_pool s"
proof (cases "head s")
  case (Cons q qs)
  then show ?thesis using assms that [of "s\<lparr>head := qs\<rparr>"]
    by (auto simp: get_phys_page_locked_def phys_inv_def free_pages_def)
next
  case Nil
  have "usable_head s \<noteq> []" using assms(2) Nil by (auto simp: free_pages_def)
  then obtain node r rs where u: "usable_head s = (node, r) # rs" by (metis neq_Nil_conv surj_pair)
  have ok: "range_ok r" and "\<exists>obp. mrng_pool s = Some obp \<and> node_ok obp node"
    using assms(1) u by (auto simp: phys_inv_def)
  then obtain obp where obp: "mrng_pool s = Some obp" "node_ok obp node" by auto
  show ?thesis
  proof (cases "mr_length r = PAGE_SIZE")
    case True
    let ?obp = "obp\<lparr>free_list := node # free_list obp\<rparr>"
    have "obj_pool_free obp node = Some ?obp"
      using obp(2) by (simp add: obj_pool_free_def node_ok_def Let_def)
    moreover have "node_ok ?obp n = node_ok obp n" for n by (simp add: node_ok_def)
    ultimately show ?thesis
      using that [of "s\<lparr>mrng_pool := Some ?obp, usable_head := rs\<rparr>"] True Nil u obp assms range_pages_last [OF True]
      by (auto simp: get_phys_page_locked_def phys_inv_def free_pages_def)
  next
    case False
    let ?r = "r\<lparr>mr_base := mr_base r + PAGE_SIZE, mr_length := mr_length r - PAGE_SIZE\<rparr>"
    have "free_pages (s\<lparr>usable_head := (node, ?r) # rs\<rparr>) = ps" "p = mr_base r + KERN_VMBASE"
      using assms(2) range_pages_step(1) [OF ok False] Nil u by (simp_all add: free_pages_def)
    moreover have "phys_inv (s\<lparr>usable_head := (node, ?r) # rs\<rparr>)"
      using assms range_pages_step [OF ok False] Nil u obp by (auto simp: phys_inv_def free_pages_def)
    ultimately show ?thesis
      using that [of "s\<lparr>usable_head := (node, ?r) # rs\<rparr>"] False Nil u assms(1)
      by (auto simp: get_phys_page_locked_def phys_inv_def)
  qed
qed

lemma disable_interrupts_simps [simp]:
  "interrupt_disabled (disable_interrupts s) = interrupt_disabled s + 1"
  "head (disable_interrupts s) = head s" "free_pages (disable_interrupts s) = free_pages s"
  "phys_inv (disable_interrupts s) = phys_inv s" "meta_obj_pool (disable_interrupts s) = meta_obj_pool s"
  "phys_mem.more (disable_interrupts s) = phys_mem.more s"
  "usable_head (disable_interrupts s) = usable_head s"
  by (simp_all add: disable_interrupts_def free_pages_def phys_inv_def)

lemma enable_interrupts_pos:
  "interrupt_disabled s = Suc n \<Longrightarrow> enable_interrupts s = Some (s\<lparr>interrupt_disabled := n\<rparr>)"
  by (simp add: enable_interrupts_def)

lemma free_pages_upd [simp]:
  "free_pages (s\<lparr>interrupt_disabled := n\<rparr>) = free_pages s" "phys_inv (s\<lparr>interrupt_disabled := n\<rparr>) = phys_inv s"
  "free_pages (s\<lparr>meta_obj_pool := m\<rparr>) = free_pages s" "phys_inv (s\<lparr>meta_obj_pool := m\<rparr>) = phys_inv s"
  "free_pages (s\<lparr>head := ps\<rparr>) = ps @ concat (map (\<lambda>(node, r). range_pages r) (usable_head s))"
  by (simp_all add: free_pages_def phys_inv_def)

lemma get_phys_page_spec:
  assumes "phys_inv s" and "free_pages s = p # ps"
  obtains s' where "get_phys_page s = Some (p - KERN_VMBASE, s')" "free_pages s' = ps" "phys_inv s'"
    "interrupt_disabled s' = interrupt_disabled s" "phys_mem.more s' = phys_mem.more s"
    "meta_obj_pool s' = meta_obj_pool s"
proof -
  obtain s1 where s1: "get_phys_page_locked (disable_interrupts s) = Some (p - KERN_VMBASE, s1)"
    "free_pages s1 = ps" "phys_inv s1" "interrupt_disabled s1 = Suc (interrupt_disabled s)"
    "phys_mem.more s1 = phys_mem.more s" "meta_obj_pool s1 = meta_obj_pool s"
    using get_phys_page_locked_spec [of "disable_interrupts s" p ps] assms by auto
  then show ?thesis using that [of "s1\<lparr>interrupt_disabled := interrupt_disabled s\<rparr>"]
    by (simp add: get_phys_page_def enable_interrupts_pos)
qed

lemma get_page_spec:
  assumes "phys_inv s" and "free_pages s = p # ps"
  obtains s' where "get_page s = Some (p, s')" "free_pages s' = ps" "phys_inv s'"
    "interrupt_disabled s' = interrupt_disabled s" "phys_mem.more s' = phys_mem.more s"
    "meta_obj_pool s' = meta_obj_pool s"
proof (cases "head s")
  case (Cons q qs)
  let ?s = "(disable_interrupts s)\<lparr>head := qs, interrupt_disabled := interrupt_disabled s\<rparr>"
  have "q = p" "free_pages ?s = ps" using assms(2) Cons by (auto simp: free_pages_def)
  moreover have "phys_inv ?s"
    using assms Cons by (auto simp: phys_inv_def free_pages_def disable_interrupts_def)
  ultimately show ?thesis using that [of ?s] Cons
    by (simp add: get_page_def Let_def enable_interrupts_pos)
next
  case Nil
  obtain s1 where s1: "get_phys_page_locked (disable_interrupts s) = Some (p - KERN_VMBASE, s1)"
    "free_pages s1 = ps" "phys_inv s1" "interrupt_disabled s1 = Suc (interrupt_disabled s)"
    "phys_mem.more s1 = phys_mem.more s" "meta_obj_pool s1 = meta_obj_pool s"
    using get_phys_page_locked_spec [of "disable_interrupts s" p ps] assms by auto
  then show ?thesis using that [of "s1\<lparr>interrupt_disabled := interrupt_disabled s\<rparr>"] Nil
    by (simp add: get_page_def Let_def enable_interrupts_pos)
qed

lemma drop_page_spec:
  assumes "phys_inv s" and "IS_ALIGNED p PAGE_SIZE_BIT" and "p \<notin> set (free_pages s)"
  obtains s' where "drop_page p s = Some s'" "free_pages s' = p # free_pages s" "phys_inv s'"
    "interrupt_disabled s' = interrupt_disabled s"
proof -
  let ?s = "(disable_interrupts s)\<lparr>head := p # head s, interrupt_disabled := interrupt_disabled s\<rparr>"
  have "p AND 0xfff = 0" using assms(2) by (simp add: IS_ALIGNED_def BIT_def)
  moreover have "free_pages ?s = p # free_pages s" by (simp add: free_pages_def)
  moreover from this have "phys_inv ?s"
    using assms by (auto simp: phys_inv_def disable_interrupts_def)
  ultimately show ?thesis using that [of ?s]
    by (simp add: drop_page_def Let_def enable_interrupts_pos)
qed

lemma range_pages_aligned:
  assumes "range_ok r" and "p \<in> set (range_pages r)"
  shows "IS_ALIGNED p PAGE_SIZE_BIT"
proof -
  obtain i where p: "p = mr_base r + of_nat i * PAGE_SIZE + KERN_VMBASE" using assms(2) by (auto simp: range_pages_def)
  have "4096 dvd unat (mr_base r)" using assms(1) by (simp add: range_ok_def IS_ALIGNED_page)
  moreover have "4096 dvd unat (of_nat i * PAGE_SIZE)"
    unfolding unat_word_ariths by (intro dvd_mod) (simp_all add: PAGE_SIZE_val dvd_def)
  moreover have "4096 dvd unat KERN_VMBASE" by (simp add: KERN_VMBASE_def)
  ultimately show ?thesis unfolding p by (simp add: IS_ALIGNED_page page_dvd_add)
qed

lemma free_pages_aligned: "phys_inv s \<Longrightarrow> p \<in> set (free_pages s) \<Longrightarrow> IS_ALIGNED p PAGE_SIZE_BIT"
  using range_pages_aligned by (fastforce simp: phys_inv_def free_pages_def)

section \<open>Objects of a pool\<close>

text \<open>\<open>slot obp o pg k\<close>: \<open>o\<close> is the \<open>k\<close>-th object carved from the page \<open>pg\<close>. The invariant says
  that the free and the live objects are distinct slots of the pool's pages, and that those of the
  current page lie below its unused rest.\<close>

definition slot :: "obj_pool \<Rightarrow> u64 \<Rightarrow> u64 \<Rightarrow> nat \<Rightarrow> bool" where
  "slot obp ob pg k \<longleftrightarrow> unat ob = unat pg + 8 + k * unat (obj_size obp)"

definition obj_at :: "obj_pool \<Rightarrow> u64 \<Rightarrow> bool" where
  "obj_at obp ob \<longleftrightarrow> (\<exists>pg \<in> set (page_head obp). \<exists>k. slot obp ob pg k \<and>
     (k + 1) * unat (obj_size obp) \<le> 4088 \<and>
     (pg = hd (page_head obp) \<longrightarrow> (k + 1) * unat (obj_size obp) \<le> 4088 - unat (page_free obp)))"

definition pool_inv :: "obj_pool \<Rightarrow> u64 set \<Rightarrow> bool" where
  "pool_inv obp live \<longleftrightarrow>
     8 \<le> unat (obj_size obp) \<and> unat (obj_size obp) \<le> 4088 \<and> unat (page_free obp) \<le> 4088 \<and>
     (\<forall>pg \<in> set (page_head obp). 4096 dvd unat pg) \<and>
     (page_head obp = [] \<longrightarrow> page_free obp = 0) \<and>
     (page_head obp \<noteq> [] \<longrightarrow> free_page obp = hd (page_head obp) \<and> unat (obj_size obp) dvd 4088 - unat (page_free obp)) \<and>
     distinct (free_list obp) \<and> set (free_list obp) \<inter> live = {} \<and>
     (\<forall>ob \<in> set (free_list obp) \<union> live. obj_at obp ob)"

lemma obj_atE:
  assumes "obj_at obp ob"
  obtains pg k where "pg \<in> set (page_head obp)" "slot obp ob pg k" "(k + 1) * unat (obj_size obp) \<le> 4088"
    "pg = hd (page_head obp) \<longrightarrow> (k + 1) * unat (obj_size obp) \<le> 4088 - unat (page_free obp)"
  using assms unfolding obj_at_def by blast

lemma pool_inv_obj: "pool_inv obp live \<Longrightarrow> ob \<in> live \<Longrightarrow> obj_at obp ob"
  by (simp add: pool_inv_def)

lemma unat_ucast_u16 [simp]: "unat (ucast (x :: u16) :: u64) = unat x"
proof -
  have "unat x < 2 ^ 16" using unsigned_less [of x] by simp
  then show ?thesis by (simp add: unsigned_ucast_eq take_bit_nat_eq_self)
qed

lemma unat_ucast_to_u16: "unat x < 65536 \<Longrightarrow> unat (ucast (x :: u64) :: u16) = unat x"
  by (simp add: unsigned_ucast_eq take_bit_nat_eq_self)

lemma same_page:
  assumes "4096 dvd unat pg" and "4096 dvd unat pg'" and "unat pg + d = unat pg' + d'" and "d < 4096" and "d' < 4096"
  shows "pg = (pg' :: u64)" and "d = d'"
proof -
  obtain a b where ab: "unat pg = 4096 * a" "unat pg' = 4096 * b" using assms(1,2) by (auto simp: dvd_def)
  have "a = (4096 * a + d) div 4096" "b = (4096 * b + d') div 4096" using assms(4,5) by simp_all
  moreover have "4096 * a + d = 4096 * b + d'" using assms(3) ab by simp
  ultimately have "a = b" by (metis (no_types))
  with ab assms(3) show "pg = pg'" "d = d'" by (simp_all add: word_eq_iff_unat)
qed

lemma page_no_wrap: "4096 dvd unat (pg :: u64) \<Longrightarrow> unat pg + 4096 \<le> 2 ^ 64"
proof -
  assume "4096 dvd unat pg"
  then obtain a where a: "unat pg = 4096 * a" by (auto simp: dvd_def)
  moreover have "unat pg < 4096 * 2 ^ 52" using u64_bound [of pg] by simp
  ultimately have "a < 2 ^ 52" by simp
  then show ?thesis using a by simp
qed

text \<open>Carving the next object from the current page.\<close>

lemma pool_carve:
  assumes inv: "pool_inv obp live" and nil: "free_list obp = []" and ne: "page_head obp \<noteq> []"
    and fits: "unat (obj_size obp) \<le> unat (page_free obp)"
  defines "ret \<equiv> free_page obp + PAGE_SIZE - ucast (page_free obp)"
    and "obp' \<equiv> obp\<lparr>page_free := ucast (ucast (page_free obp) - obj_size obp)\<rparr>"
  shows "ret \<notin> live \<and> pool_inv obp' (insert ret live)"
proof -
  define pg where "pg = hd (page_head obp)"
  let ?sz = "unat (obj_size obp)" and ?pf = "unat (page_free obp)"
  have pg: "pg \<in> set (page_head obp)" "free_page obp = pg" "4096 dvd unat pg"
    and sz: "8 \<le> ?sz" "?sz \<le> 4088" "?pf \<le> 4088" and "?sz dvd 4088 - ?pf"
    using inv ne by (auto simp: pool_inv_def pg_def)
  then obtain k where k: "4088 - ?pf = k * ?sz" by (auto simp: dvd_def mult.commute)
  have nw: "unat pg + 4096 \<le> 2 ^ 64" by (rule page_no_wrap [OF pg(3)])
  have "ret = pg + (PAGE_SIZE - ucast (page_free obp))" by (simp add: ret_def pg(2))
  moreover have "unat (PAGE_SIZE - ucast (page_free obp)) = 4096 - ?pf"
    using sz(3) by (subst unat_sub) (simp_all add: PAGE_SIZE_val word_le_nat_alt)
  ultimately have ret: "unat ret = unat pg + 8 + k * ?sz"
    using nw k sz fits by (subst \<open>ret = _\<close>, subst unat_add_lt) auto
  have "unat (ucast (page_free obp) - obj_size obp :: u64) = ?pf - ?sz"
    using fits by (subst unat_sub) (simp_all add: word_le_nat_alt)
  then have pf': "unat (page_free obp') = ?pf - ?sz"
    using sz by (simp add: obp'_def unat_ucast_to_u16)
  have k1: "(k + 1) * ?sz = 4088 - (?pf - ?sz)" using k fits sz by (simp add: algebra_simps)
  have fresh: "ret \<notin> live"
  proof
    assume "ret \<in> live"
    then have "obj_at obp ret" by (rule pool_inv_obj [OF inv])
    then obtain pg' k' where o: "pg' \<in> set (page_head obp)" "slot obp ret pg' k'" "(k' + 1) * ?sz \<le> 4088"
      "pg' = pg \<longrightarrow> (k' + 1) * ?sz \<le> 4088 - ?pf" unfolding pg_def by (rule obj_atE)
    then have "4096 dvd unat pg'" using inv by (auto simp: pool_inv_def)
    moreover have "unat pg + (8 + k * ?sz) = unat pg' + (8 + k' * ?sz)" using ret o(2) by (simp add: slot_def)
    moreover have "8 + k * ?sz < 4096" "8 + k' * ?sz < 4096" using k1 o(3) sz fits by (simp_all add: algebra_simps)
    ultimately have "pg = pg'" "8 + k * ?sz = 8 + k' * ?sz" using same_page pg(3) by blast+
    then show False using o(4) k sz by simp
  qed
  have old: "obj_at obp' ob" if "ob \<in> live" for ob
    using pool_inv_obj [OF inv that]
  proof (rule obj_atE)
    fix p j assume "p \<in> set (page_head obp)" "slot obp ob p j" "(j + 1) * ?sz \<le> 4088"
      "p = hd (page_head obp) \<longrightarrow> (j + 1) * ?sz \<le> 4088 - ?pf"
    then show ?thesis unfolding obj_at_def using pf'
      by (intro bexI [of _ p] exI [of _ j]) (auto simp: obp'_def slot_def)
  qed
  have new: "obj_at obp' ret" unfolding obj_at_def
    using pf' k1 ret pg by (intro bexI [of _ pg] exI [of _ k]) (auto simp: obp'_def slot_def)
  have "?sz dvd 4088 - (?pf - ?sz)" using k1 by (metis dvd_triv_right)
  then have "pool_inv obp' (insert ret live)"
    using inv nil old new pf' ne pg sz unfolding pool_inv_def by (auto simp: obp'_def pg_def)
  with fresh show ?thesis by simp
qed

lemma pool_new_page:
  assumes inv: "pool_inv obp live" and nil: "free_list obp = []"
    and page: "4096 dvd unat page" "page \<notin> set (page_head obp)"
  defines "obp' \<equiv> obp\<lparr>page_head := page # page_head obp, free_page := page, page_free := ucast (PAGE_SIZE - sizeof_page_hdr)\<rparr>"
  shows "pool_inv obp' live" "unat (page_free obp') = 4088"
proof -
  show pf: "unat (page_free obp') = 4088"
    by (simp add: obp'_def PAGE_SIZE_val sizeof_page_hdr_def)
  have "obj_at obp' ob" if "ob \<in> live" for ob
    using pool_inv_obj [OF inv that]
  proof (rule obj_atE)
    fix p j assume "p \<in> set (page_head obp)" "slot obp ob p j" "(j + 1) * unat (obj_size obp) \<le> 4088"
    then show ?thesis unfolding obj_at_def using page
      by (intro bexI [of _ p] exI [of _ j]) (auto simp: obp'_def slot_def)
  qed
  then show "pool_inv obp' live"
    using inv nil pf page unfolding pool_inv_def by (auto simp: obp'_def)
qed

lemma objects_disjoint:
  assumes "pool_inv obp live" and "x \<in> live" and "y \<in> live" and "x \<noteq> y"
  shows "unat x + unat (obj_size obp) \<le> unat y \<or> unat y + unat (obj_size obp) \<le> unat x"
proof -
  let ?sz = "unat (obj_size obp)"
  obtain p j where x: "p \<in> set (page_head obp)" "slot obp x p j" "(j + 1) * ?sz \<le> 4088"
    by (rule obj_atE [OF pool_inv_obj [OF assms(1,2)]])
  obtain q k where y: "q \<in> set (page_head obp)" "slot obp y q k" "(k + 1) * ?sz \<le> 4088"
    by (rule obj_atE [OF pool_inv_obj [OF assms(1,3)]])
  have d: "4096 dvd unat p" "4096 dvd unat q" using assms(1) x(1) y(1) by (auto simp: pool_inv_def)
  show ?thesis
  proof (cases "p = q")
    case True
    then have "j \<noteq> k" using x(2) y(2) assms(4) by (auto simp: slot_def word_eq_iff_unat)
    then consider "j + 1 \<le> k" | "k + 1 \<le> j" by linarith
    then show ?thesis
    proof cases
      case 1
      then have "(j + 1) * ?sz \<le> k * ?sz" by (rule mult_le_mono1)
      then show ?thesis using x(2) y(2) True by (simp add: slot_def)
    next
      case 2
      then have "(k + 1) * ?sz \<le> j * ?sz" by (rule mult_le_mono1)
      then show ?thesis using x(2) y(2) True by (simp add: slot_def)
    qed
  next
    case False
    obtain a b where ab: "unat p = 4096 * a" "unat q = 4096 * b" using d by (auto simp: dvd_def)
    then have "a \<noteq> b" using False by (auto simp: word_eq_iff_unat)
    then have "unat p + 4096 \<le> unat q \<or> unat q + 4096 \<le> unat p" using ab by linarith
    then show ?thesis using x(2,3) y(2,3) by (auto simp: slot_def)
  qed
qed

lemma obj_pool_free_spec:
  assumes "pool_inv obp live" and "ob \<in> live"
  shows "\<exists>obp'. obj_pool_free obp ob = Some obp' \<and> pool_inv obp' (live - {ob})"
proof -
  let ?sz = "unat (obj_size obp)"
  obtain pg k where o: "pg \<in> set (page_head obp)" "slot obp ob pg k" "(k + 1) * ?sz \<le> 4088"
    by (rule obj_atE [OF pool_inv_obj [OF assms]])
  have "4096 dvd unat pg" using assms(1) o(1) by (auto simp: pool_inv_def)
  then obtain a where a: "unat pg = 4096 * a" by (auto simp: dvd_def)
  have off: "unat ob = 4096 * a + (8 + k * ?sz)" "8 + k * ?sz < 4096"
    using o(2,3) a assms(1) by (auto simp: slot_def pool_inv_def)
  have "unat (ALIGN ob 12) = 4096 * a" using off by (simp add: unat_ALIGN)
  then have "unat (ob - ALIGN ob 12) = 8 + k * ?sz"
    using off by (subst unat_sub) (simp_all add: word_le_nat_alt)
  then have "unat (ob - ALIGN ob 12 - sizeof_page_hdr) = k * ?sz"
    by (subst unat_sub) (simp_all add: word_le_nat_alt sizeof_page_hdr_def)
  then have "(ob - ALIGN ob 12 - sizeof_page_hdr) mod obj_size obp = 0"
    by (simp add: word_eq_iff_unat unat_mod_distrib)
  moreover have "obj_size obp \<noteq> 0" using assms(1) by (auto simp: pool_inv_def)
  moreover have "pool_inv (obp\<lparr>free_list := ob # free_list obp\<rparr>) (live - {ob})"
  proof -
    have "obj_at (obp\<lparr>free_list := ob # free_list obp\<rparr>) x = obj_at obp x" for x
      by (simp add: obj_at_def slot_def)
    then show ?thesis using assms by (auto simp: pool_inv_def)
  qed
  ultimately show ?thesis by (simp add: obj_pool_free_def Let_def)
qed

section \<open>A pool over any page source\<close>

text \<open>What the object allocator needs of the page allocator: as long as there are pages it returns
  one of them, aligned, and this page is no longer available afterwards.\<close>

locale page_source =
  fixes gp :: "'s \<Rightarrow> (u64 \<times> 's) option"
    and pages :: "'s \<Rightarrow> u64 list"
    and inv :: "'s \<Rightarrow> bool"
  assumes gp_takes: "inv s \<Longrightarrow> pages s = p # ps \<Longrightarrow> \<exists>s'. gp s = Some (p, s') \<and> pages s' = ps \<and> inv s'"
    and pages_aligned: "inv s \<Longrightarrow> p \<in> set (pages s) \<Longrightarrow> 4096 dvd unat p"
    and pages_distinct: "inv s \<Longrightarrow> distinct (pages s)"
begin

lemma alloc_fresh:
  assumes inv: "pool_inv obp live" "inv s" "pages s \<noteq> []" and disj: "set (page_head obp) \<inter> set (pages s) = {}"
  shows "\<exists>ob obp' s'. obj_pool_alloc_with gp obp s = Some (ob, obp', s') \<and> ob \<notin> live \<and>
    pool_inv obp' (insert ob live) \<and> inv s' \<and> set (page_head obp') \<inter> set (pages s') = {} \<and>
    obj_size obp' = obj_size obp"
proof (cases "free_list obp")
  case (Cons x xs)
  have "obj_at (obp\<lparr>free_list := xs\<rparr>) y = obj_at obp y" for y by (simp add: obj_at_def slot_def)
  then have "pool_inv (obp\<lparr>free_list := xs\<rparr>) (insert x live)"
    using inv(1) Cons by (auto simp: pool_inv_def)
  then show ?thesis using Cons assms by (auto simp: obj_pool_alloc_with_def pool_inv_def)
next
  case Nil
  have sz: "8 \<le> unat (obj_size obp)" "unat (obj_size obp) \<le> 4088" using inv(1) by (auto simp: pool_inv_def)
  show ?thesis
  proof (cases "ucast (page_free obp) < obj_size obp")
    case True
    obtain p ps where p: "pages s = p # ps" using inv(3) by (metis neq_Nil_conv)
    with gp_takes [OF inv(2) p] obtain s' where s': "gp s = Some (p, s')" "pages s' = ps" "inv s'" by auto
    let ?obp = "obp\<lparr>page_head := p # page_head obp, free_page := p, page_free := ucast (PAGE_SIZE - sizeof_page_hdr)\<rparr>"
    have "4096 dvd unat p" using pages_aligned [OF inv(2)] p by simp
    moreover have "p \<notin> set (page_head obp)" using disj p by auto
    ultimately have new: "pool_inv ?obp live" "unat (page_free ?obp) = 4088"
      using pool_new_page [OF inv(1) Nil] by blast+
    have carve: "free_page ?obp + PAGE_SIZE - ucast (page_free ?obp) \<notin> live \<and>
        pool_inv (?obp\<lparr>page_free := ucast (ucast (page_free ?obp) - obj_size ?obp)\<rparr>)
          (insert (free_page ?obp + PAGE_SIZE - ucast (page_free ?obp)) live)"
      by (rule pool_carve [OF new(1)]) (use Nil new(2) sz in auto)
    have "set (p # page_head obp) \<inter> set ps = {}"
      using disj p pages_distinct [OF inv(2)] by auto
    with carve s' True Nil show ?thesis
      by (simp add: obj_pool_alloc_with_def Let_def)
  next
    case False
    then have fits: "unat (obj_size obp) \<le> unat (page_free obp)" by (simp add: word_less_nat_alt)
    have "page_head obp \<noteq> []" using inv(1) fits sz by (auto simp: pool_inv_def)
    from pool_carve [OF inv(1) Nil this fits] False Nil inv disj show ?thesis
      by (simp add: obj_pool_alloc_with_def Let_def)
  qed
qed

end

interpretation kernel_pages: page_source get_page free_pages phys_inv
proof unfold_locales
  show "\<exists>s'. get_page s = Some (p, s') \<and> free_pages s' = ps \<and> phys_inv s'"
    if "phys_inv s" "free_pages s = p # ps" for s :: "'z phys_mem_scheme" and p ps
    using get_page_spec [OF that] by metis
  show "4096 dvd unat p" if "phys_inv s" "p \<in> set (free_pages s)" for s :: "'z phys_mem_scheme" and p
    using free_pages_aligned [OF that] by (simp add: IS_ALIGNED_page)
qed (simp add: phys_inv_def)

section \<open>Properties\<close>

text \<open>C20. While there are free pages, \<^verbatim>\<open>get_page\<close> and \<^verbatim>\<open>get_phys_page\<close> return the
  first of them (as a kernel address, or as its physical address) without panicking; it is free no
  more, and dropping it makes exactly the old pages free again. Each of the three operations keeps
  the invariant and the depth to which interrupts are disabled.\<close>

theorem page_allocator_correct:
  assumes "phys_inv s" and "free_pages s = p # ps"
  shows "\<exists>s1 s2 s3. get_page s = Some (p, s1) \<and> free_pages s1 = ps \<and> phys_inv s1 \<and>
    interrupt_disabled s1 = interrupt_disabled s \<and>
    get_phys_page s = Some (p - KERN_VMBASE, s2) \<and> free_pages s2 = ps \<and> phys_inv s2 \<and>
    interrupt_disabled s2 = interrupt_disabled s \<and>
    drop_page p s1 = Some s3 \<and> free_pages s3 = p # ps \<and> phys_inv s3 \<and> interrupt_disabled s3 = interrupt_disabled s"
proof -
  obtain s1 where s1: "get_page s = Some (p, s1)" "free_pages s1 = ps" "phys_inv s1"
    "interrupt_disabled s1 = interrupt_disabled s" by (rule get_page_spec [OF assms])
  obtain s2 where s2: "get_phys_page s = Some (p - KERN_VMBASE, s2)" "free_pages s2 = ps" "phys_inv s2"
    "interrupt_disabled s2 = interrupt_disabled s" by (rule get_phys_page_spec [OF assms])
  have al: "IS_ALIGNED p PAGE_SIZE_BIT" using free_pages_aligned [OF assms(1)] assms(2) by simp
  have "p \<notin> set (free_pages s1)" using assms s1(2) by (auto simp: phys_inv_def)
  then obtain s3 where "drop_page p s1 = Some s3" "free_pages s3 = p # ps" "phys_inv s3"
    "interrupt_disabled s3 = interrupt_disabled s"
    using drop_page_spec [OF s1(3) al] s1(2,4) by metis
  with s1 s2 show ?thesis by blast
qed

definition demo_pool :: "u64 \<Rightarrow> obj_pool" where
  "demo_pool sz = \<lparr>free_page = 0, free_list = [], page_head = [], obj_size = sz, page_free = 0\<rparr>"

definition demo_phys :: phys_mem where
  "demo_phys = \<lparr>head = [0xffff808000005000], usable_head = [(0xffff808000007008, \<lparr>mr_base = 0x100000, mr_length = 0x2000\<rparr>)],
     mrng_pool = Some (demo_pool 24), meta_obj_pool = demo_pool 40, early_get_page = False, interrupt_disabled = 0\<rparr>"

lemma demo_free_pages: "free_pages demo_phys = [0xffff808000005000, 0xffff808000100000, 0xffff808000101000]"
  by (simp add: demo_phys_def free_pages_def range_pages_def PAGE_SIZE_val KERN_VMBASE_def upt_conv_Cons)

lemma demo_phys_inv: "phys_inv demo_phys"
proof -
  have "ALIGN 0xffff808000007008 12 = 0xffff808000007000" by (simp add: ALIGN_def BIT_def)
  then show ?thesis
    unfolding phys_inv_def demo_free_pages
    by (simp add: demo_phys_def range_ok_def IS_ALIGNED_page node_ok_def demo_pool_def sizeof_page_hdr_def)
qed

theorem page_allocator_correct_witness:
  "\<exists>s1 s3. get_page demo_phys = Some (0xffff808000005000, s1) \<and> drop_page 0xffff808000005000 s1 = Some s3 \<and>
    free_pages s3 = [0xffff808000005000, 0xffff808000100000, 0xffff808000101000]"
  using page_allocator_correct [OF demo_phys_inv demo_free_pages] by auto

text \<open>C24. An object pool with objects of at most a page less its header hands out an object that
  overlaps no live object of the pool, without panicking as long as a page is free; the pool's
  invariant is kept, and its pages stay apart from the free ones.\<close>

theorem obj_pool_alloc_correct:
  assumes "pool_inv obp live" and "phys_inv s" and "free_pages s \<noteq> []" and "set (page_head obp) \<inter> set (free_pages s) = {}"
  shows "\<exists>ob obp' s'. obj_pool_alloc obp s = Some (ob, obp', s') \<and> ob \<notin> live \<and> pool_inv obp' (insert ob live) \<and>
    phys_inv s' \<and> set (page_head obp') \<inter> set (free_pages s') = {} \<and>
    (\<forall>x \<in> live. unat x + unat (obj_size obp) \<le> unat ob \<or> unat ob + unat (obj_size obp) \<le> unat x)"
proof -
  obtain ob obp' s' where a: "obj_pool_alloc obp s = Some (ob, obp', s')" "ob \<notin> live" "pool_inv obp' (insert ob live)"
    "phys_inv s'" "set (page_head obp') \<inter> set (free_pages s') = {}" "obj_size obp' = obj_size obp"
    using kernel_pages.alloc_fresh [OF assms] unfolding obj_pool_alloc_def by blast
  have "unat x + unat (obj_size obp) \<le> unat ob \<or> unat ob + unat (obj_size obp) \<le> unat x" if "x \<in> live" for x
    using objects_disjoint [OF a(3), of x ob] that a(2,6) by auto
  with a show ?thesis by blast
qed

lemma demo_pool_inv: "8 \<le> unat sz \<Longrightarrow> unat sz \<le> 4088 \<Longrightarrow> pool_inv (demo_pool sz) {}"
  by (simp add: pool_inv_def demo_pool_def)

theorem obj_pool_alloc_correct_witness:
  "\<exists>ob obp' s'. obj_pool_alloc (demo_pool 24) demo_phys = Some (ob, obp', s') \<and> pool_inv obp' {ob}"
proof -
  have "pool_inv (demo_pool 24) {}" by (rule demo_pool_inv) simp_all
  then show ?thesis
    using obj_pool_alloc_correct [of "demo_pool 24" "{}" demo_phys] demo_phys_inv demo_free_pages
    by (auto simp: demo_pool_def)
qed

text \<open>Freeing a live object passes the sanity check and makes it available again: the next
  allocation returns it.\<close>

theorem obj_pool_free_correct:
  assumes "pool_inv obp live" and "ob \<in> live"
  shows "\<exists>obp'. obj_pool_free obp ob = Some obp' \<and> pool_inv obp' (live - {ob}) \<and>
    obj_pool_alloc obp' s = Some (ob, obp, s)"
proof -
  obtain obp' where "obj_pool_free obp ob = Some obp'" "pool_inv obp' (live - {ob})"
    using obj_pool_free_spec [OF assms] by auto
  then show ?thesis by (auto simp: obj_pool_free_def Let_def obj_pool_alloc_def obj_pool_alloc_with_def)
qed

definition demo_used_pool :: obj_pool where
  "demo_used_pool = (demo_pool 24)\<lparr>page_head := [0x5000], free_page := 0x5000, page_free := 4064\<rparr>"

lemma demo_used_pool_inv: "pool_inv demo_used_pool {0x5008}"
  by (auto simp: pool_inv_def demo_used_pool_def demo_pool_def obj_at_def slot_def)

theorem obj_pool_free_correct_witness:
  "\<exists>obp'. obj_pool_free demo_used_pool 0x5008 = Some obp' \<and>
    obj_pool_alloc obp' demo_phys = Some (0x5008, demo_used_pool, demo_phys)"
  using obj_pool_free_correct [OF demo_used_pool_inv, of "0x5008" demo_phys] by auto

text \<open>The size check of \<^verbatim>\<open>obj_pool_create\<close> admits objects of up to a whole page, but a
  page has only room for \<open>PAGE_SIZE - 8\<close> bytes: with a larger size the 16-bit count of free bytes
  wraps on the first allocation, and the second one returns an address in front of the page.\<close>

theorem obj_pool_oversize:
  assumes "get_page s = Some (pg, s')"
  shows "\<exists>obp obp'. obj_pool_alloc (demo_pool PAGE_SIZE) s = Some (pg + 8, obp, s') \<and>
    obj_pool_alloc obp s' = Some (pg - 0xeff8, obp', s')"
proof -
  let ?obp = "demo_pool PAGE_SIZE\<lparr>page_head := [pg], free_page := pg, page_free := 65528\<rparr>"
  have "obj_pool_alloc (demo_pool PAGE_SIZE) s = Some (pg + 8, ?obp, s')"
    using assms by (simp add: obj_pool_alloc_def obj_pool_alloc_with_def demo_pool_def PAGE_SIZE_val
      sizeof_page_hdr_def Let_def)
  moreover have "\<exists>obp'. obj_pool_alloc ?obp s' = Some (pg - 0xeff8, obp', s')"
  proof -
    have e: "(65528 :: u64) = 61432 + 4096" by simp
    have "pg + 4096 - 65528 = pg - 61432" unfolding e by (rule add_diff_cancel_right)
    then show ?thesis
      by (simp add: obj_pool_alloc_def obj_pool_alloc_with_def demo_pool_def PAGE_SIZE_val Let_def)
  qed
  ultimately show ?thesis by blast
qed

theorem obj_pool_oversize_witness:
  "\<exists>s' obp obp'. obj_pool_alloc (demo_pool PAGE_SIZE) demo_phys = Some (0xffff808000005008, obp, s') \<and>
    obj_pool_alloc obp s' = Some (0xffff808000005000 - 0xeff8, obp', s')"
proof -
  obtain s' where "get_page demo_phys = Some (0xffff808000005000, s')"
    using get_page_spec [OF demo_phys_inv demo_free_pages] by blast
  from obj_pool_oversize [OF this] show ?thesis by auto
qed

text \<open>A range whose length is no multiple of the page size is never exhausted: when less than
  a page of it is left, \<^verbatim>\<open>get_phys_page_locked\<close> still returns its start, the length wraps
  around, and from then on pages behind the end of the range are handed out.\<close>

theorem phys_page_length_underflow:
  assumes "\<not> early_get_page s" and "head s = []" and "usable_head s = (node, r) # rs"
    and "0 < unat (mr_length r)" and "unat (mr_length r) < 4096"
  shows "\<exists>s1 s2. get_phys_page_locked s = Some (mr_base r, s1) \<and>
    get_phys_page_locked s1 = Some (mr_base r + PAGE_SIZE, s2)"
proof -
  let ?r = "r\<lparr>mr_base := mr_base r + PAGE_SIZE, mr_length := mr_length r - PAGE_SIZE\<rparr>"
  have ne: "mr_length r \<noteq> PAGE_SIZE" using assms(5) by (auto simp: PAGE_SIZE_val)
  have "mr_length r - PAGE_SIZE \<noteq> PAGE_SIZE"
  proof
    assume "mr_length r - PAGE_SIZE = PAGE_SIZE"
    then have "mr_length r = PAGE_SIZE + PAGE_SIZE" by (simp add: algebra_simps)
    then show False using assms(5) by (simp add: PAGE_SIZE_val)
  qed
  with ne assms(1-3) show ?thesis by (simp add: get_phys_page_locked_def)
qed

theorem phys_page_length_underflow_witness:
  "\<exists>s1 s2. get_phys_page_locked (demo_phys\<lparr>head := [], usable_head := [(8, \<lparr>mr_base = 0x9f000, mr_length = 0xc00\<rparr>)]\<rparr>) =
      Some (0x9f000, s1) \<and> get_phys_page_locked s1 = Some (0x9f000 + PAGE_SIZE, s2)"
  using phys_page_length_underflow [of "demo_phys\<lparr>head := [], usable_head := [(8, \<lparr>mr_base = 0x9f000, mr_length = 0xc00\<rparr>)]\<rparr>"]
  by (simp add: demo_phys_def)

end
