(* ===== verification/PageMan.thy ===== *)
theory PageMan
  imports PhysMem Binradix
begin

text \<open>
  The page objects of \<^verbatim>\<open>sys/mm/page_man.c\<close> and the state of the memory manager they are
  part of. A \<^verbatim>\<open>struct page\<close> stands for a physical page and counts its references and its
  snapshots; a \<^verbatim>\<open>struct page_entry\<close> is one place where a page is assigned to an address
  space. Objects live in heaps indexed by abstract names, given out in order (PhysMem shows that
  the pools give out objects that do not overlap; the pages the pools themselves take are left out
  here). The lists of owners of a page and of pages of an area are lists of names, with
  \<^verbatim>\<open>list_add\<close> at the front. Page tables are seen through their 4K entries: for every address
  space a map from page addresses to entries, undefined where a table on the way is missing.
\<close>

section \<open>State\<close>

record page =
  phys_addr :: u64
  ref_count :: u64
  snap_count :: u64
  owner :: "nat list"

record page_entry =
  pe_p :: nat
  pe_as :: nat
  pe_vaddr :: u64
  pe_flags :: u16

record vm_area =
  vma_id :: nat
  vma_flags :: u32
  vma_page_size :: nat
  vma_begin :: u64
  vma_length :: u64
  vma_pages :: "nat list"

record address_space =
  vaddr_map :: "nat bnode"
  vmas :: "vm_area list"
  low_addr :: u64
  high_addr :: u64
  as_flags :: u32
  as_owner :: nat

record mm = phys_mem +
  phys_pages :: "nat bnode"
  page_heap :: "nat \<Rightarrow> page option"
  pe_heap :: "nat \<Rightarrow> page_entry option"
  as_heap :: "nat \<Rightarrow> address_space option"
  ptes :: "nat \<Rightarrow> u64 \<Rightarrow> u64 option"
  pmem :: "u64 \<Rightarrow> u8"
  next_id :: nat
  cur_as :: nat

definition VMA_RW :: u32 where "VMA_RW = 1"
definition VMA_HW :: u32 where "VMA_HW = 2"

section \<open>Access to the heaps\<close>

text \<open>Following a pointer to an object that does not exist is a fault.\<close>

definition set_page :: "nat \<Rightarrow> page \<Rightarrow> mm \<Rightarrow> mm" where
  "set_page p v s = s\<lparr>page_heap := (page_heap s)(p := Some v)\<rparr>"

definition set_pe :: "nat \<Rightarrow> page_entry \<Rightarrow> mm \<Rightarrow> mm" where
  "set_pe pe v s = s\<lparr>pe_heap := (pe_heap s)(pe := Some v)\<rparr>"

definition set_as :: "nat \<Rightarrow> address_space \<Rightarrow> mm \<Rightarrow> mm" where
  "set_as as v s = s\<lparr>as_heap := (as_heap s)(as := Some v)\<rparr>"

definition fresh_id :: "mm \<Rightarrow> nat \<times> mm" where
  "fresh_id s = (next_id s, s\<lparr>next_id := next_id s + 1\<rparr>)"

text \<open>\<open>ptable_entry\<close> is \<^verbatim>\<open>ptable_get_entry_4k\<close> on the view of the page tables: it panics on a
  kernel address. \<open>set_pte\<close> is the assignment through the pointer it returned.\<close>

definition ptable_entry :: "nat \<Rightarrow> u64 \<Rightarrow> mm \<Rightarrow> u64 option option" where
  "ptable_entry as vaddr s = do { guard (GET_BIT vaddr 63 = 0); Some (ptes s as (ALIGN vaddr PAGE_SIZE_BIT)) }"

definition set_pte :: "nat \<Rightarrow> u64 \<Rightarrow> u64 \<Rightarrow> mm \<Rightarrow> mm" where
  "set_pte as vaddr e s = s\<lparr>ptes := (ptes s)(as := (ptes s as)(ALIGN vaddr PAGE_SIZE_BIT := Some e))\<rparr>"

definition unmap_page :: "u64 \<Rightarrow> mm \<Rightarrow> mm" where
  "unmap_page vaddr s =
     (case ptes s (cur_as s) (ALIGN vaddr PAGE_SIZE_BIT) of None \<Rightarrow> s | Some _ \<Rightarrow> set_pte (cur_as s) vaddr 0 s)"

section \<open>Managed pages\<close>

text \<open>\<open>Inl\<close> is an error pointer.\<close>

definition manage_phys_page_locked :: "u64 \<Rightarrow> mm \<Rightarrow> ((int + nat) \<times> mm) option" where
  "manage_phys_page_locked addr s =
     (if \<not> IS_ALIGNED addr PAGE_SIZE_BIT then Some (Inl (-1), s)
      else case binradix_find (phys_pages s) addr of
        Some p \<Rightarrow> do {
          pg \<leftarrow> page_heap s p;
          Some (Inr p, set_page p (pg\<lparr>ref_count := ref_count pg + 1\<rparr>) s) }
      | None \<Rightarrow> do {
          let (p, s) = fresh_id s;
          let s = set_page p \<lparr>phys_addr = addr, ref_count = 1, snap_count = 0, owner = []\<rparr> s;
          (_, t) \<leftarrow> binradix_insert (phys_pages s) addr p;
          Some (Inr p, s\<lparr>phys_pages := t\<rparr>) })"

definition manage_phys_page :: "u64 \<Rightarrow> mm \<Rightarrow> ((int + nat) \<times> mm) option" where
  "manage_phys_page addr s = do {
     (p, s) \<leftarrow> manage_phys_page_locked addr (disable_interrupts s);
     s \<leftarrow> enable_interrupts s;
     Some (p, s) }"

definition page_unref :: "nat \<Rightarrow> bool \<Rightarrow> mm \<Rightarrow> (bool \<times> mm) option" where
  "page_unref p hw s = do {
     pg \<leftarrow> page_heap s p;
     let pg = pg\<lparr>ref_count := ref_count pg - 1\<rparr>;
     let s = set_page p pg s;
     if ref_count pg = 0 then do {
       (_, t) \<leftarrow> binradix_delete (phys_pages s) (phys_addr pg);
       let s = s\<lparr>phys_pages := t\<rparr>;
       s \<leftarrow> (if \<not> hw then drop_page (phys_to_virt (phys_addr pg)) s else Some s);
       Some (True, s\<lparr>page_heap := (page_heap s)(p := None)\<rparr>) }
     else Some (False, s) }"

text \<open>The loop that gives every owner write permission back; \<open>chk\<close> is the sanity check that
  panics when an owner is no shared one.\<close>

fun restore_write :: "bool \<Rightarrow> nat list \<Rightarrow> mm \<Rightarrow> mm option" where
  "restore_write chk [] s = Some s"
| "restore_write chk (ob # obs) s = do {
     ov \<leftarrow> pe_heap s ob;
     guard (\<not> chk \<or> pe_flags ov AND PF_SHARED \<noteq> 0);
     pte \<leftarrow> ptable_entry (pe_as ov) (pe_vaddr ov) s;
     let s = (case pte of
                Some e \<Rightarrow> if e AND PTE_P \<noteq> 0 then set_pte (pe_as ov) (pe_vaddr ov) (e OR PTE_W) s else s
              | None \<Rightarrow> s);
     restore_write chk obs s }"

definition page_entry_unref :: "nat \<Rightarrow> mm \<Rightarrow> mm option" where
  "page_entry_unref pe s = do {
     let s = disable_interrupts s;
     ev \<leftarrow> pe_heap s pe;
     pg \<leftarrow> page_heap s (pe_p ev);
     s \<leftarrow> (if pe_flags ev AND PF_SNAPSHOT \<noteq> 0 then do {
             let pg = pg\<lparr>snap_count := snap_count pg - 1\<rparr>;
             let s = set_page (pe_p ev) pg s;
             if snap_count pg = 0 then restore_write True (owner pg) s else Some s }
           else Some s);
     (_, s) \<leftarrow> page_unref (pe_p ev) (pe_flags ev AND PF_HARDWARE \<noteq> 0) s;
     enable_interrupts s }"

definition page_ref :: "nat \<Rightarrow> mm \<Rightarrow> mm option" where
  "page_ref p s = do {
     pg \<leftarrow> page_heap s p;
     Some (set_page p (pg\<lparr>ref_count := ref_count pg + 1\<rparr>) s) }"

fun share_owners :: "nat list \<Rightarrow> mm \<Rightarrow> mm option" where
  "share_owners [] s = Some s"
| "share_owners (ob # obs) s = do {
     ov \<leftarrow> pe_heap s ob;
     guard (pe_flags ov AND PF_HARDWARE = 0);
     pte \<leftarrow> ptable_entry (pe_as ov) (pe_vaddr ov) s;
     let s = (case pte of
                None \<Rightarrow> s
              | Some e \<Rightarrow>
                  if e AND PTE_P = 0 then s
                  else if e AND PTE_W \<noteq> 0 then set_pte (pe_as ov) (pe_vaddr ov) (e AND NOT PTE_W) s
                  else s);
     share_owners obs s }"

definition share_page :: "nat \<Rightarrow> mm \<Rightarrow> mm option" where
  "share_page p s = do {
     let s = disable_interrupts s;
     pg \<leftarrow> page_heap s p;
     s \<leftarrow> share_owners (owner pg) s;
     enable_interrupts s }"

text \<open>The loop of \<^verbatim>\<open>unshare_page\<close> that moves the shared owners to the new page \<open>p\<close>.\<close>

fun move_shared :: "nat \<Rightarrow> nat \<Rightarrow> nat list \<Rightarrow> mm \<Rightarrow> mm option" where
  "move_shared oldp p [] s = Some s"
| "move_shared oldp p (oi # ois) s = do {
     ov \<leftarrow> pe_heap s oi;
     if pe_flags ov AND PF_SHARED = 0 then move_shared oldp p ois s
     else do {
       opg \<leftarrow> page_heap s oldp;
       let s = set_page oldp (opg\<lparr>owner := remove1 oi (owner opg), ref_count := ref_count opg - 1\<rparr>) s;
       pg \<leftarrow> page_heap s p;
       let s = set_page p (pg\<lparr>owner := oi # owner pg, ref_count := ref_count pg + 1\<rparr>) s;
       let s = set_pe oi (ov\<lparr>pe_p := p\<rparr>) s;
       pte \<leftarrow> ptable_entry (pe_as ov) (pe_vaddr ov) s;
       let s = (case pte of Some _ \<Rightarrow> set_pte (pe_as ov) (pe_vaddr ov) 0 s | None \<Rightarrow> s);
       move_shared oldp p ois s } }"

definition copy_page :: "u64 \<Rightarrow> u64 \<Rightarrow> mm \<Rightarrow> mm" where
  "copy_page dst src s =
     s\<lparr>pmem := (\<lambda>a. if a - dst < PAGE_SIZE then pmem s (src + (a - dst)) else pmem s a)\<rparr>"

text \<open>The two halves of the copying branches: \<open>leave_page\<close> takes the entry, and the owners that share
  with it, off the old page; \<open>join_page\<close> makes it an owner of the copy.\<close>

definition leave_page :: "nat \<Rightarrow> nat \<Rightarrow> nat \<Rightarrow> page_entry \<Rightarrow> page \<Rightarrow> mm \<Rightarrow> mm option" where
  "leave_page oldp p pe ev opg s =
     (let s = set_page oldp opg s in
      if pe_flags ev AND PF_SHARED \<noteq> 0 then move_shared oldp p (owner opg) s
      else
        let s = set_pe pe (ev\<lparr>pe_flags := PF_SHARED\<rparr>) s;
            opg = opg\<lparr>snap_count := snap_count opg - 1\<rparr>;
            s = set_page oldp opg s
        in if snap_count opg = 0 then restore_write True (owner opg) s else Some s)"

definition join_page :: "nat \<Rightarrow> nat \<Rightarrow> nat \<Rightarrow> mm \<Rightarrow> mm option" where
  "join_page oldp p pe s = do {
     ev \<leftarrow> pe_heap s pe;
     let s = set_pe pe (ev\<lparr>pe_p := p\<rparr>) s;
     npg \<leftarrow> page_heap s p;
     let s = set_page p (npg\<lparr>owner := pe # owner npg\<rparr>) s;
     let s = unmap_page (pe_vaddr ev) s;
     (_, s) \<leftarrow> page_unref oldp False s;
     enable_interrupts s }"

text \<open>
  The four branches of \<^verbatim>\<open>unshare_page\<close>: no snapshot left; the only owner is a snapshot;
  a shared owner leaves the snapshots behind, together with the other shared owners; a snapshot
  becomes the owner of a copy. The first branch disables interrupts twice and enables them once.
\<close>

definition unshare_page :: "nat \<Rightarrow> mm \<Rightarrow> mm option" where
  "unshare_page pe s = do {
     ev \<leftarrow> pe_heap s pe;
     guard (pe_as ev = cur_as s);
     let s = disable_interrupts s;
     guard (pe_flags ev AND PF_HARDWARE = 0);
     pg \<leftarrow> page_heap s (pe_p ev);
     if snap_count pg = 0 then do {
       let s = disable_interrupts s;
       s \<leftarrow> restore_write False (owner pg) s;
       enable_interrupts s }
     else if snap_count pg = ref_count pg \<and> ref_count pg = 1 then do {
       let s = set_page (pe_p ev) (pg\<lparr>snap_count := 0\<rparr>) s;
       enable_interrupts (unmap_page (pe_vaddr ev) s) }
     else do {
       (pga, s) \<leftarrow> get_page s;
       guard (ref_count pg \<noteq> 1);
       let s = copy_page pga (phys_to_virt (phys_addr pg)) s;
       (pr, s) \<leftarrow> manage_phys_page (pga - KERN_VMBASE) s;
       p \<leftarrow> (case pr of Inr p \<Rightarrow> Some p | Inl _ \<Rightarrow> None);
       let oldp = pe_p ev;
       opg \<leftarrow> page_heap s oldp;
       s \<leftarrow> leave_page oldp p pe ev (opg\<lparr>owner := remove1 pe (owner opg)\<rparr>) s;
       join_page oldp p pe s } }"

definition page_man_init :: "mm \<Rightarrow> mm" where
  "page_man_init s = s\<lparr>phys_pages := binradix_new\<rparr>"

definition page_entry_new :: "nat \<Rightarrow> u64 \<Rightarrow> mm \<Rightarrow> nat \<times> mm" where
  "page_entry_new as vaddr s =
     (let (pe, s) = fresh_id s
      in (pe, set_pe pe \<lparr>pe_p = 0, pe_as = as, pe_vaddr = vaddr, pe_flags = 0\<rparr> s))"

end
