(* ===== verification/FdTable.thy ===== *)
theory FdTable
  imports Bitops
begin

text \<open>
  Descriptor sets (\<^verbatim>\<open>include/uapi/port.h\<close>) and descriptor tables
  (\<^verbatim>\<open>include/sys/ipc.h\<close>). A set is eight 64-bit masks and a bound. The code shifts the
  \<^verbatim>\<open>int\<close> constant 1: by 31 this gives a negative number that is sign-extended to 64 bits, by 32
  or more it is undefined, here \<open>None\<close>. A table is an array with its size; reading outside the
  array is a fault.
\<close>

section \<open>Descriptor sets\<close>

record fd_set =
  nfds :: int
  bitmask :: "u64 list"

definition int_bit :: "int \<Rightarrow> u64 option" where
  "int_bit n = (if 0 \<le> n \<and> n < 31 then Some (2 ^ nat n) else if n = 31 then Some 0xffffffff80000000 else None)"

definition fd_set_set :: "fd_set \<Rightarrow> int \<Rightarrow> fd_set option" where
  "fd_set_set fds fd =
     (if fd < 0 \<or> fd \<ge> 512 then Some fds
      else do {
        b \<leftarrow> int_bit (fd mod 64);
        let i = nat (fd div 64);
        let fds = fds\<lparr>bitmask := (bitmask fds)[i := bitmask fds ! i OR b]\<rparr>;
        Some (if fd \<ge> nfds fds then fds\<lparr>nfds := fd + 1\<rparr> else fds) })"

definition fd_is_set :: "fd_set \<Rightarrow> int \<Rightarrow> bool" where
  "fd_is_set fds fd =
     (if fd < 0 \<or> fd \<ge> nfds fds then False
      else drop_bit (nat (fd mod 64)) (bitmask fds ! nat (fd div 64)) AND 1 \<noteq> 0)"

definition fd_zero :: fd_set where
  "fd_zero = \<lparr>nfds = 0, bitmask = replicate 8 0\<rparr>"

definition fd_clear :: "fd_set \<Rightarrow> int \<Rightarrow> fd_set option" where
  "fd_clear fds fd =
     (if fd < 0 \<or> fd \<ge> nfds fds then Some fds
      else do {
        b \<leftarrow> int_bit (fd mod 64);
        let i = nat (fd div 64);
        let fds = fds\<lparr>bitmask := (bitmask fds)[i := bitmask fds ! i AND NOT b]\<rparr>;
        Some (if fd = nfds fds - 1 then fds\<lparr>nfds := nfds fds - 1\<rparr> else fds) })"

fun fd_set_empty_from :: "nat \<Rightarrow> u64 \<Rightarrow> fd_set \<Rightarrow> bool" where
  "fd_set_empty_from 0 ans fds \<longleftrightarrow> ans = 0"
| "fd_set_empty_from (Suc k) ans fds \<longleftrightarrow>
     (let i = 8 - Suc k in
      if int i * 64 \<ge> nfds fds then ans = 0
      else fd_set_empty_from k (ans OR bitmask fds ! i) fds)"

definition fd_set_empty :: "fd_set \<Rightarrow> bool" where
  "fd_set_empty fds \<longleftrightarrow> fd_set_empty_from 8 0 fds"

section \<open>Descriptor tables\<close>

record 'a fdtable =
  fd_file :: "nat \<Rightarrow> 'a option"
  max_fds :: nat

fun fdtable_insert_from :: "nat \<Rightarrow> nat \<Rightarrow> 'a fdtable \<Rightarrow> 'a \<Rightarrow> int \<times> 'a fdtable" where
  "fdtable_insert_from 0 i fds d = (-1, fds)"
| "fdtable_insert_from (Suc k) i fds d =
     (if fd_file fds i = None then (int i, fds\<lparr>fd_file := (fd_file fds)(i := Some d)\<rparr>)
      else fdtable_insert_from k (i + 1) fds d)"

definition fdtable_insert :: "'a fdtable \<Rightarrow> 'a \<Rightarrow> int \<times> 'a fdtable" where
  "fdtable_insert fds d = fdtable_insert_from (max_fds fds) 0 fds d"

definition fdtable_new :: "'a fdtable" where
  "fdtable_new = \<lparr>fd_file = \<lambda>_. None, max_fds = (4096 - 16) div 8\<rparr>"

text \<open>The read \<^verbatim>\<open>fds->file[rd]\<close>.\<close>

definition fdtable_get :: "'a fdtable \<Rightarrow> nat \<Rightarrow> 'a option option" where
  "fdtable_get fds i = (if i < max_fds fds then Some (fd_file fds i) else None)"

section \<open>Lemmas\<close>

definition fds_ok :: "fd_set \<Rightarrow> bool" where
  "fds_ok fds \<longleftrightarrow> length (bitmask fds) = 8 \<and> 0 \<le> nfds fds \<and> nfds fds \<le> 512"

lemma odd_and_1: "(x AND 1 \<noteq> 0) \<longleftrightarrow> odd x" for x :: u64
  by (simp add: and_one_eq odd_iff_mod_2_eq_one)

lemma fd_is_set_bit:
  "fd_is_set fds fd \<longleftrightarrow> 0 \<le> fd \<and> fd < nfds fds \<and> bit (bitmask fds ! nat (fd div 64)) (nat (fd mod 64))"
  by (auto simp: fd_is_set_def odd_and_1 bit_iff_odd_drop_bit)

lemma fd_div_mod_inj: "fd div 64 = fd' div 64 \<and> fd mod 64 = fd' mod 64 \<longleftrightarrow> fd = (fd' :: int)"
  by (metis mult_div_mod_eq)

lemma nat_div_mod_eq:
  assumes "0 \<le> fd" and "0 \<le> (fd' :: int)"
  shows "nat (fd div 64) = nat (fd' div 64) \<longleftrightarrow> fd div 64 = fd' div 64"
    and "nat (fd mod 64) = nat (fd' mod 64) \<longleftrightarrow> fd mod 64 = fd' mod 64"
  using assms by (simp_all add: eq_nat_nat_iff pos_imp_zdiv_nonneg_iff)

lemma fdtable_insert_from_spec:
  assumes "fdtable_insert_from k i fds d = (r, fds')"
  shows "if \<forall>j. i \<le> j \<and> j < i + k \<longrightarrow> fd_file fds j \<noteq> None then r = -1 \<and> fds' = fds
    else \<exists>j. i \<le> j \<and> j < i + k \<and> r = int j \<and> fd_file fds j = None \<and> fds' = fds\<lparr>fd_file := (fd_file fds)(j := Some d)\<rparr> \<and>
      (\<forall>l. i \<le> l \<and> l < j \<longrightarrow> fd_file fds l \<noteq> None)"
  using assms
proof (induction k arbitrary: i)
  case (Suc k)
  show ?case
  proof (cases "fd_file fds i = None")
    case True
    then show ?thesis using Suc.prems by (auto simp: fun_upd_def)
  next
    case False
    then have r: "fdtable_insert_from k (i + 1) fds d = (r, fds')"
      using Suc.prems by (simp only: fdtable_insert_from.simps if_False)
    have "(\<forall>j. i \<le> j \<and> j < i + Suc k \<longrightarrow> fd_file fds j \<noteq> None) \<longleftrightarrow>
        (\<forall>j. i + 1 \<le> j \<and> j < i + 1 + k \<longrightarrow> fd_file fds j \<noteq> None)"
    proof (intro iffI allI impI)
      fix j assume *: "\<forall>j. i + 1 \<le> j \<and> j < i + 1 + k \<longrightarrow> fd_file fds j \<noteq> None" "i \<le> j \<and> j < i + Suc k"
      show "fd_file fds j \<noteq> None"
      proof (cases "j = i")
        case True
        then show ?thesis using False by simp
      next
        case neq: False
        then show ?thesis using * by simp
      qed
    qed auto
    note same = this
    show ?thesis
    proof (cases "\<forall>j. i + 1 \<le> j \<and> j < i + 1 + k \<longrightarrow> fd_file fds j \<noteq> None")
      case True
      then show ?thesis using Suc.IH [OF r] unfolding same by simp
    next
      case nfull: False
      then obtain j where j: "i + 1 \<le> j" "j < i + 1 + k" "r = int j" "fd_file fds j = None"
          "fds' = fds\<lparr>fd_file := (fd_file fds)(j := Some d)\<rparr>" "\<forall>l. i + 1 \<le> l \<and> l < j \<longrightarrow> fd_file fds l \<noteq> None"
        using Suc.IH [OF r] by (simp only: if_False) blast
      have "fd_file fds l \<noteq> None" if "i \<le> l" "l < j" for l
        using that j(6) False by (cases "l = i") auto
      with j nfull show ?thesis unfolding same by (auto intro!: exI [of _ j])
    qed
  qed
qed auto

section \<open>Properties\<close>

text \<open>Adding a descriptor whose number is below 31 modulo 64 to a set adds exactly this
  descriptor, clearing it removes exactly this one, and neither is undefined.\<close>

theorem fd_set_correct:
  assumes "fds_ok fds" and "0 \<le> fd" and "fd < 512" and "fd mod 64 < 31"
    and "\<forall>i. nfds fds \<le> i \<and> i < 512 \<longrightarrow> \<not> bit (bitmask fds ! nat (i div 64)) (nat (i mod 64))"
  shows "\<exists>fds1 fds2. fd_set_set fds fd = Some fds1 \<and> fds_ok fds1 \<and>
    (\<forall>i. fd_is_set fds1 i \<longleftrightarrow> fd_is_set fds i \<or> i = fd) \<and>
    fd_clear fds fd = Some fds2 \<and> fds_ok fds2 \<and>
    (\<forall>i. fd_is_set fds2 i \<longleftrightarrow> fd_is_set fds i \<and> i \<noteq> fd)"
proof -
  let ?n = "nat (fd div 64)" and ?m = "nat (fd mod 64)"
  have b: "int_bit (fd mod 64) = Some (2 ^ ?m)" using assms(4) by (simp add: int_bit_def)
  have n: "?n < length (bitmask fds)" using assms(1-3) by (auto simp: fds_ok_def)
  have m: "?m < 64" using assms(4) by linarith
  have bit_m: "bit (2 ^ ?m :: u64) j \<longleftrightarrow> j = ?m" if "j < 64" for j
    using that m by (auto simp: bit_simps)
  define bs1 where "bs1 = (bitmask fds)[?n := bitmask fds ! ?n OR 2 ^ ?m]"
  define bs2 where "bs2 = (bitmask fds)[?n := bitmask fds ! ?n AND NOT (2 ^ ?m)]"
  have at: "bit (bs1 ! nat (i div 64)) (nat (i mod 64)) \<longleftrightarrow> bit (bitmask fds ! nat (i div 64)) (nat (i mod 64)) \<or> i = fd"
      "bit (bs2 ! nat (i div 64)) (nat (i mod 64)) \<longleftrightarrow> bit (bitmask fds ! nat (i div 64)) (nat (i mod 64)) \<and> i \<noteq> fd"
    if "0 \<le> i" for i
  proof -
    have j: "nat (i mod 64) < 64" by simp
    have "i = fd \<longleftrightarrow> nat (i div 64) = ?n \<and> nat (i mod 64) = ?m"
      using nat_div_mod_eq [OF that assms(2)] fd_div_mod_inj [of i fd] by simp
    then show "bit (bs1 ! nat (i div 64)) (nat (i mod 64)) \<longleftrightarrow> bit (bitmask fds ! nat (i div 64)) (nat (i mod 64)) \<or> i = fd"
        "bit (bs2 ! nat (i div 64)) (nat (i mod 64)) \<longleftrightarrow> bit (bitmask fds ! nat (i div 64)) (nat (i mod 64)) \<and> i \<noteq> fd"
      using n bit_m [OF j] j by (auto simp: bs1_def bs2_def nth_list_update bit_or_iff bit_and_iff bit_not_iff)
  qed
  let ?f1 = "\<lparr>nfds = max (nfds fds) (fd + 1), bitmask = bs1\<rparr>"
  have "fd_set_set fds fd = Some ?f1"
    using assms(2,3) b by (simp add: fd_set_set_def Let_def bs1_def max_def)
  moreover have "fds_ok ?f1" using assms(1-3) by (simp add: fds_ok_def bs1_def)
  moreover have "fd_is_set ?f1 i \<longleftrightarrow> fd_is_set fds i \<or> i = fd" for i
  proof (cases "0 \<le> i \<and> i < 512")
    case True
    then show ?thesis using at(1) [of i] assms(1,2) spec [OF assms(5), of i]
      by (auto simp: fd_is_set_bit fds_ok_def not_le)
  next
    case False
    then show ?thesis using assms(1-3) by (auto simp: fd_is_set_bit fds_ok_def)
  qed
  moreover have "\<exists>fds2. fd_clear fds fd = Some fds2 \<and> fds_ok fds2 \<and> (\<forall>i. fd_is_set fds2 i \<longleftrightarrow> fd_is_set fds i \<and> i \<noteq> fd)"
  proof (cases "fd \<ge> nfds fds")
    case True
    then show ?thesis using assms(1) by (auto simp: fd_clear_def fd_is_set_bit)
  next
    case False
    let ?f2 = "\<lparr>nfds = if fd = nfds fds - 1 then nfds fds - 1 else nfds fds, bitmask = bs2\<rparr>"
    have "fd_clear fds fd = Some ?f2" using False assms(2) b by (simp add: fd_clear_def Let_def bs2_def)
    moreover have "fds_ok ?f2" using assms(1,2) False by (auto simp: fds_ok_def bs2_def)
    moreover have "fd_is_set ?f2 i \<longleftrightarrow> fd_is_set fds i \<and> i \<noteq> fd" for i
      using at(2) [of i] by (auto simp: fd_is_set_bit)
    ultimately show ?thesis by blast
  qed
  ultimately show ?thesis by blast
qed

theorem fd_set_correct_witness:
  "\<exists>fds1. fd_set_set fd_zero 70 = Some fds1 \<and> fd_is_set fds1 70 \<and> \<not> fd_is_set fds1 6"
proof -
  have zero: "bitmask fd_zero ! nat (i div 64) = 0" if "0 \<le> i" "i < 512" for i
    unfolding fd_zero_def using that by (simp add: nth_replicate)
  obtain fds1 where "fd_set_set fd_zero 70 = Some fds1" "\<forall>i. fd_is_set fds1 i \<longleftrightarrow> fd_is_set fd_zero i \<or> i = 70"
    using fd_set_correct [of fd_zero 70] zero by (force simp: fds_ok_def fd_zero_def)
  moreover have "\<not> fd_is_set fd_zero 6" by (simp add: fd_zero_def fd_is_set_def)
  ultimately show ?thesis by auto
qed

text \<open>The shift of an \<^verbatim>\<open>int\<close> makes the sets wrong for the other half of the descriptors:
  adding descriptor 31 also sets the bits of 32 to 63, which become visible as soon as the bound
  grows, and adding descriptor 32 is undefined.\<close>

theorem fd_set_shift_error:
  "fd_set_set fd_zero 32 = None \<and>
   do { fds \<leftarrow> fd_set_set fd_zero 31; fds \<leftarrow> fd_set_set fds 64; Some (fd_is_set fds 40) } = Some True"
  by code_simp

text \<open>Inserting into a descriptor table uses the first free slot and changes no other, or
  returns -1 and changes nothing when the table is full. The bounds check of most system calls,
  \<^verbatim>\<open>rd > max_fds\<close>, lets \<open>max_fds\<close> itself through, and that slot is outside the array.\<close>

theorem fdtable_insert_correct:
  "(case fdtable_insert fds d of (r, fds') \<Rightarrow>
     if \<forall>j < max_fds fds. fd_file fds j \<noteq> None then r = -1 \<and> fds' = fds
     else 0 \<le> r \<and> nat r < max_fds fds \<and> fd_file fds (nat r) = None \<and>
       fds' = fds\<lparr>fd_file := (fd_file fds)(nat r := Some d)\<rparr> \<and> (\<forall>j < nat r. fd_file fds j \<noteq> None)) \<and>
   fdtable_get fds (max_fds fds) = None"
proof -
  obtain r fds' where r: "fdtable_insert_from (max_fds fds) 0 fds d = (r, fds')" by (meson surj_pair)
  from fdtable_insert_from_spec [OF r] show ?thesis
    by (auto simp: fdtable_insert_def r fdtable_get_def split: if_splits)
qed

theorem fdtable_insert_correct_witness:
  "fdtable_insert \<lparr>fd_file = [0 \<mapsto> (7::nat)], max_fds = 2\<rparr> 9 = (1, \<lparr>fd_file = [0 \<mapsto> 7, 1 \<mapsto> 9], max_fds = 2\<rparr>)"
proof -
  obtain r f where r: "fdtable_insert \<lparr>fd_file = [0 \<mapsto> (7::nat)], max_fds = 2\<rparr> 9 = (r, f)" by (meson surj_pair)
  have "0 \<le> r" and b: "nat r < 2" "[0 \<mapsto> (7::nat)] (nat r) = None" and f: "f = \<lparr>fd_file = [0 \<mapsto> 7, nat r \<mapsto> 9], max_fds = 2\<rparr>"
    using fdtable_insert_correct [of "\<lparr>fd_file = [0 \<mapsto> (7::nat)], max_fds = 2\<rparr>" 9] r
    by (auto simp: numeral_2_eq_2 All_less_Suc)
  from b have "nat r = 1" by (auto split: if_splits)
  with r f \<open>0 \<le> r\<close> show ?thesis by auto
qed

end
