(* ===== verification/Sched.thy ===== *)
theory Sched
  imports Prelude "HOL-Library.Sublist"
begin

text \<open>
  The scheduler of \<^verbatim>\<open>sys/sched.c\<close>: the run queue, the states of the tasks, the switch to
  the next task and the end of a task. Tasks are named by numbers (their addresses); the run queue
  is the sequence of its nodes, which KList justifies. \<^verbatim>\<open>switch_to\<close> (assembly) makes the next
  task the current one; what the call returns to, \<^verbatim>\<open>after_switch\<close>, then runs in the new task.
  Registers, stacks and the loading of the page table are not part of the model; giving back the
  memory of a dead task is recorded in a log.

  The invariant says that exactly the runnable tasks are queued, once; it is kept by every step, so
  a reachable state never has a task that is runnable but forgotten, and the queue is served in
  order.
\<close>

section \<open>State\<close>

datatype task_state = TASK_RUNNABLE | TASK_RUNNING | TASK_WAITING | TASK_ZOMBIE

record task =
  t_state :: task_state
  t_pid :: nat
  t_exit_code :: int
  t_parent :: "nat option"
  t_children :: "nat list"
  t_as :: "nat option"
  t_priority :: int

record sched =
  runq :: "nat list"
  tasks :: "nat \<Rightarrow> nat option"
  task_heap :: "nat \<Rightarrow> task option"
  idle_task :: nat
  current :: nat
  to_kill :: "nat option"
  current_pid :: nat
  irq_disabled :: nat
  released :: "nat list"

definition set_task :: "nat \<Rightarrow> task \<Rightarrow> 'z sched_scheme \<Rightarrow> 'z sched_scheme" where
  "set_task t tv s = s\<lparr>task_heap := (task_heap s)(t := Some tv)\<rparr>"

section \<open>Operations\<close>

definition irq_disable :: "'z sched_scheme \<Rightarrow> 'z sched_scheme" where
  "irq_disable s = s\<lparr>irq_disabled := irq_disabled s + 1\<rparr>"

definition irq_enable :: "'z sched_scheme \<Rightarrow> 'z sched_scheme option" where
  "irq_enable s = do { guard (irq_disabled s \<noteq> 0); Some (s\<lparr>irq_disabled := irq_disabled s - 1\<rparr>) }"

definition kill_current :: "int \<Rightarrow> 'z sched_scheme \<Rightarrow> 'z sched_scheme option" where
  "kill_current code s = do {
     tv \<leftarrow> task_heap s (current s);
     Some (set_task (current s) (tv\<lparr>t_state := TASK_ZOMBIE, t_exit_code := code\<rparr>) s) }"

fun orphan :: "nat list \<Rightarrow> 'z sched_scheme \<Rightarrow> 'z sched_scheme option" where
  "orphan [] s = Some s"
| "orphan (c # cs) s = do {
     cv \<leftarrow> task_heap s c;
     orphan cs (set_task c (cv\<lparr>t_parent := None\<rparr>) s) }"

definition kill_process :: "nat \<Rightarrow> 'z sched_scheme \<Rightarrow> 'z sched_scheme option" where
  "kill_process t s = do {
     guard (t \<noteq> current s);
     tv \<leftarrow> task_heap s t;
     let s = s\<lparr>released := released s @ [t]\<rparr>;
     s \<leftarrow> orphan (t_children tv) s;
     tv \<leftarrow> task_heap s t;
     let tv = tv\<lparr>t_children := []\<rparr>;
     let s = set_task t tv s;
     Some (if t_parent tv = None
           then s\<lparr>tasks := (tasks s)(t_pid tv := None), task_heap := (task_heap s)(t := None)\<rparr>
           else s) }"

definition after_switch :: "'z sched_scheme \<Rightarrow> 'z sched_scheme option" where
  "after_switch s = do {
     tv \<leftarrow> task_heap s (current s);
     let s = set_task (current s) (tv\<lparr>t_state := TASK_RUNNING\<rparr>) s;
     s \<leftarrow> (case to_kill s of
             Some t \<Rightarrow> do { s \<leftarrow> kill_process t s; Some (s\<lparr>to_kill := None\<rparr>) }
           | None \<Rightarrow> Some s);
     irq_enable s }"

definition switch_to :: "nat \<Rightarrow> 'z sched_scheme \<Rightarrow> 'z sched_scheme" where
  "switch_to t s = s\<lparr>current := t\<rparr>"

definition schedule :: "'z sched_scheme \<Rightarrow> 'z sched_scheme option" where
  "schedule s = do {
     guard (irq_disabled s = 0);
     guard (to_kill s = None);
     let s = irq_disable s;
     cv \<leftarrow> task_heap s (current s);
     let s = (if t_state cv = TASK_RUNNING
              then (set_task (current s) (cv\<lparr>t_state := TASK_RUNNABLE\<rparr>) s)\<lparr>runq := runq s @ [current s]\<rparr>
              else s);
     let (next, s) = (case runq s of
                        n # rest \<Rightarrow> (n, s\<lparr>runq := rest\<rparr>)
                      | [] \<Rightarrow> (idle_task s, s));
     nv \<leftarrow> task_heap s next;
     let s = s\<lparr>current_pid := t_pid nv\<rparr>;
     cv \<leftarrow> task_heap s (current s);
     let s = (if t_state cv = TASK_ZOMBIE then s\<lparr>to_kill := Some (current s)\<rparr> else s);
     after_switch (switch_to next s) }"

definition int_reschedule :: "'z sched_scheme \<Rightarrow> 'z sched_scheme option" where
  "int_reschedule s = schedule (s\<lparr>irq_disabled := 0\<rparr>)"

definition wake_up :: "nat \<Rightarrow> 'z sched_scheme \<Rightarrow> 'z sched_scheme option" where
  "wake_up t s = do {
     tv \<leftarrow> task_heap s t;
     Some (if t_state tv = TASK_WAITING
           then (set_task t (tv\<lparr>t_state := TASK_RUNNABLE\<rparr>) s)\<lparr>runq := t # runq s\<rparr>
           else s) }"

text \<open>The scan for a free process number, from \<open>i\<close> on; -1 when all are taken.\<close>

fun task_slot_from :: "nat \<Rightarrow> nat \<Rightarrow> (nat \<Rightarrow> nat option) \<Rightarrow> int" where
  "task_slot_from 0 i tb = -1"
| "task_slot_from (Suc k) i tb = (if tb i = None then int i else task_slot_from k (i + 1) tb)"

definition available_task_slot :: "'z sched_scheme \<Rightarrow> int" where
  "available_task_slot s = task_slot_from 32767 0 (tasks s)"

definition sys_exit :: "int \<Rightarrow> 'z sched_scheme \<Rightarrow> 'z sched_scheme option" where
  "sys_exit code s = do { s \<leftarrow> kill_current code s; schedule s }"

definition sys_getpid :: "'z sched_scheme \<Rightarrow> nat option" where
  "sys_getpid s = do { tv \<leftarrow> task_heap s (current s); Some (t_pid tv) }"

definition sys_getppid :: "'z sched_scheme \<Rightarrow> nat option" where
  "sys_getppid s = do {
     tv \<leftarrow> task_heap s (current s);
     case t_parent tv of None \<Rightarrow> Some 0 | Some p \<Rightarrow> do { pv \<leftarrow> task_heap s p; Some (t_pid pv) } }"

text \<open>\<^verbatim>\<open>new_process\<close> builds the task \<open>t\<close> for the address space \<open>as\<close>; its kernel stack, which the code
  forges so that the first switch to it returns to user space, is not part of this state.\<close>

definition new_process :: "nat \<Rightarrow> nat \<Rightarrow> 'z sched_scheme \<Rightarrow> 'z sched_scheme" where
  "new_process t as s =
     set_task t \<lparr>t_state = TASK_RUNNABLE, t_pid = 0, t_exit_code = 0, t_parent = None, t_children = [],
                 t_as = Some as, t_priority = 0\<rparr> s"

text \<open>The new task \<open>t\<close> becomes a child of the running one and is queued to run.\<close>

definition enqueue_task :: "nat \<Rightarrow> int \<Rightarrow> 'z sched_scheme \<Rightarrow> (int \<times> 'z sched_scheme) option" where
  "enqueue_task t pid s = do {
     cv \<leftarrow> task_heap s (current s);
     tv \<leftarrow> task_heap s t;
     let s = set_task t (tv\<lparr>t_priority := t_priority cv, t_state := TASK_RUNNABLE, t_pid := nat pid,
                            t_parent := Some (current s)\<rparr>) s;
     let s = s\<lparr>tasks := (tasks s)(nat pid := Some t), runq := t # runq s\<rparr>;
     let s = set_task (current s) (cv\<lparr>t_children := t # t_children cv\<rparr>) s;
     Some (pid, s) }"

text \<open>What \<^verbatim>\<open>create_task\<close> does to the scheduler; the descriptors are copied by the theory Ipc.\<close>

definition create_task :: "nat \<Rightarrow> nat \<Rightarrow> 'z sched_scheme \<Rightarrow> (int \<times> 'z sched_scheme) option" where
  "create_task t as s =
     (let pid = available_task_slot s in if pid < 0 then Some (-12, s) else enqueue_task t pid (new_process t as s))"

section \<open>Invariant\<close>

abbreviation st_of :: "'z sched_scheme \<Rightarrow> nat \<Rightarrow> task_state option" where
  "st_of s t \<equiv> map_option t_state (task_heap s t)"

definition queue_ok :: "'z sched_scheme \<Rightarrow> bool" where
  "queue_ok s \<longleftrightarrow> distinct (runq s) \<and> (\<forall>t \<in> set (runq s). st_of s t = Some TASK_RUNNABLE) \<and>
     (\<forall>t. st_of s t = Some TASK_RUNNABLE \<longrightarrow> t \<in> set (runq s) \<or> t = idle_task s)"

definition par :: "'z sched_scheme \<Rightarrow> nat \<Rightarrow> nat option" where
  "par s c = Option.bind (task_heap s c) t_parent"

definition chl :: "'z sched_scheme \<Rightarrow> nat \<Rightarrow> nat set" where
  "chl s p = (case task_heap s p of None \<Rightarrow> {} | Some pv \<Rightarrow> set (t_children pv))"

definition family_ok :: "'z sched_scheme \<Rightarrow> bool" where
  "family_ok s \<longleftrightarrow> (\<forall>c p. (par s c = Some p \<longleftrightarrow> c \<in> chl s p) \<and> par s c \<noteq> Some c)"

definition sched_inv :: "'z sched_scheme \<Rightarrow> bool" where
  "sched_inv s \<longleftrightarrow> queue_ok s \<and> family_ok s \<and> irq_disabled s = 0 \<and> to_kill s = None \<and>
     st_of s (current s) = Some TASK_RUNNING \<and> (\<forall>t. st_of s t = Some TASK_RUNNING \<longrightarrow> t = current s) \<and>
     task_heap s (idle_task s) \<noteq> None \<and> st_of s (idle_task s) \<in> {Some TASK_RUNNABLE, Some TASK_RUNNING}"

text \<open>What \<open>schedule\<close> needs: the invariant, except that the current task may have stopped running.\<close>

definition sched_ready :: "'z sched_scheme \<Rightarrow> bool" where
  "sched_ready s \<longleftrightarrow> queue_ok s \<and> family_ok s \<and> irq_disabled s = 0 \<and> to_kill s = None \<and>
     (\<exists>st. st_of s (current s) = Some st \<and> st \<noteq> TASK_RUNNABLE \<and> (current s = idle_task s \<longrightarrow> st = TASK_RUNNING)) \<and>
     (\<forall>t. st_of s t = Some TASK_RUNNING \<longrightarrow> t = current s) \<and>
     st_of s (idle_task s) \<in> {Some TASK_RUNNABLE, Some TASK_RUNNING}"

section \<open>The end of a task\<close>

lemma orphan_spec:
  assumes "\<forall>c \<in> set cs. task_heap s c \<noteq> None"
  shows "orphan cs s = Some (s\<lparr>task_heap :=
    \<lambda>x. map_option (\<lambda>tv. if x \<in> set cs then tv\<lparr>t_parent := None\<rparr> else tv) (task_heap s x)\<rparr>)"
  using assms
proof (induction cs arbitrary: s)
  case Nil
  have "(\<lambda>x. map_option (\<lambda>tv. tv) (task_heap s x)) = task_heap s" by (simp add: option.map_ident)
  then show ?case by simp
next
  case (Cons c cs)
  then obtain cv where cv: "task_heap s c = Some cv" by auto
  let ?s = "set_task c (cv\<lparr>t_parent := None\<rparr>) s"
  have "\<forall>d \<in> set cs. task_heap ?s d \<noteq> None" using Cons.prems by (auto simp: set_task_def)
  from Cons.IH [OF this] cv show ?case
    by (auto simp: set_task_def intro!: arg_cong [where f = "\<lambda>h. s\<lparr>task_heap := h\<rparr>"] ext)
qed

definition killed_heap :: "nat \<Rightarrow> task \<Rightarrow> 'z sched_scheme \<Rightarrow> nat \<Rightarrow> task option" where
  "killed_heap t tv s x =
     (if x = t then if t_parent tv = None then None else Some (tv\<lparr>t_children := []\<rparr>)
      else map_option (\<lambda>xv. if x \<in> set (t_children tv) then xv\<lparr>t_parent := None\<rparr> else xv) (task_heap s x))"

lemma par_Some: "par s c = Some p \<Longrightarrow> task_heap s c \<noteq> None"
  by (cases "task_heap s c") (simp_all add: par_def)

lemma kill_process_spec:
  assumes "t \<noteq> current s" and "task_heap s t = Some tv" and "family_ok s"
  shows "\<exists>tb rl. kill_process t s = Some (s\<lparr>released := rl, task_heap := killed_heap t tv s, tasks := tb\<rparr>)"
proof -
  have self: "t \<notin> set (t_children tv)" using assms(2,3) by (auto simp: family_ok_def chl_def split: option.splits)
  define h where "h = (\<lambda>x. map_option (\<lambda>xv. if x \<in> set (t_children tv) then xv\<lparr>t_parent := None\<rparr> else xv) (task_heap s x))"
  let ?s = "s\<lparr>released := released s @ [t]\<rparr>"
  have "c \<in> chl s t \<longrightarrow> par s c = Some t" for c using assms(3) by (simp add: family_ok_def)
  then have "\<forall>c \<in> set (t_children tv). task_heap ?s c \<noteq> None"
    using assms(2) par_Some [of s _ t] by (auto simp: chl_def)
  from orphan_spec [OF this] have o: "orphan (t_children tv) ?s = Some (?s\<lparr>task_heap := h\<rparr>)"
    by (simp add: h_def)
  have ht: "h t = Some tv" using assms(2) self by (simp add: h_def)
  have k: "killed_heap t tv s = (if t_parent tv = None then h(t := None) else h(t := Some (tv\<lparr>t_children := []\<rparr>)))"
    by (auto simp: killed_heap_def h_def)
  show ?thesis
  proof (cases "t_parent tv")
    case None
    then have "kill_process t s = Some (?s\<lparr>task_heap := h(t := None), tasks := (tasks s)(t_pid tv := None)\<rparr>)"
      using assms(1,2) o ht by (simp add: kill_process_def set_task_def Let_def)
    then show ?thesis using None k by auto
  next
    case (Some p)
    then have "kill_process t s = Some (?s\<lparr>task_heap := h(t := Some (tv\<lparr>t_children := []\<rparr>))\<rparr>)"
      using assms(1,2) o ht by (simp add: kill_process_def set_task_def Let_def)
    moreover have "?s\<lparr>task_heap := hh\<rparr> = ?s\<lparr>task_heap := hh, tasks := tasks s\<rparr>" for hh
      by simp
    ultimately show ?thesis using Some k by (metis option.distinct(1))
  qed
qed

lemma killed_heap_st:
  "x \<noteq> t \<Longrightarrow> map_option t_state (killed_heap t tv s x) = st_of s x"
  by (cases "task_heap s x") (auto simp: killed_heap_def)

lemma killed_family:
  assumes "task_heap s t = Some tv" and "family_ok s" and "task_heap s' = killed_heap t tv s"
  shows "family_ok s'"
proof -
  have fam: "par s c = Some p \<longleftrightarrow> c \<in> chl s p" "par s c \<noteq> Some c" for c p
    using assms(2) by (auto simp: family_ok_def)
  have ch_t: "set (t_children tv) = chl s t" using assms(1) by (simp add: chl_def)
  have chl': "chl s' p = (if p = t then {} else chl s p)" for p
    by (cases "task_heap s p") (auto simp: chl_def assms(3) killed_heap_def)
  have par': "par s' c = (if c = t \<and> t_parent tv = None then None else if c \<in> chl s t \<and> c \<noteq> t then None else par s c)" for c
    using assms(1) ch_t by (cases "task_heap s c") (auto simp: par_def assms(3) killed_heap_def)
  have par_t: "par s t = t_parent tv" using assms(1) by (simp add: par_def)
  show ?thesis unfolding family_ok_def
  proof (intro allI)
    fix c p
    show "(par s' c = Some p \<longleftrightarrow> c \<in> chl s' p) \<and> par s' c \<noteq> Some c"
      using fam(1) [of c p] fam(1) [of c t] fam(2) [of c] fam(2) [of t] par_t unfolding par' chl' by (auto split: if_splits)
  qed
qed

section \<open>Dispatching\<close>

text \<open>The state in \<open>schedule\<close> once the current task is queued again or has stopped: no task runs.\<close>

definition dispatch_ready :: "'z sched_scheme \<Rightarrow> bool" where
  "dispatch_ready s \<longleftrightarrow> queue_ok s \<and> family_ok s \<and> irq_disabled s = 1 \<and> to_kill s = None \<and>
     (\<forall>t. st_of s t \<noteq> Some TASK_RUNNING) \<and> st_of s (idle_task s) = Some TASK_RUNNABLE"

definition next_task :: "'z sched_scheme \<Rightarrow> nat" where
  "next_task s = (case runq s of n # _ \<Rightarrow> n | [] \<Rightarrow> idle_task s)"

definition dispatch :: "'z sched_scheme \<Rightarrow> 'z sched_scheme option" where
  "dispatch s = do {
     let next = next_task s;
     nv \<leftarrow> task_heap s next;
     cv \<leftarrow> task_heap s (current s);
     after_switch (switch_to next (s\<lparr>runq := tl (runq s), current_pid := t_pid nv,
       to_kill := (if t_state cv = TASK_ZOMBIE then Some (current s) else to_kill s)\<rparr>)) }"

lemma schedule_dispatch:
  assumes "irq_disabled s = 0" and "to_kill s = None" and "task_heap s (current s) = Some cv"
  shows "schedule s = dispatch (if t_state cv = TASK_RUNNING
     then (set_task (current s) (cv\<lparr>t_state := TASK_RUNNABLE\<rparr>) s)\<lparr>irq_disabled := 1, runq := runq s @ [current s]\<rparr>
     else s\<lparr>irq_disabled := 1\<rparr>)"
  using assms
  by (cases s; cases "runq s") (simp_all add: schedule_def irq_disable_def dispatch_def next_task_def set_task_def
      switch_to_def Let_def)

lemma next_task_runnable: "dispatch_ready s \<Longrightarrow> st_of s (next_task s) = Some TASK_RUNNABLE"
  by (cases "runq s") (auto simp: dispatch_ready_def queue_ok_def next_task_def)

lemma family_ok_state:
  assumes "\<And>x. map_option t_parent (task_heap s' x) = map_option t_parent (task_heap s x)"
    and "\<And>x. map_option t_children (task_heap s' x) = map_option t_children (task_heap s x)"
  shows "family_ok s' = family_ok s"
proof -
  have "par s' x = par s x" "chl s' x = chl s x" for x
    using assms(1) [of x] assms(2) [of x]
    by (cases "task_heap s x"; cases "task_heap s' x"; simp add: par_def chl_def)+
  then show ?thesis by (simp add: family_ok_def)
qed

text \<open>The invariant from the states of the tasks after the switch.\<close>

lemma sched_inv_switched:
  assumes ready: "dispatch_ready s" and n: "n = next_task s"
    and fam: "family_ok s'" and fields: "runq s' = tl (runq s)" "current s' = n" "idle_task s' = idle_task s"
      "irq_disabled s' = 0" "to_kill s' = None"
    and st: "\<And>x. st_of s' x = (if x = n then Some TASK_RUNNING else if Some x = z then zs else st_of s x)"
    and z: "\<And>x. z = Some x \<Longrightarrow> st_of s x = Some TASK_ZOMBIE" "zs \<in> {None, Some TASK_ZOMBIE}"
  shows "sched_inv s'"
proof -
  have q: "distinct (runq s)" "\<forall>t \<in> set (runq s). st_of s t = Some TASK_RUNNABLE"
      "\<forall>t. st_of s t = Some TASK_RUNNABLE \<longrightarrow> t \<in> set (runq s) \<or> t = idle_task s"
    and idle: "st_of s (idle_task s) = Some TASK_RUNNABLE" and nr: "\<forall>t. st_of s t \<noteq> Some TASK_RUNNING"
    using ready by (auto simp: dispatch_ready_def queue_ok_def)
  have rest: "t \<noteq> n \<and> Some t \<noteq> z \<and> st_of s t = Some TASK_RUNNABLE" if "t \<in> set (tl (runq s))" for t
    using that q n z(1) by (cases "runq s") (auto simp: next_task_def)
  have queued: "t \<in> set (tl (runq s)) \<or> t = idle_task s" if "t \<noteq> n" "st_of s t = Some TASK_RUNNABLE" for t
    using that q n by (cases "runq s") (auto simp: next_task_def)
  have "queue_ok s'"
    unfolding queue_ok_def fields
  proof (intro conjI ballI allI impI)
    show "distinct (tl (runq s))" using q(1) by (simp add: distinct_tl)
    show "st_of s' t = Some TASK_RUNNABLE" if "t \<in> set (tl (runq s))" for t using rest [OF that] st [of t] by simp
    show "t \<in> set (tl (runq s)) \<or> t = idle_task s" if "st_of s' t = Some TASK_RUNNABLE" for t
      using that st [of t] queued [of t] z(2) by (auto split: if_splits)
  qed
  moreover have "st_of s' t = Some TASK_RUNNING \<longleftrightarrow> t = n" for t
    using st [of t] nr z(2) by (auto split: if_splits)
  moreover have "st_of s' (idle_task s) \<in> {Some TASK_RUNNABLE, Some TASK_RUNNING}"
    using st [of "idle_task s"] idle z(1) by (auto split: if_splits)
  ultimately show ?thesis
    using fam fields by (cases "task_heap s' (idle_task s)") (auto simp: sched_inv_def)
qed

lemma dispatch_spec:
  assumes ready: "dispatch_ready s" and cur: "task_heap s (current s) = Some cv"
  shows "\<exists>s'. dispatch s = Some s' \<and> sched_inv s' \<and> current s' = next_task s \<and> runq s' = tl (runq s) \<and>
    idle_task s' = idle_task s"
proof -
  let ?n = "next_task s"
  obtain nv where nv: "task_heap s ?n = Some nv" "t_state nv = TASK_RUNNABLE"
    using next_task_runnable [OF ready] by auto
  have lock: "irq_disabled s = 1" "to_kill s = None" "family_ok s" using ready by (auto simp: dispatch_ready_def)
  define s1 where "s1 = s\<lparr>runq := tl (runq s), current_pid := t_pid nv, current := ?n,
     task_heap := (task_heap s)(?n := Some (nv\<lparr>t_state := TASK_RUNNING\<rparr>))\<rparr>"
  have f1: "family_ok s1"
    using lock(3) nv by (subst family_ok_state [of _ s]) (auto simp: s1_def)
  have st1: "st_of s1 x = (if x = ?n then Some TASK_RUNNING else st_of s x)" for x by (simp add: s1_def)
  show ?thesis
  proof (cases "t_state cv = TASK_ZOMBIE")
    case False
    have d: "dispatch s = Some (s1\<lparr>irq_disabled := 0\<rparr>)"
      using nv cur lock False by (simp add: dispatch_def switch_to_def after_switch_def set_task_def irq_enable_def s1_def Let_def)
    have "sched_inv (s1\<lparr>irq_disabled := 0\<rparr>)"
    proof (rule sched_inv_switched [OF ready refl, where z = None and zs = None])
      show "family_ok (s1\<lparr>irq_disabled := 0\<rparr>)" using f1 by (subst family_ok_state [of _ s1]) auto
    qed (use st1 lock in \<open>auto simp: s1_def\<close>)
    with d show ?thesis by (simp add: s1_def)
  next
    case True
    have zn: "current s \<noteq> ?n" using True cur nv by auto
    define s2 where "s2 = s1\<lparr>to_kill := Some (current s)\<rparr>"
    have cur2: "task_heap s2 (current s) = Some cv" using cur zn by (simp add: s2_def s1_def)
    have f2: "family_ok s2" using f1 by (subst family_ok_state [of _ s1]) (auto simp: s2_def)
    have "current s \<noteq> current s2" using zn by (simp add: s2_def s1_def)
    from kill_process_spec [OF this cur2 f2] obtain tb rl where
      k: "kill_process (current s) s2 = Some (s2\<lparr>released := rl, task_heap := killed_heap (current s) cv s2, tasks := tb\<rparr>)" by blast
    let ?s' = "s2\<lparr>released := rl, task_heap := killed_heap (current s) cv s2, tasks := tb, to_kill := None, irq_disabled := 0\<rparr>"
    have "switch_to ?n (s\<lparr>runq := tl (runq s), current_pid := t_pid nv, to_kill := Some (current s)\<rparr>) =
        s2\<lparr>task_heap := task_heap s\<rparr>" by (simp add: switch_to_def s2_def s1_def)
    then have "dispatch s = after_switch (s2\<lparr>task_heap := task_heap s\<rparr>)"
      using nv cur True by (simp add: dispatch_def Let_def)
    moreover have "set_task ?n (nv\<lparr>t_state := TASK_RUNNING\<rparr>) (s2\<lparr>task_heap := task_heap s\<rparr>) = s2"
      by (cases s) (simp add: set_task_def s2_def s1_def)
    moreover have "current s2 = ?n" "to_kill s2 = Some (current s)" "irq_disabled s2 = 1"
      using lock by (simp_all add: s2_def s1_def)
    ultimately have d: "dispatch s = Some ?s'"
      using nv k by (simp add: after_switch_def irq_enable_def Let_def)
    have "sched_inv ?s'"
    proof (rule sched_inv_switched [OF ready refl, where z = "Some (current s)"
          and zs = "if t_parent cv = None then None else Some TASK_ZOMBIE"])
      show "family_ok ?s'" by (rule killed_family [OF cur2 f2]) simp
      show "st_of ?s' x = (if x = ?n then Some TASK_RUNNING else if Some x = Some (current s)
          then if t_parent cv = None then None else Some TASK_ZOMBIE else st_of s x)" for x
      proof (cases "x = current s")
        case True
        then show ?thesis using zn \<open>t_state cv = TASK_ZOMBIE\<close> by (simp add: killed_heap_def)
      next
        case False
        have "st_of ?s' x = st_of s2 x" using killed_heap_st [OF False, of cv s2] by simp
        then show ?thesis using False st1 [of x] by (simp add: s2_def)
      qed
    qed (use lock True cur in \<open>auto simp: s2_def s1_def\<close>)
    with d show ?thesis by (simp add: s2_def s1_def)
  qed
qed

lemma sched_inv_ready: "sched_inv s \<Longrightarrow> sched_ready s"
  by (auto simp: sched_inv_def sched_ready_def)

lemma st_of_set_task: "st_of (set_task t tv s) x = (if x = t then Some (t_state tv) else st_of s x)"
  by (simp add: set_task_def)

lemma family_ok_set_task:
  assumes "task_heap s t = Some tv" and "t_parent tv' = t_parent tv" and "t_children tv' = t_children tv"
  shows "family_ok (set_task t tv' s) = family_ok s"
  by (rule family_ok_state) (use assms in \<open>auto simp: set_task_def\<close>)

lemma family_ok_upd [simp]:
  "family_ok (s\<lparr>irq_disabled := n\<rparr>) = family_ok s" "family_ok (s\<lparr>runq := q\<rparr>) = family_ok s"
  "family_ok (s\<lparr>tasks := tb\<rparr>) = family_ok s"
  by (rule family_ok_state; simp)+

lemma set_task_fields [simp]:
  "runq (set_task t tv s) = runq s" "current (set_task t tv s) = current s" "idle_task (set_task t tv s) = idle_task s"
  "irq_disabled (set_task t tv s) = irq_disabled s" "to_kill (set_task t tv s) = to_kill s" "tasks (set_task t tv s) = tasks s"
  by (simp_all add: set_task_def)

lemma schedule_spec:
  assumes ready: "sched_ready s"
  defines "q \<equiv> (if st_of s (current s) = Some TASK_RUNNING then runq s @ [current s] else runq s)"
  shows "\<exists>s'. schedule s = Some s' \<and> sched_inv s' \<and> idle_task s' = idle_task s \<and> runq s' = tl q \<and>
    current s' = (case q of n # _ \<Rightarrow> n | [] \<Rightarrow> idle_task s)"
proof -
  obtain cv where cv: "task_heap s (current s) = Some cv" "t_state cv \<noteq> TASK_RUNNABLE"
    "current s = idle_task s \<longrightarrow> t_state cv = TASK_RUNNING" using ready by (auto simp: sched_ready_def)
  have r: "queue_ok s" "family_ok s" "irq_disabled s = 0" "to_kill s = None"
      "\<forall>t. st_of s t = Some TASK_RUNNING \<longrightarrow> t = current s"
      "st_of s (idle_task s) \<in> {Some TASK_RUNNABLE, Some TASK_RUNNING}"
    using ready by (auto simp: sched_ready_def)
  have notin: "current s \<notin> set (runq s)" using r(1) cv(1,2) by (auto simp: queue_ok_def)
  define s1 where "s1 = (if t_state cv = TASK_RUNNING
     then (set_task (current s) (cv\<lparr>t_state := TASK_RUNNABLE\<rparr>) s)\<lparr>irq_disabled := 1, runq := runq s @ [current s]\<rparr>
     else s\<lparr>irq_disabled := 1\<rparr>)"
  have f: "family_ok s1"
    using r(2) cv(1) by (auto simp: s1_def family_ok_set_task)
  have st1: "st_of s1 x = (if x = current s \<and> t_state cv = TASK_RUNNING then Some TASK_RUNNABLE else st_of s x)" for x
    using cv(1) by (simp add: s1_def set_task_def)
  have fields: "runq s1 = q" "idle_task s1 = idle_task s" "current s1 = current s" "irq_disabled s1 = 1" "to_kill s1 = None"
    using cv(1) r(4) by (auto simp: s1_def q_def set_task_def)
  have "queue_ok s1"
    unfolding queue_ok_def fields using r(1) notin st1 cv by (auto simp: queue_ok_def q_def split: if_splits)
  moreover have "st_of s1 t \<noteq> Some TASK_RUNNING" for t using st1 [of t] r(5) cv(1) by auto
  moreover have "st_of s1 (idle_task s) = Some TASK_RUNNABLE" using st1 [of "idle_task s"] r(5,6) cv by auto
  ultimately have "dispatch_ready s1" using f fields by (simp add: dispatch_ready_def)
  moreover obtain cv1 where "task_heap s1 (current s1) = Some cv1"
    using cv(1) by (cases "task_heap s1 (current s)") (auto simp: s1_def fields set_task_def split: if_splits)
  ultimately show ?thesis
    using dispatch_spec [of s1 cv1] schedule_dispatch [OF r(3,4) cv(1)] fields
    by (auto simp: s1_def [symmetric] next_task_def split: list.splits)
qed

section \<open>Steps of the system\<close>

text \<open>A task that waits, as in \<^verbatim>\<open>wait_on\<close>: it marks itself waiting and calls \<open>schedule\<close>.\<close>

definition sched_block :: "'z sched_scheme \<Rightarrow> 'z sched_scheme option" where
  "sched_block s = do {
     tv \<leftarrow> task_heap s (current s);
     schedule (set_task (current s) (tv\<lparr>t_state := TASK_WAITING\<rparr>) s) }"

inductive sched_step :: "sched \<Rightarrow> sched \<Rightarrow> bool" where
  yield: "schedule s = Some s' \<Longrightarrow> sched_step s s'"
| block: "current s \<noteq> idle_task s \<Longrightarrow> sched_block s = Some s' \<Longrightarrow> sched_step s s'"
| exit: "current s \<noteq> idle_task s \<Longrightarrow> sys_exit code s = Some s' \<Longrightarrow> sched_step s s'"
| wake: "wake_up t s = Some s' \<Longrightarrow> sched_step s s'"
| create: "task_heap s t = None \<Longrightarrow> create_task t as s = Some (r, s') \<Longrightarrow> sched_step s s'"

inductive_cases sched_stepE: "sched_step s s'"

lemma stopped_ready:
  assumes "sched_inv s" and "current s \<noteq> idle_task s" and "task_heap s (current s) = Some tv"
    and "t_state tv' \<in> {TASK_WAITING, TASK_ZOMBIE}" and "t_parent tv' = t_parent tv" and "t_children tv' = t_children tv"
  shows "sched_ready (set_task (current s) tv' s)"
proof -
  have i: "queue_ok s" "family_ok s" "st_of s (current s) = Some TASK_RUNNING"
      "\<forall>t. st_of s t = Some TASK_RUNNING \<longrightarrow> t = current s" "irq_disabled s = 0" "to_kill s = None"
      "st_of s (idle_task s) \<in> {Some TASK_RUNNABLE, Some TASK_RUNNING}"
    using assms(1) by (simp_all add: sched_inv_def)
  have "queue_ok (set_task (current s) tv' s)"
    unfolding queue_ok_def st_of_set_task set_task_fields
  proof (intro conjI ballI allI impI)
    show "distinct (runq s)" using i(1) by (simp add: queue_ok_def)
    show "(if t = current s then Some (t_state tv') else st_of s t) = Some TASK_RUNNABLE" if "t \<in> set (runq s)" for t
      using that i(1,3) by (auto simp: queue_ok_def)
    show "t \<in> set (runq s) \<or> t = idle_task s"
      if "(if t = current s then Some (t_state tv') else st_of s t) = Some TASK_RUNNABLE" for t
      using that i(1) assms(4) by (auto simp: queue_ok_def split: if_splits)
  qed
  moreover have "family_ok (set_task (current s) tv' s)"
    using i(2) family_ok_set_task [OF assms(3,5,6)] by simp
  moreover have "st_of (set_task (current s) tv' s) (current s) = Some (t_state tv')" by (simp add: st_of_set_task)
  moreover have "\<forall>t. st_of (set_task (current s) tv' s) t = Some TASK_RUNNING \<longrightarrow> t = current s"
    using i(4) by (simp add: st_of_set_task)
  moreover have "st_of (set_task (current s) tv' s) (idle_task s) = st_of s (idle_task s)"
    using assms(2) by (simp add: st_of_set_task)
  moreover have "t_state tv' \<noteq> TASK_RUNNABLE" using assms(4) by auto
  ultimately show ?thesis
    unfolding sched_ready_def set_task_fields using i(5-7) assms(2) by (simp only:) blast
qed

lemma sched_block_spec:
  assumes "sched_inv s" and "current s \<noteq> idle_task s"
  shows "\<exists>s'. sched_block s = Some s' \<and> sched_inv s'"
proof -
  obtain tv where tv: "task_heap s (current s) = Some tv" using assms(1) by (auto simp: sched_inv_def)
  have "sched_ready (set_task (current s) (tv\<lparr>t_state := TASK_WAITING\<rparr>) s)"
    by (rule stopped_ready [OF assms tv]) simp_all
  from schedule_spec [OF this] tv show ?thesis by (auto simp: sched_block_def)
qed

lemma sys_exit_spec:
  assumes "sched_inv s" and "current s \<noteq> idle_task s"
  shows "\<exists>s'. sys_exit code s = Some s' \<and> sched_inv s'"
proof -
  obtain tv where tv: "task_heap s (current s) = Some tv" using assms(1) by (auto simp: sched_inv_def)
  have "sched_ready (set_task (current s) (tv\<lparr>t_state := TASK_ZOMBIE, t_exit_code := code\<rparr>) s)"
    by (rule stopped_ready [OF assms tv]) simp_all
  from schedule_spec [OF this] tv show ?thesis by (auto simp: sys_exit_def kill_current_def)
qed

lemma wake_up_spec:
  assumes "sched_inv s" and "wake_up t s = Some s'"
  shows "sched_inv s'"
proof -
  obtain tv where tv: "task_heap s t = Some tv" using assms(2) by (auto simp: wake_up_def split: bind_splits)
  show ?thesis
  proof (cases "t_state tv = TASK_WAITING")
    case True
    let ?s = "set_task t (tv\<lparr>t_state := TASK_RUNNABLE\<rparr>) s"
    have s': "s' = ?s\<lparr>runq := t # runq s\<rparr>" using assms(2) tv True by (simp add: wake_up_def)
    have i: "queue_ok s" "family_ok s" "st_of s (current s) = Some TASK_RUNNING"
      "\<forall>t. st_of s t = Some TASK_RUNNING \<longrightarrow> t = current s"
      "st_of s (idle_task s) \<in> {Some TASK_RUNNABLE, Some TASK_RUNNING}" using assms(1) by (simp_all add: sched_inv_def)
    have st: "st_of s' x = (if x = t then Some TASK_RUNNABLE else st_of s x)" for x by (simp add: s' set_task_def)
    have "t \<notin> set (runq s)" using i(1) tv True by (auto simp: queue_ok_def)
    moreover have fld: "runq s' = t # runq s" "idle_task s' = idle_task s" "current s' = current s" by (simp_all add: s')
    ultimately have "queue_ok s'"
      unfolding queue_ok_def st fld using i(1) by (auto simp: queue_ok_def)
    moreover have "family_ok s'" using i(2) tv by (simp add: s' family_ok_set_task)
    moreover have "current s \<noteq> t" "idle_task s \<noteq> t" using i(3,5) tv True by auto
    moreover have "irq_disabled s' = 0" "to_kill s' = None" using assms(1) by (simp_all add: sched_inv_def s')
    moreover have "x = current s" if "(if x = t then Some TASK_RUNNABLE else st_of s x) = Some TASK_RUNNING" for x
      using that i(4) by (simp split: if_splits)
    moreover have "task_heap s' (idle_task s) \<noteq> None"
      using \<open>idle_task s \<noteq> t\<close> assms(1) by (simp add: sched_inv_def s' set_task_def)
    ultimately show ?thesis
      unfolding sched_inv_def st fld using i(3,5) by (intro conjI) simp_all
  next
    case False
    then show ?thesis using assms tv by (simp add: wake_up_def)
  qed
qed

lemma create_task_spec:
  assumes "sched_inv s" and "task_heap s t = None" and "create_task t as s = Some (r, s')"
  shows "sched_inv s'"
proof (cases "available_task_slot s < 0")
  case True
  then show ?thesis using assms(1,3) by (simp add: create_task_def)
next
  case False
  have i: "queue_ok s" "family_ok s" "st_of s (current s) = Some TASK_RUNNING"
      "\<forall>t. st_of s t = Some TASK_RUNNING \<longrightarrow> t = current s" "irq_disabled s = 0" "to_kill s = None"
      "task_heap s (idle_task s) \<noteq> None" "st_of s (idle_task s) \<in> {Some TASK_RUNNABLE, Some TASK_RUNNING}"
    using assms(1) by (simp_all add: sched_inv_def)
  obtain cv where cv: "task_heap s (current s) = Some cv" "t_state cv = TASK_RUNNING" using i(3) by auto
  have tc: "t \<noteq> current s" "t \<noteq> idle_task s" using assms(2) cv(1) i(7) by auto
  define tv where "tv = \<lparr>t_state = TASK_RUNNABLE, t_pid = nat (available_task_slot s), t_exit_code = 0,
    t_parent = Some (current s), t_children = [], t_as = Some as, t_priority = t_priority cv\<rparr>"
  have h: "task_heap s' = (task_heap s)(t := Some tv, current s := Some (cv\<lparr>t_children := t # t_children cv\<rparr>))"
    and fld: "runq s' = t # runq s" "idle_task s' = idle_task s" "current s' = current s" "irq_disabled s' = 0" "to_kill s' = None"
    using assms(3) False cv(1) tc i(5,6)
    by (auto simp: create_task_def enqueue_task_def new_process_def set_task_def tv_def Let_def)
  have st: "st_of s' x = (if x = t then Some TASK_RUNNABLE else st_of s x)" for x
    using cv tc by (simp add: h tv_def)
  have "t \<notin> set (runq s)" using i(1) assms(2) by (auto simp: queue_ok_def)
  then have q: "queue_ok s'"
    unfolding queue_ok_def st fld using i(1) by (auto simp: queue_ok_def)
  have par': "par s' x = (if x = t then Some (current s) else par s x)" for x
    using cv(1) tc by (simp add: par_def h tv_def)
  have chl': "chl s' x = (if x = current s then insert t (chl s x) else if x = t then {} else chl s x)" for x
    using cv(1) tc by (simp add: chl_def h tv_def)
  have fam: "par s c = Some p \<longleftrightarrow> c \<in> chl s p" "par s c \<noteq> Some c" for c p using i(2) by (auto simp: family_ok_def)
  have t0: "par s t = None" "chl s t = {}" using assms(2) by (simp_all add: par_def chl_def)
  have "family_ok s'" unfolding family_ok_def
  proof (intro allI)
    fix c p
    show "(par s' c = Some p \<longleftrightarrow> c \<in> chl s' p) \<and> par s' c \<noteq> Some c"
      using fam(1) [of c p] fam(2) [of c] fam(1) [of t p] t0 tc(1) unfolding par' chl' by (auto split: if_splits)
  qed
  moreover have "x = current s" if "(if x = t then Some TASK_RUNNABLE else st_of s x) = Some TASK_RUNNING" for x
    using that i(4) by (simp split: if_splits)
  moreover have "task_heap s' (idle_task s) \<noteq> None" using i(7) tc(2) by (simp add: h)
  ultimately show ?thesis
    unfolding sched_inv_def st fld using q i(3,8) tc by (intro conjI) simp_all
qed

section \<open>Properties\<close>

text \<open>In a state with the invariant (exactly the runnable tasks are queued, each once, and
  one task runs) a call of \<^verbatim>\<open>schedule\<close>, a wait and an exit of the running task return without
  a panic, and the invariant holds again: no runnable task is ever lost, a dead task is never
  queued, and interrupts are enabled again.\<close>

theorem schedule_keeps_invariant:
  assumes "sched_inv s"
  shows "(\<exists>s'. schedule s = Some s' \<and> sched_inv s') \<and>
    (current s \<noteq> idle_task s \<longrightarrow> (\<exists>s'. sched_block s = Some s' \<and> sched_inv s') \<and> (\<exists>s'. sys_exit code s = Some s' \<and> sched_inv s'))"
  using schedule_spec [OF sched_inv_ready [OF assms]] sched_block_spec [OF assms] sys_exit_spec [OF assms, of code] by blast

definition demo_task :: "task_state \<Rightarrow> nat \<Rightarrow> task" where
  "demo_task st pid = \<lparr>t_state = st, t_pid = pid, t_exit_code = 0, t_parent = None, t_children = [], t_as = None, t_priority = 0\<rparr>"

definition demo_sched :: sched where
  "demo_sched = \<lparr>runq = [2, 3], tasks = [0 \<mapsto> 0, 1 \<mapsto> 1, 2 \<mapsto> 2, 3 \<mapsto> 3],
     task_heap = [0 \<mapsto> demo_task TASK_RUNNABLE 0, 1 \<mapsto> demo_task TASK_RUNNING 1, 2 \<mapsto> demo_task TASK_RUNNABLE 2,
                  3 \<mapsto> demo_task TASK_RUNNABLE 3],
     idle_task = 0, current = 1, to_kill = None, current_pid = 1, irq_disabled = 0, released = []\<rparr>"

lemma demo_sched_inv: "sched_inv demo_sched"
  by (auto simp: sched_inv_def queue_ok_def family_ok_def par_def chl_def demo_sched_def demo_task_def split: if_splits)

theorem schedule_keeps_invariant_witness: "\<exists>s'. schedule demo_sched = Some s' \<and> sched_inv s'"
  using schedule_keeps_invariant [OF demo_sched_inv] by blast

text \<open>C35. Every state the system reaches by its steps (yielding, waiting, waking, exiting and
  creating tasks) from a state with the invariant has it again.\<close>

theorem sched_reachable_inv:
  assumes "sched_step\<^sup>*\<^sup>* s s'" and "sched_inv s"
  shows "sched_inv s'"
  using assms
proof (induction rule: rtranclp_induct)
  case (step y z)
  note inv = step.IH [OF step.prems]
  from step.hyps(2) show ?case
  proof (cases rule: sched_step.cases)
    case yield
    then show ?thesis using schedule_spec [OF sched_inv_ready [OF inv]] by auto
  next
    case block
    then show ?thesis using sched_block_spec [OF inv] by auto
  next
    case (exit code)
    then show ?thesis using sys_exit_spec [OF inv, of code] by auto
  next
    case (wake t)
    then show ?thesis using wake_up_spec [OF inv] by blast
  next
    case (create t as r)
    then show ?thesis using create_task_spec [OF inv] by blast
  qed
qed

theorem sched_reachable_inv_witness:
  "\<exists>s1 s2. sys_exit 7 demo_sched = Some s1 \<and> schedule s1 = Some s2 \<and> current s2 = 3 \<and> sched_inv s2"
proof -
  obtain s1 s2 where r: "sys_exit 7 demo_sched = Some s1" "schedule s1 = Some s2" "current s2 = 3"
    by (simp add: sys_exit_def kill_current_def schedule_def irq_disable_def irq_enable_def after_switch_def switch_to_def
      kill_process_def set_task_def demo_sched_def demo_task_def Let_def)
  have "sched_step demo_sched s1" by (rule sched_step.exit [OF _ r(1)]) (simp add: demo_sched_def)
  with sched_step.yield [OF r(2)] have "sched_step\<^sup>*\<^sup>* demo_sched s2" by simp
  from sched_reachable_inv [OF this demo_sched_inv] r show ?thesis by blast
qed

fun yields :: "nat \<Rightarrow> sched \<Rightarrow> sched option" where
  "yields 0 s = Some s"
| "yields (Suc k) s = do { s \<leftarrow> schedule s; yields k s }"

lemma yields_spec:
  assumes "sched_inv s" and "runq s = xs @ t # ys"
  shows "\<exists>s'. yields (length xs + 1) s = Some s' \<and> sched_inv s' \<and> current s' = t \<and> runq s' = ys @ current s # xs"
  using assms
proof (induction xs arbitrary: s ys)
  case Nil
  then have "st_of s (current s) = Some TASK_RUNNING" by (simp add: sched_inv_def)
  with schedule_spec [OF sched_inv_ready [OF Nil.prems(1)]] Nil.prems(2) show ?case by auto
next
  case (Cons x xs)
  have "st_of s (current s) = Some TASK_RUNNING" using Cons.prems by (simp add: sched_inv_def)
  with schedule_spec [OF sched_inv_ready [OF Cons.prems(1)]] Cons.prems(2) obtain s1 where
    s1: "schedule s = Some s1" "sched_inv s1" "current s1 = x" "runq s1 = xs @ t # (ys @ [current s])" by auto
  from Cons.IH [OF s1(2,4)] s1(1,3) show ?case by auto
qed

text \<open>C36. Round robin: while tasks only yield, the task at position \<open>k\<close> of the run queue runs
  after \<open>k + 1\<close> calls of \<^verbatim>\<open>schedule\<close>, and the tasks that yielded are behind it in order.\<close>

theorem round_robin:
  assumes "sched_inv s" and "k < length (runq s)"
  shows "\<exists>s'. yields (k + 1) s = Some s' \<and> sched_inv s' \<and> current s' = runq s ! k \<and>
    runq s' = drop (k + 1) (runq s) @ current s # take k (runq s)"
  using yields_spec [OF assms(1) id_take_nth_drop [OF assms(2)]] assms(2) by simp

theorem round_robin_witness: "\<exists>s'. yields 2 demo_sched = Some s' \<and> current s' = 3 \<and> runq s' = [1, 2]"
  using round_robin [OF demo_sched_inv, of 1] by (auto simp: demo_sched_def numeral_2_eq_2)

end
