(* ===== verification/Ipc.thy ===== *)
theory Ipc
  imports Sched FdTable
begin

text \<open>
  Message passing: the system calls of \<^verbatim>\<open>sys/ipc/port.c\<close>, the user-space ports of
  \<^verbatim>\<open>sys/ipc/uport.c\<close> and the interrupt service of \<^verbatim>\<open>sys/services/int.c\<close> with the
  dispatch of \<^verbatim>\<open>sys/interrupt.c\<close>, on top of the scheduler's state. Every structure has a heap
  indexed by names; the untyped \<^verbatim>\<open>data\<close> pointer of a request is a sum of the pointers it is used
  for, and reading it as something else, following NULL, or indexing a table out of its bounds is a
  fault (\<open>None\<close>). A method table is its name; the call through a missing method is what the
  code checks for.

  The operations on user memory (validating a range, taking the pages of a message, mapping them,
  copying a result out) are given by an environment: what they answer is an argument.
\<close>

section \<open>State\<close>

datatype req_type = REQ_COOKIE | REQ_REQUEST | REQ_PORT | REQ_PORT_REQ | REQ_PORT_COOKIE

datatype req_state = REQ_SERVER | REQ_PENDING | REQ_ESTABLISHED | REQ_CLOSED

datatype rops = Uport_server_rops | Uport_client_rops | Int_rops

datatype pops = Uport_pops | Int_pops

datatype rdata = DNull | DUport nat | DUpreq nat | DCookie nat | DMsg nat | DReq nat | DInt nat

record request =
  r_owner :: nat
  r_rops :: "rops option"
  r_data :: rdata
  r_type :: req_type
  r_state :: req_state
  waited_rw :: nat

record uport =
  up_incoming :: "nat list"
  up_port_number :: nat

record uport_req =
  upr_clients :: "nat list"
  upr_incoming :: "nat list"

record uport_cookie =
  uc_client_req :: "nat option"
  uc_response :: "u64 option"
  uc_owner :: nat

record message =
  m_plh :: "u64 option"
  m_client_req :: nat

record ipc = sched +
  fds_of :: "nat \<Rightarrow> nat fdtable"
  astable_of :: "nat \<Rightarrow> nat fdtable"
  port_tab :: "nat \<Rightarrow> pops option"
  uport_tab :: "nat \<Rightarrow> nat option"
  port_wait_list :: "nat \<Rightarrow> nat list"
  int_wait_list :: "nat \<Rightarrow> nat list"
  req_heap :: "nat \<Rightarrow> request option"
  uport_heap :: "nat \<Rightarrow> uport option"
  upreq_heap :: "nat \<Rightarrow> uport_req option"
  cookie_heap :: "nat \<Rightarrow> uport_cookie option"
  msg_heap :: "nat \<Rightarrow> message option"
  ipc_next :: nat

text \<open>The answers of the memory manager: \<open>ue_invalid\<close> is \<^verbatim>\<open>validate_range\<close>, \<open>ue_from\<close> is
  \<^verbatim>\<open>map_from_user\<close> (a page list, or an error), \<open>ue_to\<close> is \<^verbatim>\<open>map_to_user\<close> with the offset added,
  \<open>ue_copy\<close> is the result of \<^verbatim>\<open>copy_to_user_simple\<close>, and \<open>ue_read_int\<close> the number
  \<^verbatim>\<open>copy_from_user_simple\<close> reads.\<close>

record uenv =
  ue_invalid :: "u64 \<Rightarrow> u64 \<Rightarrow> bool"
  ue_from :: "u64 \<Rightarrow> u64 \<Rightarrow> u64 option"
  ue_to :: "u64 \<Rightarrow> int"
  ue_copy :: int
  ue_read_int :: "u64 \<Rightarrow> int option"

definition MAX_PORT :: int where "MAX_PORT = 4096"

definition ENOENT :: int where "ENOENT = 2"
definition EBADF :: int where "EBADF = 9"
definition EAGAIN :: int where "EAGAIN = 11"
definition ENOMEM :: int where "ENOMEM = 12"
definition EFAULT :: int where "EFAULT = 14"
definition EBUSY :: int where "EBUSY = 16"
definition EINVAL :: int where "EINVAL = 22"
definition EMFILE :: int where "EMFILE = 24"
definition EPIPE :: int where "EPIPE = 32"

lemmas errno_defs = ENOENT_def EBADF_def EAGAIN_def ENOMEM_def EFAULT_def EBUSY_def EINVAL_def EMFILE_def EPIPE_def

section \<open>Access\<close>

abbreviation cur_fds :: "ipc \<Rightarrow> nat fdtable" where
  "cur_fds s \<equiv> fds_of s (current s)"

definition set_fds :: "nat fdtable \<Rightarrow> ipc \<Rightarrow> ipc" where
  "set_fds tb s = s\<lparr>fds_of := (fds_of s)(current s := tb)\<rparr>"

definition set_file :: "int \<Rightarrow> nat option \<Rightarrow> ipc \<Rightarrow> ipc" where
  "set_file fd v s = set_fds ((cur_fds s)\<lparr>fd_file := (fd_file (cur_fds s))(nat fd := v)\<rparr>) s"

definition set_req :: "nat \<Rightarrow> request \<Rightarrow> ipc \<Rightarrow> ipc" where
  "set_req r rv s = s\<lparr>req_heap := (req_heap s)(r := Some rv)\<rparr>"

definition free_req :: "nat \<Rightarrow> ipc \<Rightarrow> ipc" where
  "free_req r s = s\<lparr>req_heap := (req_heap s)(r := None)\<rparr>"

definition alloc :: "ipc \<Rightarrow> nat \<times> ipc" where
  "alloc s = (ipc_next s, s\<lparr>ipc_next := ipc_next s + 1\<rparr>)"

text \<open>A request fresh from the pool: the fields the code does not set hold no valid pointer.\<close>

definition new_req :: "req_type \<Rightarrow> ipc \<Rightarrow> nat \<times> ipc" where
  "new_req ty s =
     (let (r, s) = alloc s
      in (r, set_req r \<lparr>r_owner = current s, r_rops = None, r_data = DNull, r_type = ty,
                        r_state = REQ_SERVER, waited_rw = 0\<rparr> s))"

definition the_upreq :: "rdata \<Rightarrow> ipc \<Rightarrow> (nat \<times> uport_req) option" where
  "the_upreq d s = (case d of DUpreq u \<Rightarrow> do { uv \<leftarrow> upreq_heap s u; Some (u, uv) } | _ \<Rightarrow> None)"

definition the_uport :: "rdata \<Rightarrow> ipc \<Rightarrow> (nat \<times> uport) option" where
  "the_uport d s = (case d of DUport u \<Rightarrow> do { uv \<leftarrow> uport_heap s u; Some (u, uv) } | _ \<Rightarrow> None)"

definition the_cookie :: "rdata \<Rightarrow> ipc \<Rightarrow> (nat \<times> uport_cookie) option" where
  "the_cookie d s = (case d of DCookie c \<Rightarrow> do { cv \<leftarrow> cookie_heap s c; Some (c, cv) } | _ \<Rightarrow> None)"

definition the_msg :: "rdata \<Rightarrow> ipc \<Rightarrow> (nat \<times> message) option" where
  "the_msg d s = (case d of DMsg m \<Rightarrow> do { mv \<leftarrow> msg_heap s m; Some (m, mv) } | _ \<Rightarrow> None)"

definition the_sreq :: "rdata \<Rightarrow> ipc \<Rightarrow> (nat \<times> request) option" where
  "the_sreq d s = (case d of DReq r \<Rightarrow> do { rv \<leftarrow> req_heap s r; Some (r, rv) } | _ \<Rightarrow> None)"

definition wake_if :: "bool \<Rightarrow> nat \<Rightarrow> ipc \<Rightarrow> ipc option" where
  "wake_if b t s = (if b then wake_up t s else Some s)"

definition new_msg :: "u64 option \<Rightarrow> nat \<Rightarrow> ipc \<Rightarrow> nat \<times> ipc" where
  "new_msg plh req s =
     (let (m, s) = alloc s in (m, s\<lparr>msg_heap := (msg_heap s)(m := Some \<lparr>m_plh = plh, m_client_req = req\<rparr>)\<rparr>))"

text \<open>The pages of a message: \<open>Some None\<close> when there is no buffer, \<open>None\<close> on an error.\<close>

definition take_pages :: "uenv \<Rightarrow> u64 \<Rightarrow> u64 \<Rightarrow> u64 option option" where
  "take_pages env ln buf =
     (if buf \<noteq> 0 \<or> ln \<noteq> 0 then (case ue_from env buf ln of Some p \<Rightarrow> Some (Some p) | None \<Rightarrow> None) else Some None)"

section \<open>User-space ports: client side\<close>

definition uport_connect :: "uenv \<Rightarrow> nat \<Rightarrow> nat \<Rightarrow> u64 \<Rightarrow> u64 \<Rightarrow> ipc \<Rightarrow> (int \<times> ipc) option" where
  "uport_connect env port req ln buf s =
     (case take_pages env ln buf of
        None \<Rightarrow> Some (- EFAULT, s)
      | Some plh \<Rightarrow> do {
          let (m, s) = new_msg plh req s;
          sr \<leftarrow> uport_tab s port;
          sv \<leftarrow> req_heap s sr;
          (u, uv) \<leftarrow> the_uport (r_data sv) s;
          rv \<leftarrow> req_heap s req;
          let s = set_req req (rv\<lparr>r_data := DNull, r_rops := Some Uport_client_rops, r_state := REQ_PENDING\<rparr>) s;
          let s = s\<lparr>uport_heap := (uport_heap s)(u := Some (uv\<lparr>up_incoming := up_incoming uv @ [m]\<rparr>))\<rparr>;
          s \<leftarrow> wake_if (waited_rw sv mod 2 = 1) (r_owner sv) s;
          Some (0, s) })"

definition uport_request :: "uenv \<Rightarrow> nat \<Rightarrow> nat \<Rightarrow> u64 \<Rightarrow> u64 \<Rightarrow> ipc \<Rightarrow> (int \<times> ipc) option" where
  "uport_request env req reqc ln buf s = do {
     rv \<leftarrow> req_heap s req;
     if r_state rv = REQ_CLOSED then Some (- EPIPE, s)
     else if r_state rv = REQ_PENDING then Some (- EAGAIN, s)
     else do {
       (sr, sv) \<leftarrow> the_sreq (r_data rv) s;
       case take_pages env ln buf of
         None \<Rightarrow> Some (- EFAULT, s)
       | Some plh \<Rightarrow> do {
           let (m, s) = new_msg plh reqc s;
           cv \<leftarrow> req_heap s reqc;
           let s = set_req reqc (cv\<lparr>r_data := DMsg m, r_state := REQ_PENDING, r_rops := Some Uport_client_rops\<rparr>) s;
           (u, uv) \<leftarrow> the_upreq (r_data sv) s;
           let s = s\<lparr>upreq_heap := (upreq_heap s)(u := Some (uv\<lparr>upr_incoming := upr_incoming uv @ [m]\<rparr>))\<rparr>;
           s \<leftarrow> wake_if (waited_rw sv mod 2 = 1) (r_owner sv) s;
           Some (0, s) } } }"

text \<open>The third component is the buffer address handed to the caller. (Here and in the closing functions
  \<^verbatim>\<open>page_list_free\<close>, which gives back the references of the pages of a message, is a part of the
  memory manager and leaves this state alone; for a page the sender never touched it follows NULL,
  which is not seen here.)\<close>

definition uport_get_response :: "uenv \<Rightarrow> nat \<Rightarrow> ipc \<Rightarrow> (int \<times> int \<times> ipc) option" where
  "uport_get_response env req s = do {
     rv \<leftarrow> req_heap s req;
     if r_type rv \<noteq> REQ_COOKIE then Some (- EBADF, 0, s)
     else if r_state rv = REQ_CLOSED then Some (0, 0, s)
     else if r_state rv = REQ_PENDING then Some (- EAGAIN, 0, s)
     else do {
       (c, cv) \<leftarrow> the_cookie (r_data rv) s;
       case uc_response cv of
         None \<Rightarrow> Some (- EAGAIN, 0, s)
       | Some plh \<Rightarrow>
           let vaddr = ue_to env plh in
           if vaddr < 0 then Some (- ENOMEM, 0, s)
           else Some (0, vaddr, s\<lparr>cookie_heap := (cookie_heap s)(c := None)\<rparr>) } }"

definition uport_dup :: "nat \<Rightarrow> nat \<Rightarrow> ipc \<Rightarrow> (int \<times> ipc) option" where
  "uport_dup old_req nreq s = do {
     ov \<leftarrow> req_heap s old_req;
     if r_type ov \<noteq> REQ_REQUEST then Some (- EBADF, s)
     else if r_state ov \<noteq> REQ_ESTABLISHED then Some (- EAGAIN, s)
     else do {
       nv \<leftarrow> req_heap s nreq;
       let s = set_req nreq (nv\<lparr>r_data := r_data ov, r_state := r_state ov, r_rops := r_rops ov\<rparr>) s;
       (sr, sv) \<leftarrow> the_sreq (r_data ov) s;
       (u, uv) \<leftarrow> the_upreq (r_data sv) s;
       Some (0, s\<lparr>upreq_heap := (upreq_heap s)(u := Some (uv\<lparr>upr_clients := nreq # upr_clients uv\<rparr>))\<rparr>) } }"

text \<open>Unlinking a message or a client from the list it is in.\<close>

definition unlink_msg :: "nat \<Rightarrow> ipc \<Rightarrow> ipc" where
  "unlink_msg m s =
     s\<lparr>uport_heap := (\<lambda>u. map_option (\<lambda>uv. uv\<lparr>up_incoming := remove1 m (up_incoming uv)\<rparr>) (uport_heap s u)),
       upreq_heap := (\<lambda>u. map_option (\<lambda>uv. uv\<lparr>upr_incoming := remove1 m (upr_incoming uv)\<rparr>) (upreq_heap s u))\<rparr>"

definition unlink_client :: "nat \<Rightarrow> ipc \<Rightarrow> ipc" where
  "unlink_client r s =
     s\<lparr>upreq_heap := (\<lambda>u. map_option (\<lambda>uv. uv\<lparr>upr_clients := remove1 r (upr_clients uv)\<rparr>) (upreq_heap s u))\<rparr>"

text \<open>A request that the server's side has closed is in no list any more, or was never put in one; its links
  are stale or were never set, and \<^verbatim>\<open>list_del\<close> follows them: a fault here.\<close>

definition uport_user_close :: "nat \<Rightarrow> ipc \<Rightarrow> ipc option" where
  "uport_user_close req s = do {
     rv \<leftarrow> req_heap s req;
     if r_state rv = REQ_PENDING then do {
       (m, mv) \<leftarrow> the_msg (r_data rv) s;
       let s = unlink_msg m s;
       Some (s\<lparr>msg_heap := (msg_heap s)(m := None)\<rparr>) }
     else case r_type rv of
       REQ_REQUEST \<Rightarrow> do { guard (r_state rv \<noteq> REQ_CLOSED); Some (unlink_client req s) }
     | REQ_COOKIE \<Rightarrow> do {
         (c, cv) \<leftarrow> the_cookie (r_data rv) s;
         Some (if uc_response cv \<noteq> None then s\<lparr>cookie_heap := (cookie_heap s)(c := None)\<rparr>
               else s\<lparr>cookie_heap := (cookie_heap s)(c := Some (cv\<lparr>uc_client_req := None\<rparr>))\<rparr>) }
     | _ \<Rightarrow> None }"

definition uport_user_available :: "nat \<Rightarrow> nat \<Rightarrow> ipc \<Rightarrow> bool option" where
  "uport_user_available req rw s = do {
     rv \<leftarrow> req_heap s req;
     if r_state rv = REQ_CLOSED then Some True
     else if r_type rv = REQ_REQUEST then Some (rw = 2 \<and> r_state rv = REQ_ESTABLISHED)
     else do {
       guard (r_type rv = REQ_COOKIE);
       if rw = 2 then Some False
       else if r_state rv = REQ_PENDING then Some False
       else do { (c, cv) \<leftarrow> the_cookie (r_data rv) s; Some (uc_response cv \<noteq> None) } } }"

section \<open>User-space ports: server side\<close>

definition uport_server_available :: "nat \<Rightarrow> nat \<Rightarrow> ipc \<Rightarrow> bool option" where
  "uport_server_available req rw s = do {
     rv \<leftarrow> req_heap s req;
     if rw = 2 then
       if r_type rv \<noteq> REQ_PORT_COOKIE then Some False
       else do { (c, cv) \<leftarrow> the_cookie (r_data rv) s; guard (uc_response cv = None); Some True }
     else case r_type rv of
       REQ_PORT_COOKIE \<Rightarrow> Some False
     | REQ_PORT \<Rightarrow> do { (u, uv) \<leftarrow> the_uport (r_data rv) s; Some (up_incoming uv \<noteq> []) }
     | REQ_PORT_REQ \<Rightarrow> do { (u, uv) \<leftarrow> the_upreq (r_data rv) s; Some (upr_incoming uv \<noteq> []) }
     | _ \<Rightarrow> None }"

fun close_port_msgs :: "nat list \<Rightarrow> ipc \<Rightarrow> ipc option" where
  "close_port_msgs [] s = Some s"
| "close_port_msgs (mi # mis) s = do {
     mv \<leftarrow> msg_heap s mi;
     cv \<leftarrow> req_heap s (m_client_req mv);
     let s = set_req (m_client_req mv) (cv\<lparr>r_state := REQ_CLOSED\<rparr>) s;
     s \<leftarrow> wake_if (waited_rw cv \<noteq> 0) (r_owner cv) s;
     close_port_msgs mis (s\<lparr>msg_heap := (msg_heap s)(mi := None)\<rparr>) }"

fun close_clients :: "nat list \<Rightarrow> ipc \<Rightarrow> ipc option" where
  "close_clients [] s = Some s"
| "close_clients (ri # ris) s = do {
     rv \<leftarrow> req_heap s ri;
     let s = set_req ri (rv\<lparr>r_state := REQ_CLOSED\<rparr>) s;
     s \<leftarrow> wake_if (waited_rw rv \<noteq> 0) (r_owner rv) (unlink_client ri s);
     close_clients ris s }"

fun drop_msgs :: "nat list \<Rightarrow> ipc \<Rightarrow> ipc option" where
  "drop_msgs [] s = Some s"
| "drop_msgs (mi # mis) s = do {
     mv \<leftarrow> msg_heap s mi;
     drop_msgs mis (s\<lparr>msg_heap := (msg_heap s)(mi := None)\<rparr>) }"

definition deregister_port :: "nat \<Rightarrow> ipc \<Rightarrow> ipc" where
  "deregister_port n s = s\<lparr>port_tab := (port_tab s)(n := None)\<rparr>"

definition uport_server_close :: "nat \<Rightarrow> ipc \<Rightarrow> ipc option" where
  "uport_server_close req s = do {
     rv \<leftarrow> req_heap s req;
     case r_type rv of
       REQ_PORT \<Rightarrow> do {
         (u, uv) \<leftarrow> the_uport (r_data rv) s;
         s \<leftarrow> close_port_msgs (up_incoming uv) s;
         let s = deregister_port (up_port_number uv) s;
         let s = s\<lparr>uport_tab := (uport_tab s)(up_port_number uv := None)\<rparr>;
         Some (s\<lparr>uport_heap := (uport_heap s)(u := None)\<rparr>) }
     | REQ_PORT_REQ \<Rightarrow> do {
         (u, uv) \<leftarrow> the_upreq (r_data rv) s;
         s \<leftarrow> close_clients (upr_clients uv) s;
         s \<leftarrow> drop_msgs (upr_incoming uv) s;
         Some (s\<lparr>upreq_heap := (upreq_heap s)(u := None)\<rparr>) }
     | REQ_PORT_COOKIE \<Rightarrow> do {
         (c, cv) \<leftarrow> the_cookie (r_data rv) s;
         s \<leftarrow> (case uc_client_req cv of
                 None \<Rightarrow> Some s
               | Some cr \<Rightarrow> do {
                   crv \<leftarrow> req_heap s cr;
                   let s = set_req cr (crv\<lparr>r_state := REQ_CLOSED\<rparr>) s;
                   wake_if (waited_rw crv \<noteq> 0) (r_owner crv) s });
         guard (uc_response cv = None);
         Some (s\<lparr>cookie_heap := (cookie_heap s)(c := None)\<rparr>) }
     | _ \<Rightarrow> None }"

section \<open>The interrupt service\<close>

definition int_port_connect :: "uenv \<Rightarrow> nat \<Rightarrow> u64 \<Rightarrow> u64 \<Rightarrow> ipc \<Rightarrow> (int \<times> ipc) option" where
  "int_port_connect env req ln buf s =
     (if ln \<noteq> 4 then Some (- EINVAL, s)
      else case ue_read_int env buf of
        None \<Rightarrow> Some (- EFAULT, s)
      | Some n \<Rightarrow>
          if n < 33 \<or> n > 255 then Some (- EINVAL, s)
          else do {
            rv \<leftarrow> req_heap s req;
            let s = set_req req (rv\<lparr>r_data := DInt (nat n), r_rops := Some Int_rops\<rparr>) s;
            Some (0, s\<lparr>int_wait_list := (int_wait_list s)(nat n := req # int_wait_list s (nat n))\<rparr>) })"

text \<open>Bit 256 of the data word says that an interrupt arrived; asking for it resets it.\<close>

definition int_port_available :: "nat \<Rightarrow> nat \<Rightarrow> ipc \<Rightarrow> (bool \<times> ipc) option" where
  "int_port_available req rw s =
     (if rw = 2 then Some (False, s)
      else do {
        rv \<leftarrow> req_heap s req;
        case r_data rv of
          DInt x \<Rightarrow> Some (x div 256 mod 2 = 1, set_req req (rv\<lparr>r_data := DInt (x mod 256)\<rparr>) s)
        | _ \<Rightarrow> None })"

definition int_port_dup :: "nat \<Rightarrow> nat \<Rightarrow> ipc \<Rightarrow> (int \<times> ipc) option" where
  "int_port_dup old_req nreq s = do {
     ov \<leftarrow> req_heap s old_req;
     nv \<leftarrow> req_heap s nreq;
     case r_data ov of
       DInt x \<Rightarrow>
         let n = x mod 256; s = set_req nreq (nv\<lparr>r_data := DInt n, r_rops := Some Int_rops\<rparr>) s
         in Some (0, s\<lparr>int_wait_list := (int_wait_list s)(n := nreq # int_wait_list s n)\<rparr>)
     | _ \<Rightarrow> None }"

definition int_port_drop :: "nat \<Rightarrow> ipc \<Rightarrow> ipc" where
  "int_port_drop req s = s\<lparr>int_wait_list := (\<lambda>n. remove1 req (int_wait_list s n))\<rparr>"

fun int_wake :: "nat list \<Rightarrow> ipc \<Rightarrow> ipc option" where
  "int_wake [] s = Some s"
| "int_wake (ri # ris) s = do {
     rv \<leftarrow> req_heap s ri;
     s \<leftarrow> wake_if (waited_rw rv mod 2 = 1) (r_owner rv) s;
     case r_data rv of
       DInt x \<Rightarrow> int_wake ris (set_req ri (rv\<lparr>r_data := DInt (x mod 256 + 256)\<rparr>) s)
     | _ \<Rightarrow> None }"

text \<open>The kernel's own handlers \<open>htable\<close> (indexed from 0, vector 32 is entry 0) and \<open>eoitable\<close>
  are arguments: a handler transforms the state and answers whether to reschedule.\<close>

definition int_handler ::
  "(nat \<Rightarrow> (nat \<Rightarrow> ipc \<Rightarrow> bool \<times> ipc) option) \<Rightarrow> (nat \<Rightarrow> (nat \<Rightarrow> ipc \<Rightarrow> bool \<times> ipc) option) \<Rightarrow> nat \<Rightarrow> ipc \<Rightarrow> (bool \<times> ipc) option" where
  "int_handler htable eoitable vector s = do {
     guard (32 \<le> vector \<and> vector < 256);
     let (ret, s) = (case htable (vector - 32) of Some fn \<Rightarrow> fn vector s | None \<Rightarrow> (False, s));
     s \<leftarrow> int_wake (int_wait_list s vector) s;
     let s = (case eoitable vector of Some fn \<Rightarrow> snd (fn vector s) | None \<Rightarrow> s);
     Some (ret, s) }"

section \<open>Calls through the method tables\<close>

definition pops_connect :: "uenv \<Rightarrow> pops \<Rightarrow> nat \<Rightarrow> nat \<Rightarrow> u64 \<Rightarrow> u64 \<Rightarrow> ipc \<Rightarrow> (int \<times> ipc) option" where
  "pops_connect env po n req ln buf s =
     (case po of Uport_pops \<Rightarrow> uport_connect env n req ln buf s | Int_pops \<Rightarrow> int_port_connect env req ln buf s)"

definition rops_request :: "rops \<Rightarrow> (uenv \<Rightarrow> nat \<Rightarrow> nat \<Rightarrow> u64 \<Rightarrow> u64 \<Rightarrow> ipc \<Rightarrow> (int \<times> ipc) option) option" where
  "rops_request ro = (case ro of Uport_client_rops \<Rightarrow> Some uport_request | _ \<Rightarrow> None)"

definition rops_get_response :: "rops \<Rightarrow> (uenv \<Rightarrow> nat \<Rightarrow> ipc \<Rightarrow> (int \<times> int \<times> ipc) option) option" where
  "rops_get_response ro = (case ro of Uport_client_rops \<Rightarrow> Some uport_get_response | _ \<Rightarrow> None)"

definition rops_drop :: "rops \<Rightarrow> nat \<Rightarrow> ipc \<Rightarrow> ipc option" where
  "rops_drop ro req s =
     (case ro of
        Uport_server_rops \<Rightarrow> uport_server_close req s
      | Uport_client_rops \<Rightarrow> uport_user_close req s
      | Int_rops \<Rightarrow> Some (int_port_drop req s))"

definition rops_dup :: "rops \<Rightarrow> (nat \<Rightarrow> nat \<Rightarrow> ipc \<Rightarrow> (int \<times> ipc) option) option" where
  "rops_dup ro =
     (case ro of
        Uport_client_rops \<Rightarrow> Some uport_dup
      | Int_rops \<Rightarrow> Some int_port_dup
      | Uport_server_rops \<Rightarrow> None)"

definition rops_available :: "rops \<Rightarrow> nat \<Rightarrow> nat \<Rightarrow> ipc \<Rightarrow> (bool \<times> ipc) option" where
  "rops_available ro req rw s =
     (case ro of
        Uport_server_rops \<Rightarrow> do { b \<leftarrow> uport_server_available req rw s; Some (b, s) }
      | Uport_client_rops \<Rightarrow> do { b \<leftarrow> uport_user_available req rw s; Some (b, s) }
      | Int_rops \<Rightarrow> int_port_available req rw s)"

section \<open>System calls of port.c\<close>

text \<open>The check of a descriptor in most system calls: \<open>Some None\<close> is a bad descriptor. The number
  \<open>max_fds\<close> passes the comparison and reads outside the table.\<close>

definition lookup_fd :: "int \<Rightarrow> ipc \<Rightarrow> nat option option" where
  "lookup_fd rd s =
     (if rd < 0 \<or> rd > int (max_fds (cur_fds s)) then Some None else fdtable_get (cur_fds s) (nat rd))"

definition sys_port_connect :: "uenv \<Rightarrow> int \<Rightarrow> u64 \<Rightarrow> u64 \<Rightarrow> ipc \<Rightarrow> (int \<times> ipc) option" where
  "sys_port_connect env n ln buf s = do {
     guard (0 \<le> n \<and> n < MAX_PORT);
     case port_tab s (nat n) of
       None \<Rightarrow> Some (- ENOENT, s)
     | Some po \<Rightarrow> do {
         let s = irq_disable s;
         if (buf \<noteq> 0 \<or> ln \<noteq> 0) \<and> ue_invalid env buf ln then do { s \<leftarrow> irq_enable s; Some (- EINVAL, s) }
         else do {
           let (req, s) = new_req REQ_REQUEST s;
           let (fd, tb) = fdtable_insert (cur_fds s) req;
           if fd < 0 then do { s \<leftarrow> irq_enable (free_req req s); Some (- EMFILE, s) }
           else do {
             s \<leftarrow> irq_enable (set_fds tb s);
             (ret, s) \<leftarrow> pops_connect env po (nat n) req ln buf s;
             if ret \<noteq> 0 then Some (ret, set_file fd None (free_req req s))
             else Some (fd, s) } } } }"

definition sys_request :: "uenv \<Rightarrow> int \<Rightarrow> u64 \<Rightarrow> u64 \<Rightarrow> ipc \<Rightarrow> (int \<times> ipc) option" where
  "sys_request env rd ln buf s = do {
     let s = irq_disable s;
     f \<leftarrow> lookup_fd rd s;
     case f of
       None \<Rightarrow> do { s \<leftarrow> irq_enable s; Some (- EINVAL, s) }
     | Some req \<Rightarrow> do {
         rv \<leftarrow> req_heap s req;
         if r_type rv \<noteq> REQ_REQUEST then do { s \<leftarrow> irq_enable s; Some (- EBADF, s) }
         else do {
           ro \<leftarrow> r_rops rv;
           case rops_request ro of
             None \<Rightarrow> do { s \<leftarrow> irq_enable s; Some (- EBADF, s) }
           | Some fn \<Rightarrow>
               if (ln \<noteq> 0 \<or> buf \<noteq> 0) \<and> ue_invalid env buf ln then do { s \<leftarrow> irq_enable s; Some (- EFAULT, s) }
               else do {
                 let (reqc, s) = new_req REQ_COOKIE s;
                 let (fd, tb) = fdtable_insert (cur_fds s) reqc;
                 if fd < 0 then do { s \<leftarrow> irq_enable (free_req reqc s); Some (- EMFILE, s) }
                 else do {
                   (ret, s) \<leftarrow> fn env req reqc ln buf (set_fds tb s);
                   if ret \<noteq> 0 then do {
                     s \<leftarrow> irq_enable (set_file fd None (free_req req s));
                     Some (ret, s) }
                   else do { s \<leftarrow> irq_enable s; Some (fd, s) } } } } } }"

text \<open>The second component is the buffer address of the response that is copied out.\<close>

definition sys_get_response :: "uenv \<Rightarrow> int \<Rightarrow> u64 \<Rightarrow> ipc \<Rightarrow> (int \<times> int \<times> ipc) option" where
  "sys_get_response env cookie res s = do {
     let s = irq_disable s;
     if ue_invalid env res 16 then do { s \<leftarrow> irq_enable s; Some (- EFAULT, 0, s) }
     else do {
       f \<leftarrow> lookup_fd cookie s;
       case f of
         None \<Rightarrow> do { s \<leftarrow> irq_enable s; Some (- EBADF, 0, s) }
       | Some req \<Rightarrow> do {
           rv \<leftarrow> req_heap s req;
           ro \<leftarrow> r_rops rv;
           case rops_get_response ro of
             None \<Rightarrow> do { s \<leftarrow> irq_enable s; Some (- EBADF, 0, s) }
           | Some fn \<Rightarrow> do {
               (ret, xbuf, s) \<leftarrow> fn env req s;
               if ret \<noteq> 0 then do { s \<leftarrow> irq_enable s; Some (ret, 0, s) }
               else do {
                 let s = (if r_type rv = REQ_COOKIE then free_req req (set_file cookie None s) else s);
                 s \<leftarrow> irq_enable s;
                 Some (ue_copy env, xbuf, s) } } } } }"

definition sys_close :: "int \<Rightarrow> ipc \<Rightarrow> (int \<times> ipc) option" where
  "sys_close fd s = do {
     f \<leftarrow> lookup_fd fd s;
     case f of
       None \<Rightarrow> Some (- EBADF, s)
     | Some req \<Rightarrow> do {
         let s = set_file fd None s;
         rv \<leftarrow> req_heap s req;
         ro \<leftarrow> r_rops rv;
         s \<leftarrow> rops_drop ro req s;
         Some (0, free_req req s) } }"

definition register_port :: "int \<Rightarrow> pops \<Rightarrow> ipc \<Rightarrow> (int \<times> ipc) option" where
  "register_port n po s = do {
     guard (0 \<le> n \<and> n < MAX_PORT);
     if port_tab s (nat n) \<noteq> None then Some (- EBUSY, s)
     else Some (0, s\<lparr>port_tab := (port_tab s)(nat n := Some po)\<rparr>) }"

text \<open>The loop of \<^verbatim>\<open>fds_check\<close> over the descriptors from \<open>i\<close> on.\<close>

fun fds_check_from :: "nat \<Rightarrow> nat \<Rightarrow> nat \<Rightarrow> fd_set \<Rightarrow> ipc \<Rightarrow> (int \<times> fd_set \<times> ipc) option" where
  "fds_check_from 0 i rw fds s = Some (0, fds, s)"
| "fds_check_from (Suc k) i rw fds s =
     (if int i \<ge> nfds fds then Some (0, fds, s)
      else if \<not> fd_is_set fds (int i) then fds_check_from k (i + 1) rw fds s
      else do {
        f \<leftarrow> fdtable_get (cur_fds s) i;
        case f of
          None \<Rightarrow> Some (- EBADF, fds, s)
        | Some req \<Rightarrow> do {
            rv \<leftarrow> req_heap s req;
            ro \<leftarrow> r_rops rv;
            (b, s) \<leftarrow> rops_available ro req rw s;
            fds \<leftarrow> (if b then Some fds else fd_clear fds (int i));
            rv \<leftarrow> req_heap s req;
            fds_check_from k (i + 1) rw fds (set_req req (rv\<lparr>waited_rw := or (waited_rw rv) rw\<rparr>) s) } })"

definition fds_check :: "nat \<Rightarrow> fd_set \<Rightarrow> ipc \<Rightarrow> (int \<times> fd_set \<times> ipc) option" where
  "fds_check rw fds s = fds_check_from 512 0 rw fds s"

definition set_state :: "task_state \<Rightarrow> ipc \<Rightarrow> ipc option" where
  "set_state st s = do { tv \<leftarrow> task_heap s (current s); Some (set_task (current s) (tv\<lparr>t_state := st\<rparr>) s) }"

text \<open>
  One iteration of the loop of \<^verbatim>\<open>wait_on\<close>: it ends with a result and the two sets to return
  (\<open>Inr\<close>), or the task waits and calls \<^verbatim>\<open>schedule\<close> with interrupts enabled (\<open>Inl\<close>), to go on with
  the next iteration when it runs again.
\<close>

definition wait_on_iter :: "fd_set \<Rightarrow> fd_set \<Rightarrow> ipc \<Rightarrow> (ipc + (int \<times> fd_set \<times> fd_set \<times> ipc)) option" where
  "wait_on_iter rfds wfds s = do {
     (ret, rfds2, s) \<leftarrow> fds_check 1 rfds s;
     if ret \<noteq> 0 then do { s \<leftarrow> set_state TASK_RUNNING s; Some (Inr (ret, rfds2, wfds, s)) }
     else do {
       (ret, wfds2, s) \<leftarrow> fds_check 2 wfds s;
       if ret \<noteq> 0 then do { s \<leftarrow> set_state TASK_RUNNING s; Some (Inr (ret, rfds2, wfds2, s)) }
       else if \<not> fd_set_empty rfds2 \<or> \<not> fd_set_empty wfds2 then do {
         s \<leftarrow> set_state TASK_RUNNING s;
         Some (Inr (0, rfds2, wfds2, s)) }
       else do {
         s \<leftarrow> set_state TASK_WAITING s;
         s \<leftarrow> irq_enable s;
         s \<leftarrow> schedule s;
         Some (Inl s) } } }"

text \<open>After the loop the \<^verbatim>\<open>waited_rw\<close> marks of the waited descriptors are reset.\<close>

fun clear_waited :: "nat \<Rightarrow> nat \<Rightarrow> fd_set \<Rightarrow> ipc \<Rightarrow> ipc option" where
  "clear_waited 0 i fds s = Some s"
| "clear_waited (Suc k) i fds s =
     (if int i \<ge> nfds fds then Some s
      else if \<not> fd_is_set fds (int i) then clear_waited k (i + 1) fds s
      else do {
        f \<leftarrow> fdtable_get (cur_fds s) i;
        case f of
          None \<Rightarrow> clear_waited k (i + 1) fds s
        | Some req \<Rightarrow> do {
            rv \<leftarrow> req_heap s req;
            clear_waited k (i + 1) fds (set_req req (rv\<lparr>waited_rw := 0\<rparr>) s) } })"

text \<open>
  The beginning of \<^verbatim>\<open>wait_on\<close>: each of the two sets is absent (\<open>None\<close>), unreadable (\<open>Some None\<close>)
  or read from the caller; \<open>Inl\<close> is an early return.
\<close>

definition read_fds :: "fd_set option option \<Rightarrow> ipc \<Rightarrow> int + fd_set" where
  "read_fds buf s =
     (case buf of
        None \<Rightarrow> Inr fd_zero
      | Some None \<Rightarrow> Inl (- EFAULT)
      | Some (Some fds) \<Rightarrow> if nfds fds > int (max_fds (cur_fds s)) then Inl (- EINVAL) else Inr fds)"

definition wait_on_start ::
  "fd_set option option \<Rightarrow> fd_set option option \<Rightarrow> ipc \<Rightarrow> ((int \<times> ipc) + (fd_set \<times> fd_set \<times> ipc)) option" where
  "wait_on_start rbuf wbuf s = do {
     let s = irq_disable s;
     case read_fds rbuf s of
       Inl e \<Rightarrow> do { s \<leftarrow> irq_enable s; Some (Inl (e, s)) }
     | Inr rfds \<Rightarrow>
         (case read_fds wbuf s of
            Inl e \<Rightarrow> do { s \<leftarrow> irq_enable s; Some (Inl (e, s)) }
          | Inr wfds \<Rightarrow> do { s \<leftarrow> set_state TASK_WAITING s; Some (Inr (rfds, wfds, s)) }) }"

text \<open>After the loop: the marks are reset and the two sets copied out (\<open>rok\<close> and \<open>wok\<close> say whether
  copying works).\<close>

definition wait_on_finish :: "bool \<Rightarrow> bool \<Rightarrow> bool \<Rightarrow> bool \<Rightarrow> fd_set \<Rightarrow> fd_set \<Rightarrow> int \<Rightarrow> ipc \<Rightarrow> (int \<times> ipc) option" where
  "wait_on_finish rbuf wbuf rok wok rfds wfds ret s = do {
     s \<leftarrow> clear_waited 512 0 rfds s;
     s \<leftarrow> clear_waited 512 0 wfds s;
     let ret = (if rbuf \<and> ret = 0 \<and> \<not> rok then - EFAULT else ret);
     let ret = (if wbuf \<and> ret = 0 \<and> \<not> wok then - EFAULT else ret);
     s \<leftarrow> irq_enable s;
     Some (ret, s) }"

definition sys_dup0 :: "int \<Rightarrow> int \<Rightarrow> ipc \<Rightarrow> (int \<times> ipc) option" where
  "sys_dup0 old_fd new_fd s =
     (if old_fd < 0 \<or> old_fd \<ge> int (max_fds (cur_fds s)) then Some (- EBADF, s)
      else do {
        f \<leftarrow> fdtable_get (cur_fds s) (nat old_fd);
        case f of
          None \<Rightarrow> Some (- EBADF, s)
        | Some req \<Rightarrow>
            if new_fd \<ge> 0 \<and> new_fd \<ge> int (max_fds (cur_fds s)) then Some (- EBADF, s)
            else if new_fd \<ge> 0 \<and> fd_file (cur_fds s) (nat new_fd) \<noteq> None then Some (- EBUSY, s)
            else do {
              rv \<leftarrow> req_heap s req;
              let (nreq, s) = new_req (r_type rv) s;
              let (fd, s) = (if new_fd < 0 then let (fd, tb) = fdtable_insert (cur_fds s) nreq in (fd, set_fds tb s)
                             else (new_fd, set_file new_fd (Some nreq) s));
              if fd < 0 then Some (- EMFILE, free_req nreq s)
              else do {
                ro \<leftarrow> r_rops rv;
                (ret, s) \<leftarrow> (case rops_dup ro of Some fn \<Rightarrow> fn req nreq s | None \<Rightarrow> Some (0, s));
                if ret \<noteq> 0 then Some (ret, free_req nreq (set_file fd None s))
                else Some (fd, s) } } })"

section \<open>System calls of uport.c\<close>

text \<open>One iteration of \<^verbatim>\<open>wait_on_port\<close> after the task marked itself waiting: \<open>Inr\<close> returns.\<close>

definition sys_wait_on_port :: "int \<Rightarrow> ipc \<Rightarrow> (ipc + (int \<times> ipc)) option" where
  "sys_wait_on_port n s = do {
     s \<leftarrow> set_state TASK_WAITING (irq_disable s);
     guard (0 \<le> n \<and> n < MAX_PORT);
     if port_tab s (nat n) \<noteq> None then do { s \<leftarrow> irq_enable s; Some (Inr (0, s)) }
     else do {
       let s = s\<lparr>port_wait_list := (port_wait_list s)(nat n := current s # port_wait_list s (nat n))\<rparr>;
       s \<leftarrow> irq_enable s;
       s \<leftarrow> schedule s;
       Some (Inl s) } }"

fun wake_all :: "nat list \<Rightarrow> ipc \<Rightarrow> ipc option" where
  "wake_all [] s = Some s"
| "wake_all (ti # tis) s = do { s \<leftarrow> wake_up ti s; wake_all tis s }"

definition sys_open_port :: "int \<Rightarrow> ipc \<Rightarrow> (int \<times> ipc) option" where
  "sys_open_port n s = do {
     let s = irq_disable s;
     (ret, s) \<leftarrow> register_port n Uport_pops s;
     if ret < 0 then do { s \<leftarrow> irq_enable s; Some (ret, s) }
     else do {
       let (req, s) = new_req REQ_PORT s;
       let (fd, tb) = fdtable_insert (cur_fds s) req;
       if fd < 0 then do { s \<leftarrow> irq_enable (free_req req s); Some (- EMFILE, s) }
       else do {
         let s = set_fds tb s;
         let (u, s) = alloc s;
         rv \<leftarrow> req_heap s req;
         let s = set_req req (rv\<lparr>r_data := DUport u, r_rops := Some Uport_server_rops\<rparr>) s;
         let s = s\<lparr>uport_tab := (uport_tab s)(nat n := Some req)\<rparr>;
         let s = s\<lparr>uport_heap := (uport_heap s)(u := Some \<lparr>up_incoming = [], up_port_number = nat n\<rparr>)\<rparr>;
         (_, s) \<leftarrow> register_port n Uport_pops s;
         let waiters = port_wait_list s (nat n);
         s \<leftarrow> wake_all waiters (s\<lparr>port_wait_list := (port_wait_list s)(nat n := [])\<rparr>);
         s \<leftarrow> irq_enable s;
         Some (fd, s) } } }"

text \<open>The first message of a server descriptor: \<open>None\<close> a fault, \<open>Some (Inl r)\<close> the code to return.\<close>

definition first_msg :: "uenv \<Rightarrow> request \<Rightarrow> ipc \<Rightarrow> (int + nat) option" where
  "first_msg env rv s =
     (if r_type rv = REQ_PORT then do {
        (u, uv) \<leftarrow> the_uport (r_data rv) s;
        Some (case up_incoming uv of [] \<Rightarrow> Inl (- EAGAIN) | m # _ \<Rightarrow> Inr m) }
      else do {
        (u, uv) \<leftarrow> the_upreq (r_data rv) s;
        Some (case upr_incoming uv of
                m # _ \<Rightarrow> Inr m
              | [] \<Rightarrow> if upr_clients uv = [] then (if ue_copy env < 0 then Inl (- EFAULT) else Inl 0)
                      else Inl (- EAGAIN)) })"

text \<open>The end of \<^verbatim>\<open>pop_request\<close>: the message leaves its queue, and the new server descriptor is tied
  to the client's request, as a connection (from a port) or as a cookie to respond to.\<close>

definition accept_msg :: "request \<Rightarrow> nat \<Rightarrow> message \<Rightarrow> nat \<Rightarrow> ipc \<Rightarrow> ipc option" where
  "accept_msg rv m mv sreq s = do {
     let creq = m_client_req mv;
     let s = unlink_msg m s;
     let s = s\<lparr>msg_heap := (msg_heap s)(m := None)\<rparr>;
     let (u, s) = alloc s;
     sv \<leftarrow> req_heap s sreq;
     s \<leftarrow> (if r_type rv = REQ_PORT then do {
             let s = s\<lparr>upreq_heap := (upreq_heap s)(u := Some \<lparr>upr_clients = [creq], upr_incoming = []\<rparr>)\<rparr>;
             let s = set_req sreq (sv\<lparr>r_data := DUpreq u, r_type := REQ_PORT_REQ\<rparr>) s;
             cv \<leftarrow> req_heap s creq;
             Some (set_req creq (cv\<lparr>r_data := DReq sreq\<rparr>) s) }
           else do {
             let s = s\<lparr>cookie_heap := (cookie_heap s)(u := Some \<lparr>uc_client_req = Some creq, uc_response = None, uc_owner = current s\<rparr>)\<rparr>;
             let s = set_req sreq (sv\<lparr>r_data := DCookie u, r_type := REQ_PORT_COOKIE\<rparr>) s;
             cv \<leftarrow> req_heap s creq;
             Some (set_req creq (cv\<lparr>r_data := DCookie u\<rparr>) s) });
     sv \<leftarrow> req_heap s sreq;
     let s = set_req sreq (sv\<lparr>r_rops := Some Uport_server_rops, r_owner := current s, waited_rw := 0\<rparr>) s;
     cv \<leftarrow> req_heap s creq;
     let s = set_req creq (cv\<lparr>r_state := REQ_ESTABLISHED\<rparr>) s;
     wake_if (waited_rw cv div 2 mod 2 = 1) (r_owner cv) s }"

definition sys_pop_request :: "uenv \<Rightarrow> int \<Rightarrow> ipc \<Rightarrow> (int \<times> ipc) option" where
  "sys_pop_request env rd s = do {
     let s = irq_disable s;
     f \<leftarrow> lookup_fd rd s;
     case f of
       None \<Rightarrow> do { s \<leftarrow> irq_enable s; Some (- EBADF, s) }
     | Some req \<Rightarrow> do {
         rv \<leftarrow> req_heap s req;
         if r_type rv \<noteq> REQ_PORT \<and> r_type rv \<noteq> REQ_PORT_REQ then do { s \<leftarrow> irq_enable s; Some (- EBADF, s) }
         else do {
           fm \<leftarrow> first_msg env rv s;
           case fm of
             Inl ret \<Rightarrow> do { s \<leftarrow> irq_enable s; Some (ret, s) }
           | Inr m \<Rightarrow> do {
               let (sreq, s) = new_req REQ_PORT_REQ s;
               let (fd, tb) = fdtable_insert (cur_fds s) sreq;
               if fd < 0 then do { s \<leftarrow> irq_enable s; Some (- EMFILE, s) }
               else do {
                 let s = set_fds tb s;
                 mv \<leftarrow> msg_heap s m;
                 let vaddr = (case m_plh mv of Some p \<Rightarrow> ue_to env p | None \<Rightarrow> 0);
                 if vaddr < 0 then do { s \<leftarrow> irq_enable s; Some (vaddr, s) }
                 else if ue_copy env \<noteq> 0 then do { s \<leftarrow> irq_enable s; Some (- EFAULT, s) }
                 else do {
                   s \<leftarrow> accept_msg rv m mv sreq s;
                   s \<leftarrow> irq_enable s;
                   Some (fd, s) } } } } } }"

text \<open>\<^verbatim>\<open>ret\<close> is set to \<^verbatim>\<open>-EFAULT\<close> before the pages are taken and never reset.\<close>

definition sys_respond :: "uenv \<Rightarrow> int \<Rightarrow> u64 \<Rightarrow> u64 \<Rightarrow> ipc \<Rightarrow> (int \<times> ipc) option" where
  "sys_respond env fd ln buf s = do {
     let s = irq_disable s;
     if fd < 0 \<or> fd \<ge> int (max_fds (cur_fds s)) then do { s \<leftarrow> irq_enable s; Some (- EBADF, s) }
     else case fd_file (cur_fds s) (nat fd) of
       None \<Rightarrow> do { s \<leftarrow> irq_enable s; Some (- EBADF, s) }
     | Some req \<Rightarrow> do {
         rv \<leftarrow> req_heap s req;
         if r_type rv \<noteq> REQ_PORT_COOKIE then do { s \<leftarrow> irq_enable s; Some (- EBADF, s) }
         else do {
           (c, cv) \<leftarrow> the_cookie (r_data rv) s;
           case uc_client_req cv of
             None \<Rightarrow> do { s \<leftarrow> irq_enable s; Some (- EPIPE, s) }
           | Some cr \<Rightarrow> do {
               crv \<leftarrow> req_heap s cr;
               guard (r_type crv = REQ_COOKIE);
               case ue_from env buf ln of
                 None \<Rightarrow> do { s \<leftarrow> irq_enable s; Some (- EFAULT, s) }
               | Some plh \<Rightarrow> do {
                   let s = free_req req (set_file fd None s);
                   let s = s\<lparr>cookie_heap := (cookie_heap s)(c := Some (cv\<lparr>uc_response := Some plh\<rparr>))\<rparr>;
                   s \<leftarrow> wake_if (waited_rw crv mod 2 = 1) (r_owner crv) s;
                   s \<leftarrow> irq_enable s;
                   Some (- EFAULT, s) } } } } }"

section \<open>Creating tasks\<close>

text \<open>The loop of \<^verbatim>\<open>create_task\<close> that duplicates the descriptors from number \<open>i\<close> on into the new task
  \<open>t\<close>. Cookies, and requests that have no \<^verbatim>\<open>dup\<close> method or whose method fails, are left out.\<close>

fun dup_fds :: "nat \<Rightarrow> nat \<Rightarrow> nat \<Rightarrow> ipc \<Rightarrow> ipc option" where
  "dup_fds 0 i t s = Some s"
| "dup_fds (Suc k) i t s =
     (case fd_file (cur_fds s) i of
        None \<Rightarrow> dup_fds k (i + 1) t s
      | Some req \<Rightarrow> do {
          rv \<leftarrow> req_heap s req;
          if r_type rv = REQ_COOKIE then dup_fds k (i + 1) t s
          else do {
            ro \<leftarrow> r_rops rv;
            case rops_dup ro of
              None \<Rightarrow> dup_fds k (i + 1) t s
            | Some fn \<Rightarrow> do {
                let (nreq, s) = new_req (r_type rv) s;
                nv \<leftarrow> req_heap s nreq;
                let s = set_req nreq (nv\<lparr>r_owner := t\<rparr>) s;
                (ret, s) \<leftarrow> fn req nreq s;
                if ret \<noteq> 0 then dup_fds k (i + 1) t (free_req nreq s)
                else dup_fds k (i + 1) t
                  (s\<lparr>fds_of := (fds_of s)(t := (fds_of s t)\<lparr>fd_file := (fd_file (fds_of s t))(i \<mapsto> nreq)\<rparr>)\<rparr>) } } })"

definition set_as_file :: "int \<Rightarrow> nat option \<Rightarrow> ipc \<Rightarrow> ipc" where
  "set_as_file as v s =
     (let tb = astable_of s (current s)
      in s\<lparr>astable_of := (astable_of s)(current s := tb\<lparr>fd_file := (fd_file tb)(nat as := v)\<rparr>)\<rparr>)"

text \<open>The system call: \<open>ti\<close> says whether the register block could be read, \<open>self\<close> is the flag CT_SELF
  (replace the address space of the caller), \<open>t\<close> is the task structure the pool hands out. Releasing
  the old address space of the caller is recorded by its name.\<close>

definition sys_create_task :: "bool \<Rightarrow> bool \<Rightarrow> nat \<Rightarrow> int \<Rightarrow> ipc \<Rightarrow> (int \<times> nat list \<times> ipc) option" where
  "sys_create_task ti self t as s =
     (if as \<le> 0 \<or> as > int (max_fds (astable_of s (current s))) then Some (- EBADF, [], s)
      else do {
        f \<leftarrow> fdtable_get (astable_of s (current s)) (nat as);
        case f of
          None \<Rightarrow> Some (- EBADF, [], s)
        | Some asp \<Rightarrow> do {
            let s = irq_disable s;
            if \<not> ti then do { s \<leftarrow> irq_enable s; Some (- EINVAL, [], s) }
            else if self then do {
              cv \<leftarrow> task_heap s (current s);
              old \<leftarrow> t_as cv;
              let s = set_as_file as None s;
              let s = set_task (current s) (cv\<lparr>t_as := Some asp\<rparr>) s;
              let s = set_as_file 0 (Some asp) s;
              s \<leftarrow> irq_enable s;
              Some (0, [old], s) }
            else do {
              let pid = available_task_slot s;
              if pid < 0 then do { s \<leftarrow> irq_enable s; Some (- ENOMEM, [], s) }
              else do {
                let s = set_as_file as None s;
                let s = new_process t asp s;
                let s = s\<lparr>fds_of := (fds_of s)(t := fdtable_new),
                          astable_of := (astable_of s)(t := fdtable_new\<lparr>fd_file := [0 \<mapsto> asp]\<rparr>)\<rparr>;
                s \<leftarrow> dup_fds (max_fds (cur_fds s)) 0 t s;
                (pid, s) \<leftarrow> enqueue_task t pid s;
                s \<leftarrow> irq_enable s;
                Some (pid, [], s) } } } })"

section \<open>Lemmas\<close>

lemma wake_if_fields:
  assumes "wake_if b t s = Some s'"
  shows "req_heap s' = req_heap s" "fds_of s' = fds_of s" "current s' = current s" "uport_heap s' = uport_heap s"
    "upreq_heap s' = upreq_heap s" "cookie_heap s' = cookie_heap s" "msg_heap s' = msg_heap s"
    "port_tab s' = port_tab s" "uport_tab s' = uport_tab s" "ipc_next s' = ipc_next s" "irq_disabled s' = irq_disabled s"
  using assms by (auto simp: wake_if_def wake_up_def set_task_def split: if_splits bind_splits)

lemma wake_if_same:
  "wake_if b t s = Some s' \<Longrightarrow> req_heap s' = req_heap s \<and> fds_of s' = fds_of s \<and> current s' = current s \<and>
    uport_heap s' = uport_heap s \<and> upreq_heap s' = upreq_heap s \<and> cookie_heap s' = cookie_heap s \<and>
    msg_heap s' = msg_heap s \<and> port_tab s' = port_tab s \<and> uport_tab s' = uport_tab s \<and>
    ipc_next s' = ipc_next s \<and> irq_disabled s' = irq_disabled s"
  by (simp add: wake_if_fields)

lemma wake_up_dom: "wake_up t s = Some s' \<Longrightarrow> dom (task_heap s') = dom (task_heap s)"
  by (auto simp: wake_up_def set_task_def split: if_splits bind_splits)

lemma wake_if_dom: "wake_if b t s = Some s' \<Longrightarrow> dom (task_heap s') = dom (task_heap s)"
  by (auto simp: wake_if_def wake_up_dom split: if_splits)

lemma wake_if_total: "task_heap s t \<noteq> None \<Longrightarrow> \<exists>s'. wake_if b t s = Some s'"
  by (auto simp: wake_if_def wake_up_def)

lemma irq_pair [simp]:
  "irq_enable (irq_disable s) = Some s"
  "irq_disabled (irq_disable s) = irq_disabled s + 1"
  by (simp_all add: irq_enable_def irq_disable_def)

lemma irq_enable_Some: "irq_disabled s = Suc n \<Longrightarrow> irq_enable s = Some (s\<lparr>irq_disabled := n\<rparr>)"
  by (simp add: irq_enable_def)

lemma irq_disable_fields [simp]:
  "req_heap (irq_disable s) = req_heap s" "fds_of (irq_disable s) = fds_of s" "current (irq_disable s) = current s"
  "port_tab (irq_disable s) = port_tab s" "uport_tab (irq_disable s) = uport_tab s" "task_heap (irq_disable s) = task_heap s"
  "uport_heap (irq_disable s) = uport_heap s" "upreq_heap (irq_disable s) = upreq_heap s"
  "cookie_heap (irq_disable s) = cookie_heap s" "msg_heap (irq_disable s) = msg_heap s" "ipc_next (irq_disable s) = ipc_next s"
  by (simp_all add: irq_disable_def)

lemma heap_upd_fields [simp]:
  "irq_disabled (set_req r rv s) = irq_disabled s" "req_heap (set_req r rv s) = (req_heap s)(r := Some rv)"
  "fds_of (set_req r rv s) = fds_of s" "current (set_req r rv s) = current s"
  "irq_disabled (set_fds tb s) = irq_disabled s" "req_heap (set_fds tb s) = req_heap s"
  "fds_of (set_fds tb s) = (fds_of s)(current s := tb)" "current (set_fds tb s) = current s"
  "port_tab (set_req r rv s) = port_tab s" "port_tab (set_fds tb s) = port_tab s"
  "uport_tab (set_req r rv s) = uport_tab s" "uport_tab (set_fds tb s) = uport_tab s"
  "irq_disabled (free_req r s) = irq_disabled s" "port_tab (free_req r s) = port_tab s" "uport_tab (free_req r s) = uport_tab s"
  "cookie_heap (set_req r rv s) = cookie_heap s" "upreq_heap (set_req r rv s) = upreq_heap s" "msg_heap (set_req r rv s) = msg_heap s"
  "task_heap (set_req r rv s) = task_heap s" "ipc_next (set_req r rv s) = ipc_next s" "uport_heap (set_req r rv s) = uport_heap s"
  "cookie_heap (set_fds tb s) = cookie_heap s" "upreq_heap (set_fds tb s) = upreq_heap s" "msg_heap (set_fds tb s) = msg_heap s"
  "task_heap (set_fds tb s) = task_heap s" "ipc_next (set_fds tb s) = ipc_next s" "uport_heap (set_fds tb s) = uport_heap s"
  by (simp_all add: set_req_def set_fds_def free_req_def)

lemma fdtable_insert_slot:
  assumes "fdtable_insert tb d = (fd, tb')" and "fd \<ge> 0"
  shows "nat fd < max_fds tb" "fd_file tb' (nat fd) = Some d" "max_fds tb' = max_fds tb"
    "fd_file tb (nat fd) = None" "\<And>j. j \<noteq> nat fd \<Longrightarrow> fd_file tb' j = fd_file tb j"
  using fdtable_insert_from_spec [of "max_fds tb" 0 tb d fd tb'] assms
  by (auto simp: fdtable_insert_def split: if_splits)

text \<open>Closing the messages of a port frees exactly them and closes their clients' requests; a closed
  request stays closed.\<close>

lemma close_port_msgs_spec:
  assumes "distinct ms"
    and "\<forall>m \<in> set ms. \<exists>mv cv. msg_heap s m = Some mv \<and> req_heap s (m_client_req mv) = Some cv \<and> task_heap s (r_owner cv) \<noteq> None"
  shows "\<exists>s'. close_port_msgs ms s = Some s' \<and>
    (\<forall>m mv. m \<in> set ms \<and> msg_heap s m = Some mv \<longrightarrow>
       msg_heap s' m = None \<and> (\<exists>cv. req_heap s' (m_client_req mv) = Some cv \<and> r_state cv = REQ_CLOSED)) \<and>
    (\<forall>m. m \<notin> set ms \<longrightarrow> msg_heap s' m = msg_heap s m) \<and>
    (\<forall>r cv. req_heap s r = Some cv \<and> r_state cv = REQ_CLOSED \<longrightarrow> (\<exists>cv. req_heap s' r = Some cv \<and> r_state cv = REQ_CLOSED))"
  using assms
proof (induction ms arbitrary: s)
  case (Cons m ms)
  obtain mv cv where m: "msg_heap s m = Some mv" "req_heap s (m_client_req mv) = Some cv" "task_heap s (r_owner cv) \<noteq> None"
    using Cons.prems(2) by auto
  let ?s1 = "set_req (m_client_req mv) (cv\<lparr>r_state := REQ_CLOSED\<rparr>) s"
  obtain s2 where w: "wake_if (waited_rw cv \<noteq> 0) (r_owner cv) ?s1 = Some s2"
    using wake_if_total [of ?s1 "r_owner cv"] m(3) by auto
  let ?s3 = "s2\<lparr>msg_heap := (msg_heap s2)(m := None)\<rparr>"
  note f = wake_if_same [OF w] wake_if_dom [OF w]
  have d: "\<And>t. (task_heap s2 t \<noteq> None) = (task_heap s t \<noteq> None)" using f(2) by (simp add: dom_def) blast
  have "\<forall>m \<in> set ms. \<exists>mv cv. msg_heap ?s3 m = Some mv \<and> req_heap ?s3 (m_client_req mv) = Some cv \<and> task_heap ?s3 (r_owner cv) \<noteq> None"
  proof
    fix m' assume m': "m' \<in> set ms"
    then have "m' \<noteq> m" using Cons.prems(1) by auto
    moreover obtain mv' cv' where "msg_heap s m' = Some mv'" "req_heap s (m_client_req mv') = Some cv'" "task_heap s (r_owner cv') \<noteq> None"
      using Cons.prems(2) m' by auto
    ultimately show "\<exists>mv cv. msg_heap ?s3 m' = Some mv \<and> req_heap ?s3 (m_client_req mv) = Some cv \<and> task_heap ?s3 (r_owner cv) \<noteq> None"
      using f m d by auto
  qed
  then obtain s' where s': "close_port_msgs ms ?s3 = Some s'"
    "\<And>m mv. m \<in> set ms \<Longrightarrow> msg_heap ?s3 m = Some mv \<Longrightarrow>
       msg_heap s' m = None \<and> (\<exists>cv. req_heap s' (m_client_req mv) = Some cv \<and> r_state cv = REQ_CLOSED)"
    "\<And>m. m \<notin> set ms \<Longrightarrow> msg_heap s' m = msg_heap ?s3 m"
    "\<And>r cv. req_heap ?s3 r = Some cv \<Longrightarrow> r_state cv = REQ_CLOSED \<Longrightarrow> \<exists>cv. req_heap s' r = Some cv \<and> r_state cv = REQ_CLOSED"
    using Cons.IH [of ?s3] Cons.prems(1) by auto
  have run: "close_port_msgs (m # ms) s = Some s'" using m w s'(1) by simp
  have keep: "\<exists>cv. req_heap s' r = Some cv \<and> r_state cv = REQ_CLOSED" if "req_heap s r = Some cv0" "r_state cv0 = REQ_CLOSED" for r cv0
    using s'(4) [of r] that f(1) by (cases "r = m_client_req mv") auto
  have hd: "msg_heap s' m = None \<and> (\<exists>cv. req_heap s' (m_client_req mv) = Some cv \<and> r_state cv = REQ_CLOSED)"
    using s'(3) [of m] s'(4) [of "m_client_req mv"] Cons.prems(1) f(1) by auto
  have oth: "msg_heap ?s3 m' = msg_heap s m'" if "m' \<noteq> m" for m' using that f(1) by simp
  have tl: "msg_heap s' m' = None \<and> (\<exists>cv. req_heap s' (m_client_req mv') = Some cv \<and> r_state cv = REQ_CLOSED)"
    if "m' \<in> set ms" "msg_heap s m' = Some mv'" for m' mv'
    using s'(2) that oth Cons.prems(1) by (metis distinct.simps(2))
  show ?case using run hd tl keep m(1) s'(3) oth by auto
qed simp

section \<open>Properties\<close>

text \<open>C21. Closing a connection the server has not accepted yet brings the kernel down:
  \<^verbatim>\<open>uport_connect\<close> leaves the data pointer of the request NULL instead of pointing it to the
  queued message, and \<^verbatim>\<open>uport_user_close\<close> follows it. Whenever connecting to a user-space port
  returned a descriptor, closing this descriptor next is a NULL dereference.\<close>

theorem close_pending_faults:
  assumes "port_tab s (nat n) = Some Uport_pops" and "sys_port_connect env n ln buf s = Some (fd, s')" and "fd \<ge> 0"
  shows "sys_close fd s' = None"
proof -
  define r where "r = ipc_next s"
  define s1 where "s1 = snd (new_req REQ_REQUEST (irq_disable s))"
  have nr: "new_req REQ_REQUEST (irq_disable s) = (r, s1)"
    by (simp add: s1_def r_def new_req_def alloc_def Let_def)
  obtain fd1 tb where ins: "fdtable_insert (cur_fds s1) r = (fd1, tb)" by (meson surj_pair)
  have irq: "irq_disabled s1 = Suc (irq_disabled s)" by (simp add: s1_def new_req_def alloc_def Let_def)
  define s2 where "s2 = (set_fds tb s1)\<lparr>irq_disabled := irq_disabled s\<rparr>"
  have c: "(if (buf \<noteq> 0 \<or> ln \<noteq> 0) \<and> ue_invalid env buf ln then Some (- EINVAL, s)
      else if fd1 < 0 then do { s \<leftarrow> irq_enable (free_req r s1); Some (- EMFILE, s) }
      else do { (ret, s) \<leftarrow> uport_connect env (nat n) r ln buf s2;
        if ret \<noteq> 0 then Some (ret, set_file fd1 None (free_req r s)) else Some (fd1, s) }) = Some (fd, s')"
    using assms(1,2) nr ins irq
    by (auto simp: sys_port_connect_def pops_connect_def Let_def s2_def irq_enable_Some split: if_splits prod.splits)
  have "fd1 \<ge> 0" and "fd = fd1" and con: "uport_connect env (nat n) r ln buf s2 = Some (0, s')"
    using c assms(3) irq
    by (auto simp: errno_defs irq_enable_Some uport_connect_def split: if_splits bind_splits option.splits prod.splits)
  note slot = fdtable_insert_slot [OF ins \<open>fd1 \<ge> 0\<close>]
  have "\<exists>rv. req_heap s' r = Some rv \<and> r_state rv = REQ_PENDING \<and> r_data rv = DNull \<and> r_rops rv = Some Uport_client_rops"
    and f: "fds_of s' = fds_of s2" "current s' = current s2"
    using con by (auto simp: uport_connect_def Let_def errno_defs new_msg_def alloc_def dest!: wake_if_same
      split: option.splits bind_splits prod.splits)
  then obtain rv where rv: "req_heap s' r = Some rv" "r_state rv = REQ_PENDING" "r_data rv = DNull"
    "r_rops rv = Some Uport_client_rops" by blast
  have cur: "cur_fds s' = tb" using f by (simp add: s2_def)
  have "lookup_fd fd s' = Some (Some r)"
    using slot \<open>fd = fd1\<close> assms(3) unfolding lookup_fd_def cur by (auto simp: fdtable_get_def)
  then show ?thesis using rv
    by (simp add: sys_close_def Let_def set_file_def rops_drop_def uport_user_close_def the_msg_def)
qed

definition demo_env :: uenv where
  "demo_env = \<lparr>ue_invalid = \<lambda>_ _. False, ue_from = \<lambda>buf _. Some buf, ue_to = \<lambda>p. uint p, ue_copy = 0, ue_read_int = \<lambda>_. None\<rparr>"

text \<open>A task with descriptor 0 serving port 5.\<close>

definition demo_ipc :: ipc where
  "demo_ipc = sched.extend demo_sched
     \<lparr>fds_of = \<lambda>t. if t = 1 then fdtable_new\<lparr>fd_file := [0 \<mapsto> 10]\<rparr> else fdtable_new,
      astable_of = \<lambda>t. fdtable_new\<lparr>fd_file := [0 \<mapsto> t, 1 \<mapsto> 9]\<rparr>, port_tab = [5 \<mapsto> Uport_pops],
      uport_tab = [5 \<mapsto> 10], port_wait_list = \<lambda>_. [], int_wait_list = \<lambda>_. [],
      req_heap = [10 \<mapsto> \<lparr>r_owner = 1, r_rops = Some Uport_server_rops, r_data = DUport 11, r_type = REQ_PORT,
                          r_state = REQ_SERVER, waited_rw = 0\<rparr>],
      uport_heap = [11 \<mapsto> \<lparr>up_incoming = [], up_port_number = 5\<rparr>], upreq_heap = \<lambda>_. None, cookie_heap = \<lambda>_. None,
      msg_heap = \<lambda>_. None, ipc_next = 12\<rparr>"

lemma demo_ipc_simps [simp]:
  "port_tab demo_ipc = [5 \<mapsto> Uport_pops]" "uport_tab demo_ipc = [5 \<mapsto> 10]" "ipc_next demo_ipc = 12" "current demo_ipc = 1"
  "irq_disabled demo_ipc = 0"
  "fds_of demo_ipc = (\<lambda>t. if t = 1 then fdtable_new\<lparr>fd_file := [0 \<mapsto> 10]\<rparr> else fdtable_new)"
  "req_heap demo_ipc = [10 \<mapsto> \<lparr>r_owner = 1, r_rops = Some Uport_server_rops, r_data = DUport 11, r_type = REQ_PORT,
      r_state = REQ_SERVER, waited_rw = 0\<rparr>]"
  "uport_heap demo_ipc = [11 \<mapsto> \<lparr>up_incoming = [], up_port_number = 5\<rparr>]" "msg_heap demo_ipc = (\<lambda>_. None)"
  "task_heap demo_ipc = task_heap demo_sched"
  by (simp_all add: demo_ipc_def sched.defs demo_sched_def)

lemma demo_insert: "fdtable_insert (fdtable_new\<lparr>fd_file := [0 \<mapsto> 10]\<rparr>) r = (1, fdtable_new\<lparr>fd_file := [0 \<mapsto> 10, 1 \<mapsto> r]\<rparr>)"
proof -
  have "fdtable_insert_from (Suc (Suc 508)) 0 (fdtable_new\<lparr>fd_file := [0 \<mapsto> 10]\<rparr>) r = (1, fdtable_new\<lparr>fd_file := [0 \<mapsto> 10, 1 \<mapsto> r]\<rparr>)"
    by (simp only: fdtable_insert_from.simps) (simp add: fdtable_new_def)
  then show ?thesis by (simp add: fdtable_insert_def fdtable_new_def)
qed

lemma demo_connect: "\<exists>s'. sys_port_connect demo_env 5 0 0 demo_ipc = Some (1, s')"
  by (simp add: sys_port_connect_def MAX_PORT_def demo_env_def new_req_def alloc_def demo_insert irq_enable_Some
    pops_connect_def uport_connect_def take_pages_def new_msg_def the_uport_def wake_if_def Let_def)

theorem close_pending_faults_witness:
  "\<exists>s'. sys_port_connect demo_env 5 0 0 demo_ipc = Some (1, s') \<and> sys_close 1 s' = None"
proof -
  obtain s' where c: "sys_port_connect demo_env 5 0 0 demo_ipc = Some (1, s')" using demo_connect by blast
  then show ?thesis using close_pending_faults [OF _ c] by simp
qed

text \<open>Opening a port when the descriptor table is full fails with -EMFILE but leaves the
  port registered without a server; connecting to it is then a NULL dereference in the kernel.\<close>

theorem open_port_full_table:
  assumes "0 \<le> n" and "n < MAX_PORT" and "port_tab s (nat n) = None" and "uport_tab s (nat n) = None"
    and "\<forall>j < max_fds (cur_fds s). fd_file (cur_fds s) j \<noteq> None"
  shows "\<exists>s'. sys_open_port n s = Some (- EMFILE, s') \<and> port_tab s' (nat n) = Some Uport_pops \<and>
    uport_connect env (nat n) req 0 0 s' = None"
proof -
  define s1 where "s1 = (irq_disable s)\<lparr>port_tab := (port_tab s)(nat n := Some Uport_pops)\<rparr>"
  define r where "r = ipc_next s1"
  define s2 where "s2 = snd (new_req REQ_PORT s1)"
  have reg: "register_port n Uport_pops (irq_disable s) = Some (0, s1)"
    using assms(1-3) by (simp add: register_port_def s1_def)
  have nr: "new_req REQ_PORT s1 = (r, s2)" by (simp add: s2_def r_def new_req_def alloc_def Let_def)
  have f: "cur_fds s2 = cur_fds s" "irq_disabled s2 = Suc (irq_disabled s)" "port_tab s2 (nat n) = Some Uport_pops"
      "uport_tab s2 (nat n) = None"
    using assms(4) by (simp_all add: s2_def s1_def new_req_def alloc_def Let_def)
  have "fdtable_insert (cur_fds s2) r = (-1, cur_fds s2)"
    using fdtable_insert_from_spec [of "max_fds (cur_fds s)" 0 "cur_fds s" r] assms(5) f(1)
    by (cases "fdtable_insert_from (max_fds (cur_fds s)) 0 (cur_fds s) r") (auto simp: fdtable_insert_def)
  then have "sys_open_port n s = Some (- EMFILE, (free_req r s2)\<lparr>irq_disabled := irq_disabled s\<rparr>)"
    using reg nr f(2) by (simp add: sys_open_port_def Let_def irq_enable_Some)
  then show ?thesis using f(3,4)
    by (simp add: uport_connect_def take_pages_def new_msg_def alloc_def Let_def)
qed

theorem open_port_full_table_witness:
  "\<exists>s'. sys_open_port 6 (demo_ipc\<lparr>fds_of := \<lambda>_. \<lparr>fd_file = \<lambda>_. Some 10, max_fds = 510\<rparr>\<rparr>) = Some (- EMFILE, s')"
proof -
  let ?s = "demo_ipc\<lparr>fds_of := \<lambda>_. \<lparr>fd_file = \<lambda>_. Some 10, max_fds = 510\<rparr>\<rparr>"
  have "\<exists>s'. sys_open_port 6 ?s = Some (- EMFILE, s') \<and> port_tab s' (nat 6) = Some Uport_pops \<and>
      uport_connect demo_env (nat 6) 0 0 0 s' = None"
    by (rule open_port_full_table) (simp_all add: MAX_PORT_def)
  then show ?thesis by blast
qed

text \<open>Waiting for a port that is open already returns at once, but the calling task is left
  marked as waiting while it runs; the next \<^verbatim>\<open>schedule\<close> does not queue it again.\<close>

theorem wait_on_open_port:
  assumes "0 \<le> n" and "n < MAX_PORT" and "port_tab s (nat n) \<noteq> None" and "sched_inv s"
  shows "\<exists>s'. sys_wait_on_port n s = Some (Inr (0, s')) \<and> current s' = current s \<and>
    st_of s' (current s') = Some TASK_WAITING \<and> current s' \<notin> set (runq s')"
proof -
  have i: "queue_ok s" "st_of s (current s) = Some TASK_RUNNING" "irq_disabled s = 0"
    using assms(4) by (simp_all add: sched_inv_def)
  then obtain tv where tv: "task_heap s (current s) = Some tv" "t_state tv = TASK_RUNNING" by auto
  have nq: "current s \<notin> set (runq s)" using i(1) tv by (auto simp: queue_ok_def)
  let ?s = "set_task (current s) (tv\<lparr>t_state := TASK_WAITING\<rparr>) s"
  have "set_state TASK_WAITING (irq_disable s) = Some (set_task (current s) (tv\<lparr>t_state := TASK_WAITING\<rparr>) (irq_disable s))"
    using tv by (simp add: set_state_def)
  then have "sys_wait_on_port n s = Some (Inr (0, (set_task (current s) (tv\<lparr>t_state := TASK_WAITING\<rparr>) (irq_disable s))\<lparr>irq_disabled := 0\<rparr>))"
    using assms(1-3) i(3) by (auto simp: sys_wait_on_port_def set_task_def irq_enable_Some)
  then show ?thesis using nq by (simp add: set_task_def irq_disable_def)
qed

theorem wait_on_open_port_witness:
  "\<exists>s'. sys_wait_on_port 5 demo_ipc = Some (Inr (0, s')) \<and> st_of s' (current s') = Some TASK_WAITING"
proof -
  have "sched_inv demo_ipc \<longleftrightarrow> sched_inv demo_sched"
    by (simp add: sched_inv_def queue_ok_def family_ok_def par_def chl_def demo_ipc_def sched.defs)
  then have "sched_inv demo_ipc" using demo_sched_inv by simp
  then show ?thesis using wait_on_open_port [of 5 demo_ipc] by (auto simp: MAX_PORT_def)
qed

text \<open>C31. A response reaches the client that asked: when the server holds the descriptor of a
  pending cookie, \<^verbatim>\<open>respond\<close> takes the pages of the response, frees the descriptor and its request, and
  the client's next \<^verbatim>\<open>uport_get_response\<close> on its side of the cookie returns exactly these pages and
  frees the cookie. The system call answers \<^verbatim>\<open>-EFAULT\<close> although it succeeded: its return value is
  set before the pages are taken and not reset.\<close>

theorem respond_get_response:
  assumes "0 \<le> fd" and "fd < int (max_fds (cur_fds s))" and "fd_file (cur_fds s) (nat fd) = Some req"
    and "req_heap s req = Some rv" and "r_type rv = REQ_PORT_COOKIE" and "r_data rv = DCookie c"
    and "cookie_heap s c = Some cv" and "uc_client_req cv = Some cr" and "cr \<noteq> req"
    and "req_heap s cr = Some crv" and "r_type crv = REQ_COOKIE" and "r_state crv = REQ_ESTABLISHED"
    and "r_data crv = DCookie c" and "task_heap s (r_owner crv) \<noteq> None"
    and "ue_from env buf ln = Some plh" and "0 \<le> ue_to env plh"
  shows "\<exists>s' s''. sys_respond env fd ln buf s = Some (- EFAULT, s') \<and>
    lookup_fd fd s' = Some None \<and> req_heap s' req = None \<and> req_heap s' cr = Some crv \<and> irq_disabled s' = irq_disabled s \<and>
    uport_get_response env cr s' = Some (0, ue_to env plh, s'') \<and> cookie_heap s'' c = None"
proof -
  define s1 where "s1 = (free_req req (set_file fd None (irq_disable s)))
    \<lparr>cookie_heap := (cookie_heap s)(c := Some (cv\<lparr>uc_response := Some plh\<rparr>))\<rparr>"
  have s1: "cur_fds s1 = (cur_fds s)\<lparr>fd_file := (fd_file (cur_fds s))(nat fd := None)\<rparr>" "current s1 = current s"
      "task_heap s1 = task_heap s" "req_heap s1 = (req_heap s)(req := None)" "irq_disabled s1 = Suc (irq_disabled s)"
      "cookie_heap s1 = (cookie_heap s)(c := Some (cv\<lparr>uc_response := Some plh\<rparr>))"
    by (simp_all add: s1_def free_req_def set_file_def)
  obtain s2 where w: "wake_if (waited_rw crv mod 2 = 1) (r_owner crv) s1 = Some s2"
    using wake_if_total [of s1 "r_owner crv"] assms(14) s1(3) by metis
  note f = wake_if_same [OF w]
  let ?s = "s2\<lparr>irq_disabled := irq_disabled s\<rparr>"
  have "irq_enable s2 = Some ?s" using f s1 by (simp add: irq_enable_Some)
  moreover have "free_req req (set_file fd None (irq_disable s))
      \<lparr>cookie_heap := (cookie_heap (free_req req (set_file fd None (irq_disable s))))(c := Some (cv\<lparr>uc_response := Some plh\<rparr>))\<rparr> = s1"
    by (simp add: s1_def free_req_def set_file_def)
  ultimately have "sys_respond env fd ln buf s = Some (- EFAULT, ?s)"
    using assms w by (simp add: sys_respond_def the_cookie_def Let_def)
  moreover have "lookup_fd fd ?s = Some None" using f s1 assms(1,2) by (simp add: lookup_fd_def fdtable_get_def)
  moreover have "uport_get_response env cr ?s = Some (0, ue_to env plh, ?s\<lparr>cookie_heap := (cookie_heap s2)(c := None)\<rparr>)"
    using f s1 assms by (simp add: uport_get_response_def the_cookie_def Let_def)
  ultimately show ?thesis using f s1 assms(9,10) by simp
qed

text \<open>C32. Closing a server's port ends every connection that waits on it: all requests whose
  messages are queued become closed, their messages are freed, and the port number is free again.\<close>

theorem port_close_closes_clients:
  assumes "req_heap s req = Some rv" and "r_type rv = REQ_PORT" and "r_data rv = DUport u" and "uport_heap s u = Some uv"
    and "distinct (up_incoming uv)"
    and "\<forall>m \<in> set (up_incoming uv). \<exists>mv cv. msg_heap s m = Some mv \<and> req_heap s (m_client_req mv) = Some cv \<and>
           task_heap s (r_owner cv) \<noteq> None"
  shows "\<exists>s'. uport_server_close req s = Some s' \<and> port_tab s' (up_port_number uv) = None \<and>
    uport_tab s' (up_port_number uv) = None \<and> uport_heap s' u = None \<and>
    (\<forall>m mv. m \<in> set (up_incoming uv) \<and> msg_heap s m = Some mv \<longrightarrow>
       msg_heap s' m = None \<and> (\<exists>cv. req_heap s' (m_client_req mv) = Some cv \<and> r_state cv = REQ_CLOSED))"
proof -
  obtain s1 where s1: "close_port_msgs (up_incoming uv) s = Some s1"
    "\<And>m mv. m \<in> set (up_incoming uv) \<Longrightarrow> msg_heap s m = Some mv \<Longrightarrow>
       msg_heap s1 m = None \<and> (\<exists>cv. req_heap s1 (m_client_req mv) = Some cv \<and> r_state cv = REQ_CLOSED)"
    using close_port_msgs_spec [OF assms(5,6)] by blast
  let ?s = "(deregister_port (up_port_number uv) s1)\<lparr>uport_tab := (uport_tab s1)(up_port_number uv := None),
    uport_heap := (uport_heap s1)(u := None)\<rparr>"
  have "uport_server_close req s = Some ?s"
    using assms(1-4) s1(1) by (simp add: uport_server_close_def the_uport_def Let_def deregister_port_def)
  then show ?thesis using s1(2) by (simp add: deregister_port_def) blast
qed

text \<open>The port of task 1 with two clients waiting to be accepted.\<close>

definition demo_pending :: ipc where
  "demo_pending = demo_ipc
     \<lparr>uport_heap := [11 \<mapsto> \<lparr>up_incoming = [20, 21], up_port_number = 5\<rparr>],
      msg_heap := [20 \<mapsto> \<lparr>m_plh = None, m_client_req = 30\<rparr>, 21 \<mapsto> \<lparr>m_plh = None, m_client_req = 31\<rparr>],
      req_heap := [10 \<mapsto> \<lparr>r_owner = 1, r_rops = Some Uport_server_rops, r_data = DUport 11, r_type = REQ_PORT, r_state = REQ_SERVER, waited_rw = 0\<rparr>,
        30 \<mapsto> \<lparr>r_owner = 2, r_rops = Some Uport_client_rops, r_data = DNull, r_type = REQ_REQUEST, r_state = REQ_PENDING, waited_rw = 1\<rparr>,
        31 \<mapsto> \<lparr>r_owner = 3, r_rops = Some Uport_client_rops, r_data = DNull, r_type = REQ_REQUEST, r_state = REQ_PENDING, waited_rw = 0\<rparr>]\<rparr>"

theorem port_close_closes_clients_witness:
  "\<exists>s'. uport_server_close 10 demo_pending = Some s' \<and> port_tab s' 5 = None \<and>
    (\<exists>cv. req_heap s' 30 = Some cv \<and> r_state cv = REQ_CLOSED) \<and> (\<exists>cv. req_heap s' 31 = Some cv \<and> r_state cv = REQ_CLOSED)"
proof -
  have "\<exists>s'. uport_server_close 10 demo_pending = Some s' \<and> port_tab s' 5 = None \<and> uport_tab s' 5 = None \<and> uport_heap s' 11 = None \<and>
    (\<forall>m mv. m \<in> set [20, 21] \<and> msg_heap demo_pending m = Some mv \<longrightarrow>
       msg_heap s' m = None \<and> (\<exists>cv. req_heap s' (m_client_req mv) = Some cv \<and> r_state cv = REQ_CLOSED))"
    using port_close_closes_clients [of demo_pending 10 _ 11 "\<lparr>up_incoming = [20, 21], up_port_number = 5\<rparr>"]
    by (simp add: demo_pending_def demo_sched_def)
  then obtain s' where c: "uport_server_close 10 demo_pending = Some s'" "port_tab s' 5 = None"
    and m: "\<And>m mv. m \<in> set [20, 21] \<Longrightarrow> msg_heap demo_pending m = Some mv \<Longrightarrow>
       \<exists>cv. req_heap s' (m_client_req mv) = Some cv \<and> r_state cv = REQ_CLOSED" by blast
  show ?thesis
    using c m [of 20 "\<lparr>m_plh = None, m_client_req = 30\<rparr>"] m [of 21 "\<lparr>m_plh = None, m_client_req = 31\<rparr>"]
    by (simp add: demo_pending_def)
qed

text \<open>Task 1 serves the cookie 40 that request 32 of task 2 waits for.\<close>

definition demo_cookie :: ipc where
  "demo_cookie = demo_ipc
     \<lparr>cookie_heap := [40 \<mapsto> \<lparr>uc_client_req = Some 32, uc_response = None, uc_owner = 1\<rparr>],
      req_heap := [10 \<mapsto> \<lparr>r_owner = 1, r_rops = Some Uport_server_rops, r_data = DCookie 40, r_type = REQ_PORT_COOKIE, r_state = REQ_SERVER, waited_rw = 0\<rparr>,
        32 \<mapsto> \<lparr>r_owner = 2, r_rops = Some Uport_client_rops, r_data = DCookie 40, r_type = REQ_COOKIE, r_state = REQ_ESTABLISHED, waited_rw = 1\<rparr>]\<rparr>"

theorem respond_get_response_witness:
  "\<exists>s' s''. sys_respond demo_env 0 8 4096 demo_cookie = Some (- EFAULT, s') \<and>
     uport_get_response demo_env 32 s' = Some (0, 4096, s'')"
proof -
  have "\<exists>s' s''. sys_respond demo_env 0 8 4096 demo_cookie = Some (- EFAULT, s') \<and>
    lookup_fd 0 s' = Some None \<and> req_heap s' 10 = None \<and> req_heap s' 32 = req_heap demo_cookie 32 \<and>
    irq_disabled s' = irq_disabled demo_cookie \<and>
    uport_get_response demo_env 32 s' = Some (0, ue_to demo_env 4096, s'') \<and> cookie_heap s'' 40 = None"
    using respond_get_response [of 0 demo_cookie 10
        "\<lparr>r_owner = 1, r_rops = Some Uport_server_rops, r_data = DCookie 40, r_type = REQ_PORT_COOKIE, r_state = REQ_SERVER, waited_rw = 0\<rparr>" 40
        "\<lparr>uc_client_req = Some 32, uc_response = None, uc_owner = 1\<rparr>" 32
        "\<lparr>r_owner = 2, r_rops = Some Uport_client_rops, r_data = DCookie 40, r_type = REQ_COOKIE, r_state = REQ_ESTABLISHED, waited_rw = 1\<rparr>"
        demo_env 4096 8 4096]
    by (simp add: demo_cookie_def demo_env_def demo_sched_def fdtable_new_def)
  then show ?thesis by (auto simp: demo_env_def)
qed

end
