(* ===== verification/UserMem.thy ===== *)
theory UserMem
  imports Aspace FdTable
begin

text \<open>
  The kernel's access to user memory: moving messages between address spaces as lists of pages and
  copying small structures (\<^verbatim>\<open>sys/mm/copy.c\<close>), the page-fault handler
  (\<^verbatim>\<open>sys/mm/page_fault.c\<close>) and the system calls on address spaces (\<^verbatim>\<open>sys/mm/syscall.c\<close>).
  Physical memory is read and written at kernel addresses. The table of address spaces of the
  calling task is passed in and returned.
\<close>

section \<open>Memory\<close>

definition read_mem :: "u64 \<Rightarrow> nat \<Rightarrow> mm \<Rightarrow> u8 list" where
  "read_mem a n s = map (\<lambda>i. pmem s (a + of_nat i)) [0..<n]"

definition write_mem :: "u64 \<Rightarrow> u8 list \<Rightarrow> mm \<Rightarrow> mm" where
  "write_mem a bs s = s\<lparr>pmem := (\<lambda>x. if unat (x - a) < length bs then bs ! unat (x - a) else pmem s x)\<rparr>"

definition manage_page :: "u64 \<Rightarrow> mm \<Rightarrow> (nat \<times> mm) option" where
  "manage_page addr s = do {
     (pr, s) \<leftarrow> manage_phys_page (addr - KERN_VMBASE) s;
     case pr of Inr p \<Rightarrow> Some (p, s) | Inl _ \<Rightarrow> None }"

definition get_zeroed_page :: "mm \<Rightarrow> (u64 \<times> mm) option" where
  "get_zeroed_page s = do { (pg, s) \<leftarrow> get_page s; Some (pg, write_mem pg (replicate 4096 0) s) }"

definition pe_phys :: "nat \<Rightarrow> mm \<Rightarrow> u64 option" where
  "pe_phys pe s = do { ev \<leftarrow> pe_heap s pe; pg \<leftarrow> page_heap s (pe_p ev); Some (phys_to_virt (phys_addr pg)) }"

section \<open>Page lists (copy.c)\<close>

text \<open>An element without a page stands for a page the sender never touched; the code leaves its
  flags uninitialised.\<close>

record page_list =
  pl_p :: "nat option"
  pl_flags :: u16

record page_list_head =
  start_offset :: u64
  npage :: u64
  ph :: "page_list list"

text \<open>A page that the message covers only in part is copied: \<open>n\<close> bytes from \<open>off\<close> on of the page at
  \<open>a\<close>, the rest zero.\<close>

definition copy_partial :: "u64 \<Rightarrow> u64 \<Rightarrow> u64 \<Rightarrow> mm \<Rightarrow> (page_list \<times> mm) option" where
  "copy_partial a off n s = do {
     (page, s) \<leftarrow> get_zeroed_page s;
     pe \<leftarrow> get_allocated_page (cur_as s) a s;
     s \<leftarrow> (case pe of
             None \<Rightarrow> Some s
           | Some pe \<Rightarrow> do { k \<leftarrow> pe_phys pe s; Some (write_mem (page + off) (read_mem (k + off) (unat n) s) s) });
     (p, s) \<leftarrow> manage_page page s;
     Some (\<lparr>pl_p = Some p, pl_flags = PF_SHARED\<rparr>, s) }"

text \<open>The loop over the pages the message covers entirely: they are shared as snapshots.\<close>

fun snap_pages :: "nat \<Rightarrow> u64 \<Rightarrow> u64 \<Rightarrow> mm \<Rightarrow> (page_list list \<times> mm) option" where
  "snap_pages 0 i aend s = Some ([], s)"
| "snap_pages (Suc k) i aend s =
     (if \<not> i < aend then Some ([], s)
      else do {
        pe \<leftarrow> get_allocated_page (cur_as s) i s;
        (pl, s) \<leftarrow>
          (case pe of
             None \<Rightarrow> Some (\<lparr>pl_p = None, pl_flags = 0\<rparr>, s)
           | Some pe \<Rightarrow> do {
               ev \<leftarrow> pe_heap s pe;
               pg \<leftarrow> page_heap s (pe_p ev);
               Some (\<lparr>pl_p = Some (pe_p ev), pl_flags = PF_SNAPSHOT\<rparr>,
                 set_page (pe_p ev) (pg\<lparr>ref_count := ref_count pg + 1, snap_count := snap_count pg + 1\<rparr>) s) });
        (pls, s) \<leftarrow> snap_pages k (i + PAGE_SIZE) aend s;
        Some (pl # pls, s) })"

definition map_from_user :: "u64 \<Rightarrow> u64 \<Rightarrow> mm \<Rightarrow> ((int + page_list_head) \<times> mm) option" where
  "map_from_user buf ln s = do {
     let s = disable_interrupts s;
     bad \<leftarrow> validate_range buf ln s;
     if bad then do { s \<leftarrow> enable_interrupts s; Some (Inl (-22), s) }
     else do {
       let abuf = ALIGN buf PAGE_SIZE_BIT;
       let off = buf - abuf;
       (first, s) \<leftarrow>
         (if abuf \<noteq> buf then do {
            (pl, s) \<leftarrow> copy_partial abuf off (min (PAGE_SIZE - off) ln) s;
            Some ([pl], s) }
          else Some ([], s));
       if abuf \<noteq> buf \<and> buf + ln \<le> abuf + PAGE_SIZE then do {
         s \<leftarrow> enable_interrupts s;
         Some (Inr \<lparr>start_offset = off, npage = 1, ph = first\<rparr>, s) }
       else do {
         let aend = ALIGN (buf + ln) PAGE_SIZE_BIT;
         (mid, s) \<leftarrow> snap_pages (unat ln div 4096 + 1) (abuf + PAGE_SIZE) aend s;
         (last, s) \<leftarrow>
           (if buf + ln \<noteq> aend then do {
              (pl, s) \<leftarrow> copy_partial aend 0 (buf + ln - aend) s;
              Some ([pl], s) }
            else Some ([], s));
         s \<leftarrow> enable_interrupts s;
         let pls = first @ mid @ last;
         Some (Inr \<lparr>start_offset = off, npage = of_nat (length pls), ph = pls\<rparr>, s) } } }"

fun map_pages :: "nat \<Rightarrow> vm_area \<Rightarrow> page_list list \<Rightarrow> u64 \<Rightarrow> mm \<Rightarrow> mm option" where
  "map_pages as vma [] vaddr s = Some s"
| "map_pages as vma (pl # pls) vaddr s = do {
     s \<leftarrow> (case pl_p pl of
             None \<Rightarrow> Some s
           | Some p \<Rightarrow> do { (_, s) \<leftarrow> address_space_assign_page_with_vma as vma p vaddr PF_SNAPSHOT s; Some s });
     map_pages as vma pls (vaddr + PAGE_SIZE) s }"

definition map_to_user_as :: "nat \<Rightarrow> page_list_head \<Rightarrow> u64 \<Rightarrow> mm \<Rightarrow> ((int + u64) \<times> mm) option" where
  "map_to_user_as as plh vaddr s = do {
     guard (IS_ALIGNED vaddr PAGE_SIZE_BIT);
     (vr, s) \<leftarrow> (if vaddr \<noteq> 0 then insert_vma_to_vaddr as vaddr (PAGE_SIZE * npage plh) VMA_RW s
                 else insert_vma_to_any as (PAGE_SIZE * npage plh) VMA_RW s);
     case vr of
       Inl _ \<Rightarrow> Some (Inl (-12), s)
     | Inr vma \<Rightarrow> do {
         s \<leftarrow> map_pages as vma (ph plh) (vma_begin vma) s;
         Some (Inr (vma_begin vma), s) } }"

definition map_to_user :: "page_list_head \<Rightarrow> u64 \<Rightarrow> mm \<Rightarrow> ((int + u64) \<times> mm) option" where
  "map_to_user plh vaddr s = map_to_user_as (cur_as s) plh vaddr s"

text \<open>An element without a page is followed as NULL.\<close>

fun page_list_free :: "page_list list \<Rightarrow> mm \<Rightarrow> mm option" where
  "page_list_free [] s = Some s"
| "page_list_free (pl # pls) s = do {
     p \<leftarrow> pl_p pl;
     pg \<leftarrow> page_heap s p;
     let s = (if pl_flags pl = PF_SNAPSHOT then set_page p (pg\<lparr>snap_count := snap_count pg - 1\<rparr>) s else s);
     (_, s) \<leftarrow> page_unref p False s;
     page_list_free pls s }"

section \<open>Copying small objects (copy.c)\<close>

text \<open>The kernel address of a page of the caller that may be written: a new one, or a private copy
  when the page has snapshots.\<close>

definition writable_page :: "u64 \<Rightarrow> mm \<Rightarrow> (u64 \<times> mm) option" where
  "writable_page a s = do {
     pe \<leftarrow> get_allocated_page (cur_as s) a s;
     case pe of
       None \<Rightarrow> do {
         (page, s) \<leftarrow> get_zeroed_page s;
         (p, s) \<leftarrow> manage_page page s;
         (_, s) \<leftarrow> address_space_assign_page (cur_as s) p a PF_SHARED s;
         (_, s) \<leftarrow> page_unref p False s;
         Some (page, s) }
     | Some pe \<Rightarrow> do {
         ev \<leftarrow> pe_heap s pe;
         pg \<leftarrow> page_heap s (pe_p ev);
         s \<leftarrow> (if snap_count pg > 0 then unshare_page pe s else Some s);
         k \<leftarrow> pe_phys pe s;
         Some (k, s) } }"

text \<open>The number of bytes that fall on the first page, and the rest.\<close>

definition split_len :: "u64 \<Rightarrow> u64 \<Rightarrow> u64 \<times> u64" where
  "split_len buf ln =
     (let aaddr = ALIGN buf PAGE_SIZE_BIT
      in if buf + ln > aaddr + PAGE_SIZE then (aaddr + PAGE_SIZE - buf, buf + ln - aaddr - PAGE_SIZE) else (ln, 0))"

definition copy_to_user_simple :: "u8 list \<Rightarrow> u64 \<Rightarrow> mm \<Rightarrow> (int \<times> mm) option" where
  "copy_to_user_simple src buf s = do {
     guard (length src \<le> 4096);
     let s = disable_interrupts s;
     bad \<leftarrow> validate_range buf (of_nat (length src)) s;
     if bad then do { s \<leftarrow> enable_interrupts s; Some (-1, s) }
     else do {
       let aaddr = ALIGN buf PAGE_SIZE_BIT;
       let (ln, leftover) = split_len buf (of_nat (length src));
       (page, s) \<leftarrow> writable_page aaddr s;
       let s = write_mem (page + (buf - aaddr)) (take (unat ln) src) s;
       s \<leftarrow> (if leftover \<noteq> 0 then do {
               (page, s) \<leftarrow> writable_page (aaddr + PAGE_SIZE) s;
               Some (write_mem page (take (unat leftover) (drop (unat ln) src)) s) }
             else Some s);
       s \<leftarrow> enable_interrupts s;
       Some (0, s) } }"

text \<open>Reading a piece of a page; a page that was never touched leaves the zeros of the target.\<close>

definition read_piece :: "u64 \<Rightarrow> u64 \<Rightarrow> u64 \<Rightarrow> mm \<Rightarrow> u8 list option" where
  "read_piece a off n s = do {
     pe \<leftarrow> get_allocated_page (cur_as s) a s;
     case pe of
       None \<Rightarrow> Some (replicate (unat n) 0)
     | Some pe \<Rightarrow> do { k \<leftarrow> pe_phys pe s; Some (read_mem (k + off) (unat n) s) } }"

definition copy_from_user_simple :: "u64 \<Rightarrow> u64 \<Rightarrow> mm \<Rightarrow> (int \<times> u8 list \<times> mm) option" where
  "copy_from_user_simple src ln s = do {
     guard (ln \<le> 4096);
     let s = disable_interrupts s;
     bad \<leftarrow> validate_range src ln s;
     if bad then do { s \<leftarrow> enable_interrupts s; Some (-1, replicate (unat ln) 0, s) }
     else do {
       let aaddr = ALIGN src PAGE_SIZE_BIT;
       let (ln, leftover) = split_len src ln;
       xs \<leftarrow> read_piece aaddr (src - aaddr) ln s;
       ys \<leftarrow> (if leftover \<noteq> 0 then read_piece (aaddr + PAGE_SIZE) 0 leftover s else Some []);
       s \<leftarrow> enable_interrupts s;
       Some (0, xs @ ys, s) } }"

section \<open>Page faults (page_fault.c)\<close>

definition page_fault_init :: "mm \<Rightarrow> (nat \<times> mm) option" where
  "page_fault_init s = do {
     (a, s) \<leftarrow> get_phys_page s;
     (pr, s) \<leftarrow> manage_phys_page a s;
     z \<leftarrow> (case pr of Inr z \<Rightarrow> Some z | Inl _ \<Rightarrow> None);
     pg \<leftarrow> page_heap s z;
     Some (z, write_mem (phys_addr pg + KERN_VMBASE) (replicate 4096 0) s) }"

text \<open>The answer 1 asks for rescheduling after the task was killed; interrupts are still disabled
  then. The test for a read-only area is \<^verbatim>\<open>!vma->vma_flags & VMA_RW\<close>, which holds only when no
  flag at all is set.\<close>

definition page_fault_handler :: "nat \<Rightarrow> u64 \<Rightarrow> u64 \<Rightarrow> mm \<Rightarrow> (nat \<times> mm) option" where
  "page_fault_handler zero_page err vaddr s = do {
     guard (GET_BIT err 2 \<noteq> 0);
     let page = ALIGN vaddr PAGE_SIZE_BIT;
     let s = disable_interrupts s;
     vma \<leftarrow> vma_find_by_vaddr (cur_as s) vaddr s;
     case vma of
       None \<Rightarrow> Some (1, s)
     | Some vma \<Rightarrow> do {
         pe \<leftarrow> get_allocated_page (cur_as s) page s;
         s \<leftarrow> (case pe of
                 Some _ \<Rightarrow> Some s
               | None \<Rightarrow> do { (_, s) \<leftarrow> address_space_assign_page (cur_as s) zero_page page PF_SNAPSHOT s; Some s });
         pe \<leftarrow> get_allocated_page (cur_as s) page s;
         pe \<leftarrow> pe;
         if err AND PTE_W \<noteq> 0 \<and> vma_flags vma = 0 then Some (1, s)
         else do {
           ev \<leftarrow> pe_heap s pe;
           pg \<leftarrow> page_heap s (pe_p ev);
           s \<leftarrow> (if err AND PTE_W \<noteq> 0 \<and> snap_count pg > 0 then unshare_page pe s else Some s);
           (_, s) \<leftarrow> address_space_map page s;
           s \<leftarrow> enable_interrupts s;
           Some (0, s) } } }"

section \<open>System calls on address spaces (syscall.c)\<close>

definition page_entry_visitor :: "nat \<Rightarrow> nat \<Rightarrow> mm \<Rightarrow> mm option" where
  "page_entry_visitor as pe s = do {
     ev \<leftarrow> pe_heap s pe;
     if pe_flags ev AND PF_HARDWARE \<noteq> 0 then Some s
     else do { (_, s) \<leftarrow> address_space_assign_page as (pe_p ev) (pe_vaddr ev) PF_SNAPSHOT s; Some s } }"

fun copy_vmas :: "nat \<Rightarrow> vm_area list \<Rightarrow> mm \<Rightarrow> mm option" where
  "copy_vmas as [] s = Some s"
| "copy_vmas as (vma # rest) s =
     (if vma_flags vma AND VMA_HW \<noteq> 0 then copy_vmas as rest s
      else do {
        (_, s) \<leftarrow> insert_vma_to_vaddr as (vma_begin vma) (vma_length vma) (vma_flags vma) s;
        copy_vmas as rest s })"

definition as_snapshot :: "nat \<Rightarrow> mm \<Rightarrow> mm option" where
  "as_snapshot new_as s = do {
     av \<leftarrow> as_heap s (cur_as s);
     s \<leftarrow> copy_vmas new_as (vmas av) s;
     av \<leftarrow> as_heap s (cur_as s);
     binradix_for_each (vaddr_map av) (\<lambda>pe so. do { s \<leftarrow> so; page_entry_visitor new_as pe s }) (Some s) }"

text \<open>\<open>tables\<close> are the pages of the page tables of a space that is destroyed and \<open>junk\<close> the
  uninitialised fields of areas, as for \<open>destroy_as\<close>.\<close>

definition sys_asnew ::
  "u64 list \<Rightarrow> u32 \<times> nat \<Rightarrow> nat \<Rightarrow> bool \<Rightarrow> nat fdtable \<Rightarrow> mm \<Rightarrow> (int \<times> nat fdtable \<times> mm) option" where
  "sys_asnew tables junk task snapshot astable s = do {
     let s = disable_interrupts s;
     (new_as, s) \<leftarrow> aspace_new 0 s;
     let (fd, tb) = fdtable_insert astable new_as;
     if fd < 0 then do {
       s \<leftarrow> destroy_as new_as tables junk s;
       s \<leftarrow> enable_interrupts s;
       Some (-24, astable, s) }
     else do {
       av \<leftarrow> as_heap s new_as;
       let s = set_as new_as (av\<lparr>as_owner := task\<rparr>) s;
       s \<leftarrow> (if snapshot then as_snapshot new_as s else Some s);
       s \<leftarrow> enable_interrupts s;
       Some (fd, tb, s) } }"

definition sys_asdestroy ::
  "u64 list \<Rightarrow> u32 \<times> nat \<Rightarrow> int \<Rightarrow> nat fdtable \<Rightarrow> mm \<Rightarrow> (int \<times> nat fdtable \<times> mm) option" where
  "sys_asdestroy tables junk as astable s = do {
     let s = disable_interrupts s;
     if as \<le> 0 \<or> as \<ge> int (max_fds astable) then do { s \<leftarrow> enable_interrupts s; Some (-9, astable, s) }
     else case fd_file astable (nat as) of
       None \<Rightarrow> do { s \<leftarrow> enable_interrupts s; Some (-9, astable, s) }
     | Some a \<Rightarrow> do {
         s \<leftarrow> destroy_as a tables junk s;
         s \<leftarrow> enable_interrupts s;
         Some (0, astable\<lparr>fd_file := (fd_file astable)(nat as := None)\<rparr>, s) } }"

fun send_pages :: "nat \<Rightarrow> nat \<Rightarrow> u64 \<Rightarrow> u64 \<Rightarrow> u64 \<Rightarrow> u64 \<Rightarrow> mm \<Rightarrow> mm option" where
  "send_pages 0 as vaddr base ln i s = Some s"
| "send_pages (Suc k) as vaddr base ln i s =
     (if \<not> i < ln then Some s
      else do {
        pe \<leftarrow> get_allocated_page (cur_as s) (vaddr + i) s;
        s \<leftarrow> (case pe of
                None \<Rightarrow> Some s
              | Some pe \<Rightarrow> do {
                  ev \<leftarrow> pe_heap s pe;
                  (_, s) \<leftarrow> address_space_assign_page as (pe_p ev) (base + i) PF_SNAPSHOT s;
                  Some s });
        send_pages k as vaddr base ln (i + PAGE_SIZE) s })"

text \<open>\<open>Inl\<close> is an error number, \<open>Inr\<close> the address of the new area.\<close>

definition sys_sendpage :: "int \<Rightarrow> u64 \<Rightarrow> u64 \<Rightarrow> u64 \<Rightarrow> nat fdtable \<Rightarrow> mm \<Rightarrow> ((int + u64) \<times> mm) option" where
  "sys_sendpage as vaddr dst ln astable s = do {
     let s = disable_interrupts s;
     f \<leftarrow> (if as < 0 \<or> as > int (max_fds astable) then Some None else fdtable_get astable (nat as));
     case f of
       None \<Rightarrow> do { s \<leftarrow> enable_interrupts s; Some (Inl (-9), s) }
     | Some a \<Rightarrow> do {
         bad \<leftarrow> (if vaddr \<noteq> 0 then validate_range vaddr PAGE_SIZE s else Some False);
         if \<not> IS_ALIGNED vaddr PAGE_SIZE_BIT \<or> \<not> IS_ALIGNED ln PAGE_SIZE_BIT \<or> bad
         then do { s \<leftarrow> enable_interrupts s; Some (Inl (-22), s) }
         else do {
           (vr, s) \<leftarrow> (if dst \<noteq> 0 then insert_vma_to_vaddr a dst ln VMA_RW s else insert_vma_to_any a ln VMA_RW s);
           case vr of
             Inl _ \<Rightarrow> do { s \<leftarrow> enable_interrupts s; Some (Inl (-12), s) }
           | Inr vma \<Rightarrow> do {
               s \<leftarrow> (if vaddr \<noteq> 0 then send_pages (unat ln div 4096) a vaddr (vma_begin vma) ln 0 s else Some s);
               s \<leftarrow> enable_interrupts s;
               Some (Inr (vma_begin vma), s) } } } }"

definition sys_munmap :: "u32 \<times> nat \<Rightarrow> u64 \<Rightarrow> u64 \<Rightarrow> mm \<Rightarrow> (int \<times> mm) option" where
  "sys_munmap junk base ln s =
     (if \<not> IS_ALIGNED base PAGE_SIZE_BIT \<or> \<not> IS_ALIGNED ln PAGE_SIZE_BIT then Some (-22, s)
      else do { s \<leftarrow> remove_vma_range (cur_as s) base ln junk s; Some (0, s) })"

definition sys_get_physical :: "u64 \<Rightarrow> mm \<Rightarrow> (u64 \<times> mm) option" where
  "sys_get_physical vaddr s = do {
     let s = disable_interrupts s;
     pe \<leftarrow> get_allocated_page (cur_as s) (ALIGN vaddr PAGE_SIZE_BIT) s;
     case pe of
       None \<Rightarrow> do { s \<leftarrow> enable_interrupts s; Some (0, s) }
     | Some pe \<Rightarrow> do {
         ev \<leftarrow> pe_heap s pe;
         if pe_flags ev AND PF_SNAPSHOT \<noteq> 0 then do { s \<leftarrow> enable_interrupts s; Some (0, s) }
         else do { s \<leftarrow> enable_interrupts s; pg \<leftarrow> page_heap s (pe_p ev); Some (phys_addr pg, s) } } }"

section \<open>The view of user memory\<close>

text \<open>The byte at an address of the running task: what its page holds, or 0 when no page was
  assigned there yet.\<close>

definition user_byte :: "mm \<Rightarrow> u64 \<Rightarrow> u8" where
  "user_byte s a =
     (case get_allocated_page (cur_as s) (ALIGN a PAGE_SIZE_BIT) s of
        Some (Some pe) \<Rightarrow> (case pe_phys pe s of Some k \<Rightarrow> pmem s (k + (a - ALIGN a PAGE_SIZE_BIT)) | None \<Rightarrow> 0)
      | _ \<Rightarrow> 0)"

text \<open>Every assigned address of the running task leads to a page.\<close>

definition entries_ok :: "mm \<Rightarrow> bool" where
  "entries_ok s \<longleftrightarrow> (\<exists>av. as_heap s (cur_as s) = Some av \<and>
     (\<forall>va pe. binradix_find (vaddr_map av) va = Some pe \<longrightarrow> pe_phys pe s \<noteq> None))"

lemma ALIGN_within:
  assumes "IS_ALIGNED a 12" and "k < 4096"
  shows "ALIGN (a + of_nat k) 12 = (a :: u64)"
proof -
  have "4096 dvd unat a" using assms(1) by (simp add: align_simps)
  then obtain q where q: "unat a = 4096 * q" by (auto elim: dvdE)
  have "q < 4503599627370496" using q u64_bound [of a] by simp
  then have "4096 * q + k < 2 ^ 64" using assms(2) by simp
  then have "unat (a + of_nat k) = 4096 * q + k"
    using q assms(2) by (subst unat_add_lt) (simp_all add: unat_of_nat_lt)
  then show ?thesis using q assms(2) by (simp add: word_eq_iff_unat unat_ALIGN)
qed

lemma read_piece_spec:
  assumes "entries_ok s" and "IS_ALIGNED a 12" and "unat off + unat n \<le> 4096"
  shows "read_piece a off n s = Some (map (\<lambda>i. user_byte s (a + off + of_nat i)) [0..<unat n])"
proof -
  obtain av where av: "as_heap s (cur_as s) = Some av"
    and ok: "\<And>va pe. binradix_find (vaddr_map av) va = Some pe \<Longrightarrow> pe_phys pe s \<noteq> None"
    using assms(1) by (auto simp: entries_ok_def)
  have al: "ALIGN (a + off + of_nat i) 12 = a" if "i < unat n" for i
    using ALIGN_within [OF assms(2), of "unat off + i"] that assms(3) by (simp add: add.assoc)
  show ?thesis
  proof (cases "binradix_find (vaddr_map av) a")
    case None
    then show ?thesis
      by (auto simp: read_piece_def get_allocated_page_def av user_byte_def al intro!: nth_equalityI)
  next
    case (Some pe)
    then obtain k where "pe_phys pe s = Some k" using ok by blast
    then show ?thesis
      by (simp add: read_piece_def get_allocated_page_def av user_byte_def Some read_mem_def) (simp add: al Some, simp add: add.assoc)
  qed
qed

lemma split_len_spec:
  fixes buf ln :: u64
  assumes "unat buf + unat ln \<le> 2 ^ 63" and "unat ln \<le> 4096" and "split_len buf ln = (n1, n2)"
  defines "a \<equiv> ALIGN buf 12"
  shows "unat (buf - a) + unat n1 \<le> 4096" "unat n2 \<le> 4096" "unat n1 + unat n2 = unat ln" "a + (buf - a) = buf"
    "IS_ALIGNED a 12" "IS_ALIGNED (a + PAGE_SIZE) 12" "n2 \<noteq> 0 \<Longrightarrow> a + PAGE_SIZE = buf + n1"
proof -
  have ua: "unat a = unat buf div 4096 * 4096" by (simp add: a_def unat_ALIGN)
  have le: "unat a \<le> unat buf" by (simp add: ua)
  have off: "unat (buf - a) = unat buf mod 4096"
    using le by (simp add: unat_sub word_le_nat_alt ua minus_div_mult_eq_mod)
  have e: "unat (buf + ln) = unat buf + unat ln" using assms(1) by (subst unat_add_lt) simp_all
  have p: "unat (a + PAGE_SIZE) = unat a + 4096"
    using le assms(1) by (subst unat_add_lt) simp_all
  have m: "unat buf = unat a + unat buf mod 4096" "unat buf mod 4096 < 4096" by (simp_all add: ua)
  show "a + (buf - a) = buf" by simp
  show "IS_ALIGNED a 12" by (simp add: a_def)
  have "4096 dvd unat a" by (simp add: ua)
  then show "IS_ALIGNED (a + PAGE_SIZE) 12" using p by (simp add: align_simps)
  have "unat (buf - a) + unat n1 \<le> 4096 \<and> unat n2 \<le> 4096 \<and> unat n1 + unat n2 = unat ln \<and> (n2 \<noteq> 0 \<longrightarrow> a + PAGE_SIZE = buf + n1)"
  proof (cases "buf + ln > a + PAGE_SIZE")
    case True
    then have n: "n1 = a + PAGE_SIZE - buf" "n2 = buf + ln - (a + PAGE_SIZE)"
      using assms(3) by (auto simp: split_len_def a_def Let_def diff_diff_eq)
    have c: "unat a + 4096 < unat buf + unat ln" using True e p by (simp add: word_less_nat_alt)
    have "unat n1 = unat a + 4096 - unat buf" unfolding n(1)
      using m p by (subst unat_sub) (simp_all add: word_le_nat_alt)
    moreover have "unat n2 = unat buf + unat ln - (unat a + 4096)" unfolding n(2)
      using c e p by (subst unat_sub) (simp_all add: word_le_nat_alt)
    ultimately show ?thesis using off m c assms(2) n(1) by auto
  next
    case False
    then have n: "n1 = ln" "n2 = 0" using assms(3) by (simp_all add: split_len_def a_def Let_def)
    have "unat buf + unat ln \<le> unat a + 4096" using False e p by (simp add: word_less_nat_alt)
    then show ?thesis using n off m by simp
  qed
  then show "unat (buf - a) + unat n1 \<le> 4096" "unat n2 \<le> 4096" "unat n1 + unat n2 = unat ln"
    "n2 \<noteq> 0 \<Longrightarrow> a + PAGE_SIZE = buf + n1" by blast+
qed

section \<open>Properties\<close>

lemma copy_from_user_spec:
  assumes "entries_ok s" and "validate_range src ln s = Some bad"
    and "unat ln \<le> 4096" and "unat src + unat ln \<le> 2 ^ 63"
  shows "copy_from_user_simple src ln s =
    Some (if bad then (-1, replicate (unat ln) 0, s)
          else (0, map (\<lambda>i. user_byte s (src + of_nat i)) [0..<unat ln], s))"
proof -
  let ?d = "disable_interrupts s" and ?a = "ALIGN src 12"
  obtain n1 n2 where n: "split_len src ln = (n1, n2)" by (meson surj_pair)
  note sp = split_len_spec [OF assms(4,3) n]
  have e: "enable_interrupts ?d = Some s" by (simp add: enable_interrupts_def disable_interrupts_def)
  have v: "validate_range src ln ?d = Some bad" using assms(2) by (simp add: validate_range_def)
  have ok: "entries_ok ?d" using assms(1) by (simp add: entries_ok_def pe_phys_def)
  have ub: "user_byte ?d = user_byte s" by (auto simp: fun_eq_iff user_byte_def get_allocated_page_def pe_phys_def split: option.splits)
  have x: "read_piece ?a (src - ?a) n1 ?d = Some (map (\<lambda>i. user_byte s (src + of_nat i)) [0..<unat n1])"
    using read_piece_spec [OF ok sp(5), of "src - ?a" n1] sp(1,4) by (simp add: ub)
  have "map (\<lambda>i. user_byte s (src + of_nat i)) [unat n1..<unat ln] =
      map (\<lambda>i. user_byte s (src + n1 + of_nat i)) [0..<unat n2]"
    using sp(3) by (intro nth_equalityI) (auto simp: add.assoc)
  moreover have "read_piece (?a + PAGE_SIZE) 0 n2 ?d = Some (map (\<lambda>i. user_byte s (src + n1 + of_nat i)) [0..<unat n2])" if "n2 \<noteq> 0"
    using read_piece_spec [OF ok sp(6), of 0 n2] sp(2) sp(7) [OF that] by (simp add: ub)
  ultimately have y: "(if n2 \<noteq> 0 then read_piece (?a + PAGE_SIZE) 0 n2 ?d else Some []) =
      Some (map (\<lambda>i. user_byte s (src + of_nat i)) [unat n1..<unat ln])" using sp(3) by auto
  have le: "ln \<le> 4096" using assms(3) by (simp add: word_le_nat_alt)
  have cat: "[0..<unat n1] @ [unat n1..<unat ln] = [0..<unat ln]" using upt_add_eq_append [of 0 "unat n1" "unat n2"] sp(3) by simp
  show ?thesis
    using x y n e v le cat by (auto simp: copy_from_user_simple_def Let_def simp flip: map_append)
qed

text \<open>Copying from user memory: with at most a page to read and every assigned address
  leading to a page, \<^verbatim>\<open>copy_from_user_simple\<close> does not fault, leaves the state as it was and returns
  exactly the bytes the task sees at these addresses, also across a page boundary; if the range is
  not valid it returns -1 and zeros.\<close>

theorem copy_from_user_correct:
  assumes "entries_ok s" and "validate_range src ln s = Some bad"
    and "unat ln \<le> 4096" and "unat src + unat ln \<le> 2 ^ 63"
  shows "copy_from_user_simple src ln s =
    Some (if bad then (-1, replicate (unat ln) 0, s)
          else (0, map (\<lambda>i. user_byte s (src + of_nat i)) [0..<unat ln], s))"
  by (rule copy_from_user_spec [OF assms])

text \<open>A task whose first page has content and whose second page was never touched.\<close>

definition demo_user :: mm where
  "demo_user = demo_mm
     \<lparr>as_heap := [0 \<mapsto> demo_as\<lparr>vaddr_map := BNode (BNode BNull BNull (Some 3) 0x400000 64) BNull None 0 0\<rparr>],
      pe_heap := [3 \<mapsto> \<lparr>pe_p = 2, pe_as = 0, pe_vaddr = 0x400000, pe_flags = PF_SHARED\<rparr>],
      page_heap := [2 \<mapsto> \<lparr>phys_addr = 0x7000, ref_count = 1, snap_count = 0, owner = [3]\<rparr>],
      pmem := \<lambda>a. ucast a\<rparr>"

lemma demo_user_find: "binradix_find (BNode (BNode BNull BNull (Some (3::nat)) 0x400000 64) BNull None 0 0) va =
    (if va = 0x400000 then Some 3 else None)"
proof -
  have "bineq a b 63 64 \<longleftrightarrow> a = b" for a b using bineq_full [of 63 a b] by (simp add: low_eq_63)
  then show ?thesis by (auto simp: find_root)
qed

theorem copy_from_user_correct_witness:
  "copy_from_user_simple 0x400ffe 4 demo_user = Some (0, [0xfe, 0xff, 0, 0], demo_user)"
proof -
  have ok: "entries_ok demo_user" by (simp add: entries_ok_def demo_user_def pe_phys_def demo_user_find)
  have v: "validate_range 0x400ffe 4 demo_user = Some False"
    by (simp add: validate_range_def demo_user_def demo_as_def)
  have "copy_from_user_simple 0x400ffe 4 demo_user =
      Some (0, map (\<lambda>i. user_byte demo_user (0x400ffe + of_nat i)) [0..<unat (4 :: u64)], demo_user)"
    using copy_from_user_correct [OF ok v] by simp
  also have "map (\<lambda>i. user_byte demo_user (0x400ffe + of_nat i)) [0..<unat (4 :: u64)] = [0xfe, 0xff, 0, 0]"
    by (simp add: upt_conv_Cons user_byte_def get_allocated_page_def demo_user_def pe_phys_def demo_user_find
      ALIGN_def BIT_def phys_to_virt_def KERN_VMBASE_def)
  finally show ?thesis .
qed

end
