(* ===== verification/Cow.thy ===== *)
theory Cow
  imports UserMem
begin

text \<open>
  Copy on write: the invariant that ties pages, page entries, reference counts and the allocator
  together, and what \<^verbatim>\<open>unshare_page\<close> of \<^verbatim>\<open>sys/mm/page_man.c\<close> guarantees under it.
  The kernel calls it before every write to a page that has snapshots, from the page-fault handler
  and from \<^verbatim>\<open>copy_to_user_simple\<close>.
\<close>

section \<open>Invariant\<close>

abbreviation shared_pe :: "mm \<Rightarrow> nat \<Rightarrow> bool" where
  "shared_pe s pe \<equiv> (case pe_heap s pe of Some ev \<Rightarrow> pe_flags ev AND PF_SHARED \<noteq> 0 | None \<Rightarrow> False)"

definition entry_ok :: "mm \<Rightarrow> page_entry \<Rightarrow> bool" where
  "entry_ok s ev \<longleftrightarrow> page_heap s (pe_p ev) \<noteq> None \<and> GET_BIT (pe_vaddr ev) 63 = 0 \<and>
     pe_flags ev \<in> {PF_SHARED, PF_SNAPSHOT, PF_SHARED OR PF_HARDWARE}"

text \<open>The counters of a page cover its owners; references beyond them belong to page lists and
  local variables, and every such snapshot is also a reference.\<close>

definition counts_ok :: "mm \<Rightarrow> page \<Rightarrow> bool" where
  "counts_ok s pg \<longleftrightarrow>
     (let n = length (owner pg); k = length (filter (\<lambda>pe. \<not> shared_pe s pe) (owner pg))
      in n \<le> unat (ref_count pg) \<and> k \<le> unat (snap_count pg) \<and> unat (snap_count pg) - k \<le> unat (ref_count pg) - n)"

definition page_ok :: "mm \<Rightarrow> nat \<Rightarrow> page \<Rightarrow> bool" where
  "page_ok s p pg \<longleftrightarrow> IS_ALIGNED (phys_addr pg) 12 \<and> phys_to_virt (phys_addr pg) \<notin> set (free_pages s) \<and>
     distinct (owner pg) \<and> (\<forall>pe. pe \<in> set (owner pg) \<longleftrightarrow> (\<exists>ev. pe_heap s pe = Some ev \<and> pe_p ev = p)) \<and> counts_ok s pg"

definition cow_inv :: "mm \<Rightarrow> bool" where
  "cow_inv s \<longleftrightarrow> phys_inv s \<and> binradix_wf (phys_pages s) \<and>
     (\<forall>a p. binradix_find (phys_pages s) a = Some p \<longleftrightarrow> (\<exists>pg. page_heap s p = Some pg \<and> phys_addr pg = a)) \<and>
     (\<forall>p pg. page_heap s p = Some pg \<longrightarrow> page_ok s p pg) \<and>
     (\<forall>pe ev. pe_heap s pe = Some ev \<longrightarrow> entry_ok s ev) \<and>
     (\<forall>n \<ge> next_id s. page_heap s n = None \<and> pe_heap s n = None)"

lemma cow_invD:
  assumes "cow_inv s"
  shows "phys_inv s" "binradix_wf (phys_pages s)" "page_heap s p = Some pg \<Longrightarrow> page_ok s p pg"
    "pe_heap s pe = Some ev \<Longrightarrow> entry_ok s ev" "next_id s \<le> n \<Longrightarrow> page_heap s n = None" "next_id s \<le> n \<Longrightarrow> pe_heap s n = None"
    "binradix_find (phys_pages s) a = Some p \<longleftrightarrow> (\<exists>pg. page_heap s p = Some pg \<and> phys_addr pg = a)"
  using assms unfolding cow_inv_def by blast+

section \<open>Loops over the owners\<close>

lemma mm_heap_fields [simp]:
  "page_heap (set_page p v s) = (page_heap s)(p \<mapsto> v)" "pe_heap (set_page p v s) = pe_heap s" "ptes (set_page p v s) = ptes s"
  "page_heap (set_pe q w s) = page_heap s" "pe_heap (set_pe q w s) = (pe_heap s)(q \<mapsto> w)" "ptes (set_pe q w s) = ptes s"
  "page_heap (set_pte as va e s) = page_heap s" "pe_heap (set_pte as va e s) = pe_heap s"
  "cur_as (set_page p v s) = cur_as s" "cur_as (set_pe q w s) = cur_as s" "cur_as (set_pte as va e s) = cur_as s"
  by (simp_all add: set_page_def set_pe_def set_pte_def)

lemma restore_write_spec:
  assumes "\<forall>ob \<in> set obs. \<exists>ov. pe_heap s ob = Some ov \<and> GET_BIT (pe_vaddr ov) 63 = 0 \<and> (chk \<longrightarrow> pe_flags ov AND PF_SHARED \<noteq> 0)"
  shows "\<exists>pt. restore_write chk obs s = Some (s\<lparr>ptes := pt\<rparr>)"
  using assms
proof (induction obs arbitrary: s)
  case Nil
  have "s = s\<lparr>ptes := ptes s\<rparr>" by simp
  then show ?case by (metis restore_write.simps(1))
next
  case (Cons ob obs)
  obtain ov where ov: "pe_heap s ob = Some ov" "GET_BIT (pe_vaddr ov) 63 = 0" "chk \<longrightarrow> pe_flags ov AND PF_SHARED \<noteq> 0"
    using Cons.prems by auto
  define s1 where "s1 = (case ptes s (pe_as ov) (ALIGN (pe_vaddr ov) PAGE_SIZE_BIT) of
      Some e \<Rightarrow> if e AND PTE_P \<noteq> 0 then set_pte (pe_as ov) (pe_vaddr ov) (e OR PTE_W) s else s | None \<Rightarrow> s)"
  have "s1\<lparr>ptes := pt\<rparr> = s\<lparr>ptes := pt\<rparr>" for pt by (simp add: s1_def set_pte_def split: option.split)
  moreover have "pe_heap s1 = pe_heap s" by (simp add: s1_def set_pte_def split: option.split)
  then have "\<exists>pt. restore_write chk obs s1 = Some (s1\<lparr>ptes := pt\<rparr>)" using Cons.prems by (intro Cons.IH) simp
  ultimately show ?case using ov by (simp add: ptable_entry_def s1_def)
qed

lemma remove1_fold_distinct:
  "distinct xs \<Longrightarrow> fold remove1 ms xs = filter (\<lambda>x. x \<notin> set ms) xs"
  by (induction ms arbitrary: xs) (auto simp: distinct_remove1_removeAll removeAll_filter_not_eq intro: filter_cong)

text \<open>The loop of \<^verbatim>\<open>unshare_page\<close> moves exactly the shared owners, with their references.\<close>

lemma move_shared_spec:
  assumes "distinct ois" and "\<forall>oi \<in> set ois. \<exists>ov. pe_heap s oi = Some ov \<and> GET_BIT (pe_vaddr ov) 63 = 0"
    and "page_heap s oldp = Some opg" and "page_heap s p = Some pg" and "oldp \<noteq> p"
  defines "ms \<equiv> filter (shared_pe s) ois"
  shows "\<exists>pt. move_shared oldp p ois s = Some (s
    \<lparr>page_heap := (page_heap s)
       (oldp \<mapsto> opg\<lparr>ref_count := ref_count opg - of_nat (length ms), owner := fold remove1 ms (owner opg)\<rparr>,
        p \<mapsto> pg\<lparr>ref_count := ref_count pg + of_nat (length ms), owner := rev ms @ owner pg\<rparr>),
     pe_heap := (\<lambda>q. if q \<in> set ms then map_option (\<lambda>ev. ev\<lparr>pe_p := p\<rparr>) (pe_heap s q) else pe_heap s q),
     ptes := pt\<rparr>)"
  using assms(1-5) unfolding ms_def
proof (induction ois arbitrary: s opg pg)
  case Nil
  have "s = s\<lparr>page_heap := (page_heap s)(oldp \<mapsto> opg\<lparr>ref_count := ref_count opg - 0, owner := owner opg\<rparr>,
      p \<mapsto> pg\<lparr>ref_count := ref_count pg + 0, owner := owner pg\<rparr>), pe_heap := pe_heap s, ptes := ptes s\<rparr>"
    using Nil by (cases s) (auto simp: fun_upd_idem)
  then show ?case by (auto intro!: exI [of _ "ptes s"] simp: fun_upd_def)
next
  case (Cons oi ois)
  obtain ov where ov: "pe_heap s oi = Some ov" "GET_BIT (pe_vaddr ov) 63 = 0" using Cons.prems(2) by auto
  show ?case
  proof (cases "pe_flags ov AND PF_SHARED = 0")
    case True
    then show ?thesis using Cons.IH [of s opg pg] Cons.prems ov by simp
  next
    case False
    define opg1 where "opg1 = opg\<lparr>owner := remove1 oi (owner opg), ref_count := ref_count opg - 1\<rparr>"
    define pg1 where "pg1 = pg\<lparr>owner := oi # owner pg, ref_count := ref_count pg + 1\<rparr>"
    define s1 where "s1 = set_pe oi (ov\<lparr>pe_p := p\<rparr>) (set_page p pg1 (set_page oldp opg1 s))"
    define s2 where "s2 = (case ptes s1 (pe_as ov) (ALIGN (pe_vaddr ov) PAGE_SIZE_BIT) of
        Some _ \<Rightarrow> set_pte (pe_as ov) (pe_vaddr ov) 0 s1 | None \<Rightarrow> s1)"
    have s2: "page_heap s2 = (page_heap s)(oldp \<mapsto> opg1, p \<mapsto> pg1)" "pe_heap s2 = (pe_heap s)(oi \<mapsto> ov\<lparr>pe_p := p\<rparr>)"
      by (simp_all add: s2_def s1_def set_pe_def set_page_def set_pte_def split: option.split)
    have ms: "filter (shared_pe s2) ois = filter (shared_pe s) ois"
      using Cons.prems(1) by (intro filter_cong) (auto simp: s2)
    have run: "move_shared oldp p (oi # ois) s = move_shared oldp p ois s2"
      using ov False Cons.prems(3-5) by (simp add: s2_def s1_def opg1_def pg1_def ptable_entry_def Let_def split: option.split)
    have "\<exists>pt. move_shared oldp p ois s2 = Some (s2
      \<lparr>page_heap := (page_heap s2)
         (oldp \<mapsto> opg1\<lparr>ref_count := ref_count opg1 - of_nat (length (filter (shared_pe s) ois)), owner := fold remove1 (filter (shared_pe s) ois) (owner opg1)\<rparr>,
          p \<mapsto> pg1\<lparr>ref_count := ref_count pg1 + of_nat (length (filter (shared_pe s) ois)), owner := rev (filter (shared_pe s) ois) @ owner pg1\<rparr>),
       pe_heap := (\<lambda>q. if q \<in> set (filter (shared_pe s) ois) then map_option (\<lambda>ev. ev\<lparr>pe_p := p\<rparr>) (pe_heap s2 q) else pe_heap s2 q),
       ptes := pt\<rparr>)"
    proof -
      have d: "distinct ois" and h: "page_heap s2 oldp = Some opg1" "page_heap s2 p = Some pg1"
        using Cons.prems(1,5) by (simp_all add: s2)
      have e: "\<forall>oj \<in> set ois. \<exists>ow. pe_heap s2 oj = Some ow \<and> GET_BIT (pe_vaddr ow) 63 = 0"
        using Cons.prems(1,2) by (auto simp: s2)
      show ?thesis by (rule Cons.IH [OF d e h Cons.prems(5), unfolded ms])
    qed
    moreover have "s2\<lparr>page_heap := a, pe_heap := b, ptes := c\<rparr> = s\<lparr>page_heap := a, pe_heap := b, ptes := c\<rparr>" for a b c
      by (cases s) (simp add: s2_def s1_def set_pe_def set_page_def set_pte_def split: option.split)
    moreover have "(\<lambda>q. if q \<in> set (filter (shared_pe s) ois) then map_option (\<lambda>ev. ev\<lparr>pe_p := p\<rparr>) (pe_heap s2 q) else pe_heap s2 q) =
        (\<lambda>q. if q \<in> set (filter (shared_pe s) (oi # ois)) then map_option (\<lambda>ev. ev\<lparr>pe_p := p\<rparr>) (pe_heap s q) else pe_heap s q)"
      using Cons.prems(1) ov False by (auto simp: fun_eq_iff s2)
    ultimately show ?thesis unfolding run using ov False Cons.prems(5) 
      by (simp add: s2 opg1_def pg1_def fun_upd_def algebra_simps cong: if_cong)
  qed
qed

section \<open>A page for the copy\<close>

lemma aligned_disjoint:
  assumes "IS_ALIGNED a 12" and "IS_ALIGNED b 12" and "a \<noteq> (b :: u64)" and "unat off < 4096"
  shows "\<not> a + off - b < 4096"
proof
  assume d: "a + off - b < 4096"
  have "ALIGN (a + off) 12 = a" using ALIGN_within [OF assms(1,4)] by simp
  moreover have "ALIGN (b + (a + off - b)) 12 = b"
    using ALIGN_within [OF assms(2), of "unat (a + off - b)"] d by (simp add: word_less_nat_alt)
  ultimately show False using assms(3) by simp
qed

lemma phys_to_virt_aligned: "IS_ALIGNED x 12 \<Longrightarrow> IS_ALIGNED (phys_to_virt x) 12"
proof -
  have "4096 dvd unat (x + KERN_VMBASE)" if "4096 dvd unat x"
  proof -
    have "4096 dvd unat KERN_VMBASE" by (simp add: KERN_VMBASE_def)
    then have "4096 dvd unat x + unat KERN_VMBASE" using that by (rule dvd_add [rotated])
    then have "4096 dvd (unat x + unat KERN_VMBASE) mod 2 ^ 64" by (simp add: dvd_mod)
    then show ?thesis by (simp add: unat_word_ariths)
  qed
  then show "IS_ALIGNED x 12 \<Longrightarrow> IS_ALIGNED (phys_to_virt x) 12" by (simp add: align_simps phys_to_virt_def)
qed

lemma virt_to_phys_aligned:
  assumes "IS_ALIGNED a 12"
  shows "IS_ALIGNED (a - KERN_VMBASE) 12"
proof -
  have "4096 dvd unat a + 0x7f8000000000" using assms by (simp add: align_simps dvd_add)
  then have "4096 dvd (unat a + 0x7f8000000000) mod 2 ^ 64" by (simp add: dvd_mod)
  then have "4096 dvd unat (a + 0x7f8000000000)" by (simp add: unat_word_ariths)
  moreover have e: "a - KERN_VMBASE = a + 0x7f8000000000" by (simp add: KERN_VMBASE_def)
  ultimately show ?thesis unfolding e by (simp add: align_simps)
qed

text \<open>Taking a page, copying the old one and managing it: a new page object \<open>p\<close> with one reference,
  whose bytes are those of the old page; nothing else changes.\<close>

lemma fresh_page:
  assumes "cow_inv s" and "free_pages s = a # as"
  obtains s1 t where "get_page (disable_interrupts s) = Some (a, s1)"
    "\<forall>m. manage_phys_page (a - KERN_VMBASE) (s1\<lparr>pmem := m\<rparr>) = Some (Inr (next_id s), s1
      \<lparr>phys_pages := t, page_heap := (page_heap s)(next_id s \<mapsto> \<lparr>phys_addr = a - KERN_VMBASE, ref_count = 1, snap_count = 0, owner = []\<rparr>),
       pmem := m, next_id := next_id s + 1\<rparr>)"
    "free_pages s1 = as" "phys_inv s1" "interrupt_disabled s1 = Suc (interrupt_disabled s)" "pe_heap s1 = pe_heap s" "as_heap s1 = as_heap s"
    "pmem s1 = pmem s" "cur_as s1 = cur_as s" "page_heap s1 = page_heap s" "IS_ALIGNED a 12" "a \<notin> set as" "binradix_wf t"
    "binradix_find t = (binradix_find (phys_pages s))(a - KERN_VMBASE \<mapsto> next_id s)"
    "binradix_find (phys_pages s) (a - KERN_VMBASE) = None"
proof -
  have inv: "phys_inv s" using assms(1) by (simp add: cow_inv_def)
  have "phys_inv (disable_interrupts s)" "free_pages (disable_interrupts s) = a # as" using inv assms(2) by simp_all
  then obtain s1 where s1: "get_page (disable_interrupts s) = Some (a, s1)" "free_pages s1 = as" "phys_inv s1"
    "interrupt_disabled s1 = interrupt_disabled (disable_interrupts s)" "phys_mem.more s1 = phys_mem.more (disable_interrupts s)"
    by (rule get_page_spec)
  have f: "page_heap s1 = page_heap s" "pe_heap s1 = pe_heap s" "as_heap s1 = as_heap s" "pmem s1 = pmem s" "cur_as s1 = cur_as s"
    "next_id s1 = next_id s" "phys_pages s1 = phys_pages s"
    using s1(5) by (cases s; cases s1; simp)+
  have al: "IS_ALIGNED a 12" using free_pages_aligned [OF inv] assms(2) by simp
  have ap: "IS_ALIGNED (a - KERN_VMBASE) PAGE_SIZE_BIT" using virt_to_phys_aligned [OF al] by simp
  have none: "binradix_find (phys_pages s) (a - KERN_VMBASE) = None"
  proof (rule ccontr)
    assume "binradix_find (phys_pages s) (a - KERN_VMBASE) \<noteq> None"
    then obtain p pg where pg: "page_heap s p = Some pg" "phys_addr pg = a - KERN_VMBASE" using cow_invD(7) [OF assms(1)] by blast
    then have "phys_to_virt (phys_addr pg) \<notin> set (free_pages s)" using cow_invD(3) [OF assms(1) pg(1)] by (simp add: page_ok_def)
    then show False using pg(2) assms(2) by (simp add: phys_to_virt_def)
  qed
  have "binradix_wf (phys_pages s)" using assms(1) by (simp add: cow_inv_def)
  from insert_absent [OF this none] obtain t where t: "binradix_insert (phys_pages s) (a - KERN_VMBASE) (next_id s) = Some (None, t)"
    "binradix_wf t" "binradix_find t = (binradix_find (phys_pages s))(a - KERN_VMBASE \<mapsto> next_id s)" by blast
  have "a \<notin> set as" using inv assms(2) by (simp add: phys_inv_def)
  moreover have "manage_phys_page (a - KERN_VMBASE) (s1\<lparr>pmem := m\<rparr>) = Some (Inr (next_id s), s1
      \<lparr>phys_pages := t, page_heap := (page_heap s)(next_id s \<mapsto> \<lparr>phys_addr = a - KERN_VMBASE, ref_count = 1, snap_count = 0, owner = []\<rparr>),
       pmem := m, next_id := next_id s + 1\<rparr>)" for m
    using ap none t(1) f
    by (simp add: manage_phys_page_def manage_phys_page_locked_def fresh_id_def set_page_def disable_interrupts_def
      enable_interrupts_def Let_def)
  ultimately show ?thesis using that [of s1 t] s1 f al t(2,3) none by simp
qed

section \<open>Unsharing\<close>

lemma cow_inv_lock [simp]: "cow_inv (disable_interrupts s) = cow_inv s"
  by (simp add: cow_inv_def page_ok_def entry_ok_def counts_ok_def)

text \<open>The owners that leave the old page together with \<open>pe\<close>, and what becomes of the old page and the
  entries.\<close>

definition moved :: "mm \<Rightarrow> nat \<Rightarrow> page \<Rightarrow> nat list" where
  "moved s pe pg = (if shared_pe s pe then filter (shared_pe s) (remove1 pe (owner pg)) else [])"

definition left_page :: "mm \<Rightarrow> nat \<Rightarrow> page \<Rightarrow> page" where
  "left_page s pe pg = pg
     \<lparr>ref_count := ref_count pg - of_nat (length (moved s pe pg)) - 1,
      snap_count := (if shared_pe s pe then snap_count pg else snap_count pg - 1),
      owner := filter (\<lambda>x. x \<notin> set (moved s pe pg)) (remove1 pe (owner pg))\<rparr>"

definition own_page :: "mm \<Rightarrow> nat \<Rightarrow> page \<Rightarrow> u64 \<Rightarrow> page" where
  "own_page s pe pg a =
     \<lparr>phys_addr = a - KERN_VMBASE, ref_count = 1 + of_nat (length (moved s pe pg)), snap_count = 0, owner = pe # rev (moved s pe pg)\<rparr>"

definition moved_entries :: "mm \<Rightarrow> nat \<Rightarrow> page_entry \<Rightarrow> page \<Rightarrow> nat \<Rightarrow> nat \<Rightarrow> page_entry option" where
  "moved_entries s pe ev pg p =
     (\<lambda>q. if q = pe then Some (ev\<lparr>pe_p := p, pe_flags := (if shared_pe s pe then pe_flags ev else PF_SHARED)\<rparr>)
          else if q \<in> set (moved s pe pg) then map_option (\<lambda>ev. ev\<lparr>pe_p := p\<rparr>) (pe_heap s q)
          else pe_heap s q)"

lemma count_shared_split:
  "length (filter P xs) + length (filter (\<lambda>x. \<not> P x) xs) = length xs"
  by (rule sum_length_filter_compl)

lemma remove1_filter_length:
  assumes "x \<in> set xs"
  shows "length (filter P xs) = (if P x then 1 else 0) + length (filter P (remove1 x xs))"
  using assms by (induction xs) auto

text \<open>Enough references stay on the old page: it is not freed.\<close>

lemma left_page_refs:
  assumes "counts_ok s pg" and "pe \<in> set (owner pg)" and "snap_count pg \<noteq> 0" and "\<not> (snap_count pg = ref_count pg \<and> ref_count pg = 1)"
  shows "length (moved s pe pg) + 2 \<le> unat (ref_count pg)"
proof -
  let ?k = "length (filter (\<lambda>pe. \<not> shared_pe s pe) (owner pg))" and ?n = "length (owner pg)"
  have c: "?n \<le> unat (ref_count pg)" "?k \<le> unat (snap_count pg)" "unat (snap_count pg) - ?k \<le> unat (ref_count pg) - ?n"
    using assms(1) by (simp_all add: counts_ok_def Let_def)
  have z: "unat (snap_count pg) \<noteq> 0" using assms(3) by (simp add: unat_eq_zero)
  have n: "length (filter (shared_pe s) (owner pg)) + ?k = ?n" by (rule count_shared_split)
  have sh: "length (filter (shared_pe s) (owner pg)) = (if shared_pe s pe then 1 else 0) + length (filter (shared_pe s) (remove1 pe (owner pg)))"
    by (rule remove1_filter_length [OF assms(2)])
  show ?thesis
  proof (cases "shared_pe s pe")
    case True
    then show ?thesis using c z n sh by (simp add: moved_def)
  next
    case False
    then have "?k \<noteq> 0" using assms(2) by (auto simp: filter_empty_conv)
    moreover have "unat (ref_count pg) \<noteq> 1 \<or> unat (snap_count pg) \<noteq> 1" using assms(4) by (metis unat_1 word_eq_iff_unat)
    ultimately show ?thesis using False c n z by (auto simp: moved_def)
  qed
qed

lemma unmap_page_ptes: "unmap_page va s = s\<lparr>ptes := ptes (unmap_page va s)\<rparr>"
  by (simp add: unmap_page_def set_pte_def split: option.split)

lemma unshare_tail:
  assumes "page_heap s oldp = Some og" and "page_heap s p = Some ng" and "pe_heap s pe = Some ev" and "oldp \<noteq> p"
    and "ref_count og \<noteq> 1" and "interrupt_disabled s = Suc i"
  shows "\<exists>pt. join_page oldp p pe s = Some (s
     \<lparr>interrupt_disabled := i,
      page_heap := (page_heap s)(p \<mapsto> ng\<lparr>owner := pe # owner ng\<rparr>, oldp \<mapsto> og\<lparr>ref_count := ref_count og - 1\<rparr>),
      pe_heap := (pe_heap s)(pe \<mapsto> ev\<lparr>pe_p := p\<rparr>), ptes := pt\<rparr>)"
proof -
  let ?s1 = "set_page p (ng\<lparr>owner := pe # owner ng\<rparr>) (set_pe pe (ev\<lparr>pe_p := p\<rparr>) s)"
  obtain pt where pt: "unmap_page (pe_vaddr ev) ?s1 = ?s1\<lparr>ptes := pt\<rparr>"
    using unmap_page_ptes by blast
  have "ref_count og - 1 \<noteq> 0" using assms(5) by simp
  then have "page_unref oldp False (?s1\<lparr>ptes := pt\<rparr>) = Some (False, set_page oldp (og\<lparr>ref_count := ref_count og - 1\<rparr>) (?s1\<lparr>ptes := pt\<rparr>))"
    using assms(1,4) by (simp add: page_unref_def Let_def)
  then show ?thesis using assms(2,3,6) pt
    by (cases s) (simp add: join_page_def enable_interrupts_def set_page_def set_pe_def Let_def fun_upd_twist)
qed

text \<open>The middle of the copying branches: the owners are moved or the snapshot taken out.\<close>

lemma unshare_middle:
  assumes "page_heap s2 oldp = Some pg" and "page_heap s2 p = Some ng" and "oldp \<noteq> p" and "pe_heap s2 = pe_heap s"
    and "pe_heap s pe = Some ev" and "distinct (owner pg)" and "pe \<in> set (owner pg)" and "counts_ok s pg" and "snap_count pg \<noteq> 0"
    and own: "\<forall>q \<in> set (owner pg). \<exists>qv. pe_heap s q = Some qv \<and> GET_BIT (pe_vaddr qv) 63 = 0"
    and "ref_count ng = 1" and "owner ng = []" and "snap_count ng = 0"
  defines "ms \<equiv> moved s pe pg"
  shows "\<exists>pt. leave_page oldp p pe ev (pg\<lparr>owner := remove1 pe (owner pg)\<rparr>) s2 =
    Some (s2\<lparr>page_heap := (page_heap s2)
        (oldp \<mapsto> (left_page s pe pg)\<lparr>ref_count := ref_count pg - of_nat (length ms)\<rparr>,
         p \<mapsto> ng\<lparr>ref_count := 1 + of_nat (length ms), owner := rev ms\<rparr>),
      pe_heap := (\<lambda>q. if q = pe then Some (ev\<lparr>pe_flags := (if shared_pe s pe then pe_flags ev else PF_SHARED)\<rparr>)
                       else if q \<in> set ms then map_option (\<lambda>ev. ev\<lparr>pe_p := p\<rparr>) (pe_heap s q) else pe_heap s q), ptes := pt\<rparr>)"
proof (cases "pe_flags ev AND PF_SHARED = 0")
  case False
  then have sh: "shared_pe s pe" using assms(5) by simp
  then have ms: "ms = filter (shared_pe s) (remove1 pe (owner pg))" by (simp add: ms_def moved_def)
  let ?opg = "pg\<lparr>owner := remove1 pe (owner pg)\<rparr>" and ?s = "set_page oldp (pg\<lparr>owner := remove1 pe (owner pg)\<rparr>) s2"
  have "distinct (remove1 pe (owner pg))" using assms(6) by simp
  moreover have "\<forall>oi \<in> set (remove1 pe (owner pg)). \<exists>ov. pe_heap ?s oi = Some ov \<and> GET_BIT (pe_vaddr ov) 63 = 0"
    using own assms(4) by (auto dest: notin_set_remove1 set_remove1_subset [THEN subsetD])
  moreover have "page_heap ?s oldp = Some ?opg" "page_heap ?s p = Some ng" using assms(2,3) by simp_all
  ultimately obtain pt where "move_shared oldp p (remove1 pe (owner pg)) ?s = Some (?s
    \<lparr>page_heap := (page_heap ?s)
       (oldp \<mapsto> ?opg\<lparr>ref_count := ref_count ?opg - of_nat (length ms), owner := fold remove1 ms (owner ?opg)\<rparr>,
        p \<mapsto> ng\<lparr>ref_count := ref_count ng + of_nat (length ms), owner := rev ms @ owner ng\<rparr>),
     pe_heap := (\<lambda>q. if q \<in> set ms then map_option (\<lambda>ev. ev\<lparr>pe_p := p\<rparr>) (pe_heap ?s q) else pe_heap ?s q),
     ptes := pt\<rparr>)"
    using move_shared_spec [of "remove1 pe (owner pg)" ?s oldp ?opg p ng] assms(3,4) ms by auto
  moreover have "fold remove1 ms (owner ?opg) = filter (\<lambda>x. x \<notin> set ms) (remove1 pe (owner pg))"
    using assms(6) by (simp add: remove1_fold_distinct)
  moreover have "pe \<notin> set ms" using assms(6) by (simp add: ms)
  then have "(\<lambda>q. if q \<in> set ms then map_option (\<lambda>ev. ev\<lparr>pe_p := p\<rparr>) (pe_heap ?s q) else pe_heap ?s q) =
      (\<lambda>q. if q = pe then Some (ev\<lparr>pe_flags := (if shared_pe s pe then pe_flags ev else PF_SHARED)\<rparr>)
                       else if q \<in> set ms then map_option (\<lambda>ev. ev\<lparr>pe_p := p\<rparr>) (pe_heap s q) else pe_heap s q)"
    using sh assms(4,5) by (auto simp: fun_eq_iff)
  moreover have "(left_page s pe pg)\<lparr>ref_count := r\<rparr> = pg\<lparr>ref_count := r, owner := filter (\<lambda>x. x \<notin> set ms) (remove1 pe (owner pg))\<rparr>" for r
    using sh by (cases pg) (simp add: left_page_def ms_def)
  ultimately show ?thesis using False sh assms(11-12)
    by (cases s2) (simp add: leave_page_def set_page_def fun_upd_def Let_def cong: if_cong)
next
  case True
  then have sh: "\<not> shared_pe s pe" using assms(5) by simp
  then have ms: "ms = []" by (simp add: ms_def moved_def)
  let ?opg = "pg\<lparr>owner := remove1 pe (owner pg), snap_count := snap_count pg - 1\<rparr>"
  let ?s = "set_page oldp ?opg (set_pe pe (ev\<lparr>pe_flags := PF_SHARED\<rparr>) (set_page oldp (pg\<lparr>owner := remove1 pe (owner pg)\<rparr>) s2))"
  have "\<exists>pt. restore_write True (owner ?opg) ?s = Some (?s\<lparr>ptes := pt\<rparr>)" if "snap_count pg = 1"
  proof (rule restore_write_spec)
    have "length (filter (\<lambda>pe. \<not> shared_pe s pe) (owner pg)) \<le> 1" using assms(8) that by (simp add: counts_ok_def Let_def)
    then have "length (filter (\<lambda>pe. \<not> shared_pe s pe) (remove1 pe (owner pg))) = 0"
      using remove1_filter_length [OF assms(7), of "\<lambda>pe. \<not> shared_pe s pe"] sh by simp
    then have "\<forall>q \<in> set (remove1 pe (owner pg)). shared_pe s q" by (simp add: filter_empty_conv)
    show "\<forall>ob \<in> set (owner ?opg). \<exists>ov. pe_heap ?s ob = Some ov \<and> GET_BIT (pe_vaddr ov) 63 = 0 \<and> (True \<longrightarrow> pe_flags ov AND PF_SHARED \<noteq> 0)"
    proof (intro ballI)
      fix q assume "q \<in> set (owner ?opg)"
      then have q: "q \<in> set (remove1 pe (owner pg))" by simp
      then have "q \<in> set (owner pg)" "q \<noteq> pe" using assms(6) set_remove1_subset by (fastforce, simp)
      moreover have "shared_pe s q" using q \<open>\<forall>q \<in> set (remove1 pe (owner pg)). shared_pe s q\<close> by blast
      ultimately show "\<exists>ov. pe_heap ?s q = Some ov \<and> GET_BIT (pe_vaddr ov) 63 = 0 \<and> (True \<longrightarrow> pe_flags ov AND PF_SHARED \<noteq> 0)"
        using own assms(4) by fastforce
    qed
  qed
  then obtain pt where "(if snap_count ?opg = 0 then restore_write True (owner ?opg) ?s else Some ?s) = Some (?s\<lparr>ptes := pt\<rparr>)"
    by (cases "snap_count pg = 1") (auto intro: that [of "ptes s2"])
  moreover have "pe_heap ?s = (\<lambda>q. if q = pe then Some (ev\<lparr>pe_flags := (if shared_pe s pe then pe_flags ev else PF_SHARED)\<rparr>)
      else if q \<in> set ms then map_option (\<lambda>ev. ev\<lparr>pe_p := p\<rparr>) (pe_heap s q) else pe_heap s q)"
    using sh assms(4) ms by (auto simp: fun_eq_iff)
  moreover have "(left_page s pe pg)\<lparr>ref_count := ref_count pg\<rparr> = ?opg"
    using sh by (cases pg) (simp add: left_page_def moved_def)
  moreover have "ng\<lparr>ref_count := 1, owner := []\<rparr> = ng" using assms(11,12) by (cases ng) simp
  ultimately show ?thesis using True sh assms(2,3) ms
    by (cases s2) (auto simp: leave_page_def set_page_def set_pe_def Let_def fun_upd_def cong: if_cong)
qed

text \<open>A copying call of \<^verbatim>\<open>unshare_page\<close> in full.\<close>

lemma unshare_copy:
  assumes inv: "cow_inv s" and ev: "pe_heap s pe = Some ev" "pe_as ev = cur_as s" "pe_flags ev AND PF_HARDWARE = 0"
    and pg: "page_heap s (pe_p ev) = Some pg" "snap_count pg \<noteq> 0" "\<not> (snap_count pg = ref_count pg \<and> ref_count pg = 1)"
    and fp: "free_pages s = a # as"
  obtains s1 t pt where
    "unshare_page pe s = Some (s1\<lparr>interrupt_disabled := interrupt_disabled s, phys_pages := t,
       page_heap := (page_heap s)(pe_p ev \<mapsto> left_page s pe pg, next_id s \<mapsto> own_page s pe pg a),
       pe_heap := moved_entries s pe ev pg (next_id s), ptes := pt,
       pmem := (\<lambda>x. if x - a < PAGE_SIZE then pmem s (phys_to_virt (phys_addr pg) + (x - a)) else pmem s x),
       next_id := next_id s + 1\<rparr>)"
    "free_pages s1 = as" "phys_inv s1" "as_heap s1 = as_heap s" "cur_as s1 = cur_as s"
    "IS_ALIGNED a 12" "a \<notin> set as" "binradix_wf t"
    "binradix_find t = (binradix_find (phys_pages s))(a - KERN_VMBASE \<mapsto> next_id s)"
    "binradix_find (phys_pages s) (a - KERN_VMBASE) = None"
proof -
  let ?s0 = "disable_interrupts s" and ?p = "next_id s"
  let ?m = "\<lambda>x. if x - a < PAGE_SIZE then pmem s (phys_to_virt (phys_addr pg) + (x - a)) else pmem s x"
  let ?new = "\<lparr>phys_addr = a - KERN_VMBASE, ref_count = 1, snap_count = 0, owner = []\<rparr>"
  obtain s1 t where s1: "get_page ?s0 = Some (a, s1)"
    "\<forall>m. manage_phys_page (a - KERN_VMBASE) (s1\<lparr>pmem := m\<rparr>) = Some (Inr ?p, s1
      \<lparr>phys_pages := t, page_heap := (page_heap s)(?p \<mapsto> ?new), pmem := m, next_id := ?p + 1\<rparr>)"
    "free_pages s1 = as" "phys_inv s1" "interrupt_disabled s1 = Suc (interrupt_disabled s)" "pe_heap s1 = pe_heap s" "as_heap s1 = as_heap s"
    "pmem s1 = pmem s" "cur_as s1 = cur_as s" "page_heap s1 = page_heap s" "IS_ALIGNED a 12" "a \<notin> set as" "binradix_wf t"
    "binradix_find t = (binradix_find (phys_pages s))(a - KERN_VMBASE \<mapsto> next_id s)"
    "binradix_find (phys_pages s) (a - KERN_VMBASE) = None"
    by (rule fresh_page [OF inv fp]) blast
  define s2 where "s2 = s1\<lparr>phys_pages := t, page_heap := (page_heap s)(?p \<mapsto> ?new), pmem := ?m, next_id := ?p + 1\<rparr>"
  have po: "page_ok s (pe_p ev) pg" by (rule cow_invD(3) [OF inv pg(1)])
  have ne: "pe_p ev \<noteq> ?p" using cow_invD(5) [OF inv, of ?p] pg(1) by auto
  have own: "\<forall>q \<in> set (owner pg). \<exists>qv. pe_heap s q = Some qv \<and> GET_BIT (pe_vaddr qv) 63 = 0"
    using po cow_invD(4) [OF inv] by (fastforce simp: page_ok_def entry_ok_def)
  have o: "distinct (owner pg)" "pe \<in> set (owner pg)" "counts_ok s pg" using po ev(1) by (auto simp: page_ok_def)
  have refs: "length (moved s pe pg) + 2 \<le> unat (ref_count pg)" by (rule left_page_refs [OF o(3,2) pg(2,3)])
  then have r1: "ref_count pg \<noteq> 1" by auto
  have r2: "ref_count pg - of_nat (length (moved s pe pg)) \<noteq> 1"
  proof
    assume "ref_count pg - of_nat (length (moved s pe pg)) = 1"
    then have "ref_count pg = of_nat (length (moved s pe pg) + 1)" by (simp add: algebra_simps)
    moreover have "length (moved s pe pg) + 1 < 2 ^ LENGTH(64)" using refs unsigned_less [of "ref_count pg", where 'a = nat] by linarith
    ultimately show False using refs unat_of_nat_lt [of "length (moved s pe pg) + 1", where 'a = 64] by simp
  qed
  have c: "copy_page a (phys_to_virt (phys_addr pg)) s1 = s1\<lparr>pmem := ?m\<rparr>" by (simp only: copy_page_def s1(8))
  have h: "page_heap s2 (pe_p ev) = Some pg" "page_heap s2 ?p = Some ?new" "pe_heap s2 = pe_heap s" "interrupt_disabled s2 = Suc (interrupt_disabled s)"
    using pg(1) ne s1(5,6) by (simp_all add: s2_def)
  obtain pt where mid: "leave_page (pe_p ev) ?p pe ev (pg\<lparr>owner := remove1 pe (owner pg)\<rparr>) s2 =
    Some (s2\<lparr>page_heap := (page_heap s2)
        (pe_p ev \<mapsto> (left_page s pe pg)\<lparr>ref_count := ref_count pg - of_nat (length (moved s pe pg))\<rparr>,
         ?p \<mapsto> ?new\<lparr>ref_count := 1 + of_nat (length (moved s pe pg)), owner := rev (moved s pe pg)\<rparr>),
      pe_heap := (\<lambda>q. if q = pe then Some (ev\<lparr>pe_flags := (if shared_pe s pe then pe_flags ev else PF_SHARED)\<rparr>)
                       else if q \<in> set (moved s pe pg) then map_option (\<lambda>ev. ev\<lparr>pe_p := ?p\<rparr>) (pe_heap s q) else pe_heap s q), ptes := pt\<rparr>)"
    using unshare_middle [OF h(1,2) ne h(3) ev(1) o pg(2) own] by auto
  define og where "og = (left_page s pe pg)\<lparr>ref_count := ref_count pg - of_nat (length (moved s pe pg))\<rparr>"
  define ng where "ng = ?new\<lparr>ref_count := 1 + of_nat (length (moved s pe pg)), owner := rev (moved s pe pg)\<rparr>"
  define pv where "pv = ev\<lparr>pe_flags := (if shared_pe s pe then pe_flags ev else PF_SHARED)\<rparr>"
  define s4 where "s4 = s2\<lparr>page_heap := (page_heap s2)(pe_p ev \<mapsto> og, ?p \<mapsto> ng),
      pe_heap := (\<lambda>q. if q = pe then Some pv
                       else if q \<in> set (moved s pe pg) then map_option (\<lambda>ev. ev\<lparr>pe_p := ?p\<rparr>) (pe_heap s q) else pe_heap s q), ptes := pt\<rparr>"
  note mid = mid [folded og_def ng_def pv_def, folded s4_def]
  have h4: "page_heap s4 (pe_p ev) = Some og" "page_heap s4 ?p = Some ng" "pe_heap s4 pe = Some pv"
      "interrupt_disabled s4 = Suc (interrupt_disabled s)"
    using ne h(4) by (simp_all add: s4_def)
  have og1: "ref_count og \<noteq> 1" using r2 by (simp add: og_def)
  have f: "og\<lparr>ref_count := ref_count og - 1\<rparr> = left_page s pe pg" "ng\<lparr>owner := pe # owner ng\<rparr> = own_page s pe pg a"
      "(pe_heap s4)(pe \<mapsto> pv\<lparr>pe_p := ?p\<rparr>) = moved_entries s pe ev pg ?p" "pe_vaddr pv = pe_vaddr ev"
    by (simp add: og_def left_page_def, simp add: ng_def own_page_def,
      cases ev, simp add: s4_def pv_def moved_entries_def fun_eq_iff, simp add: pv_def)
  obtain pt' where tail: "join_page (pe_p ev) ?p pe s4 = Some (s4
     \<lparr>interrupt_disabled := interrupt_disabled s,
      page_heap := (page_heap s4)(?p \<mapsto> own_page s pe pg a, pe_p ev \<mapsto> left_page s pe pg),
      pe_heap := moved_entries s pe ev pg ?p, ptes := pt'\<rparr>)"
    using unshare_tail [OF h4(1,2,3) ne og1 h4(4)] unfolding f by blast
  have run: "unshare_page pe s = Some (s4\<lparr>interrupt_disabled := interrupt_disabled s,
      page_heap := (page_heap s4)(?p \<mapsto> own_page s pe pg a, pe_p ev \<mapsto> left_page s pe pg),
      pe_heap := moved_entries s pe ev pg ?p, ptes := pt'\<rparr>)"
  proof -
    have "manage_phys_page (a - KERN_VMBASE) (copy_page a (phys_to_virt (phys_addr pg)) s1) = Some (Inr ?p, s2)"
      unfolding c s2_def using s1(2) by blast
    then show ?thesis using mid tail pg(3) by (simp add: unshare_page_def ev pg(1,2) r1 s1(1) h(1) Let_def)
  qed
  show ?thesis
    by (rule that [of pt' t s1])
      (use run ne s1 in \<open>simp_all add: s4_def s2_def fun_upd_twist\<close>)
qed

lemma pe_phys_Some:
  "pe_phys q s = Some k \<longleftrightarrow> (\<exists>qv pg. pe_heap s q = Some qv \<and> page_heap s (pe_p qv) = Some pg \<and> k = phys_to_virt (phys_addr pg))"
  by (auto simp: pe_phys_def split: bind_splits)

text \<open>Different pages are at different places, and none of them at a free page.\<close>

lemma pages_distinct:
  assumes "cow_inv s" and "page_heap s p = Some pg" and "page_heap s q = Some qg" and "phys_addr pg = phys_addr qg"
  shows "p = q"
  using cow_invD(7) [OF assms(1), of "phys_addr pg" p] cow_invD(7) [OF assms(1), of "phys_addr pg" q] assms(2-4) by auto

lemma moved_iff:
  assumes "cow_inv s" and "page_heap s p = Some pg" and "q \<in> set (moved s pe pg)"
  shows "q \<noteq> pe" "shared_pe s pe" "\<exists>qv. pe_heap s q = Some qv \<and> pe_p qv = p \<and> pe_flags qv AND PF_SHARED \<noteq> 0"
proof -
  have po: "page_ok s p pg" by (rule cow_invD(3) [OF assms(1,2)])
  show "q \<noteq> pe" "shared_pe s pe" using assms(3) po by (auto simp: moved_def page_ok_def split: if_splits)
  have "q \<in> set (owner pg)" "shared_pe s q" using assms(3) set_remove1_subset by (fastforce simp: moved_def split: if_splits)+
  then show "\<exists>qv. pe_heap s q = Some qv \<and> pe_p qv = p \<and> pe_flags qv AND PF_SHARED \<noteq> 0" using po by (auto simp: page_ok_def)
qed

text \<open>Where the entries are after a copying call.\<close>

lemma unshared_phys:
  assumes inv: "cow_inv s" and ev: "pe_heap s pe = Some ev" and pg: "page_heap s (pe_p ev) = Some pg"
    and s': "page_heap s' = (page_heap s)(pe_p ev \<mapsto> left_page s pe pg, next_id s \<mapsto> own_page s pe pg a)"
      "pe_heap s' = moved_entries s pe ev pg (next_id s)"
  shows "pe_phys q s' = (if q = pe \<or> q \<in> set (moved s pe pg) then Some a else pe_phys q s)"
proof (cases "q = pe \<or> q \<in> set (moved s pe pg)")
  case True
  then have "\<exists>qv. pe_heap s' q = Some qv \<and> pe_p qv = next_id s"
    using moved_iff(3) [OF inv pg, of q pe] by (cases "q = pe") (fastforce simp: s'(2) moved_entries_def)+
  then show ?thesis using True by (auto simp: pe_phys_def s'(1) own_page_def phys_to_virt_def)
next
  case False
  then have q: "pe_heap s' q = pe_heap s q" by (simp add: s'(2) moved_entries_def)
  have "page_heap s' p = map_option (\<lambda>g. if p = pe_p ev then left_page s pe pg else g) (page_heap s p)" if "p \<noteq> next_id s" for p
    using that pg by (auto simp: s'(1) option.map_ident)
  moreover have "pe_p qv \<noteq> next_id s" if "pe_heap s q = Some qv" for qv
    using cow_invD(4) [OF inv that] cow_invD(5) [OF inv, of "next_id s"] by (auto simp: entry_ok_def)
  moreover have "phys_addr (left_page s pe pg) = phys_addr pg" by (simp add: left_page_def)
  ultimately show ?thesis using False q pg
    by (cases "pe_heap s q"; cases "page_heap s (pe_p (the (pe_heap s q)))") (auto simp: pe_phys_def)
qed

lemma unshare_sole:
  assumes "pe_heap s pe = Some ev" and "pe_as ev = cur_as s" and "pe_flags ev AND PF_HARDWARE = 0"
    and "page_heap s (pe_p ev) = Some pg" and "snap_count pg = 1" and "ref_count pg = 1"
  shows "\<exists>pt. unshare_page pe s = Some (s\<lparr>page_heap := (page_heap s)(pe_p ev \<mapsto> pg\<lparr>snap_count := 0\<rparr>), ptes := pt\<rparr>)"
proof -
  let ?s = "set_page (pe_p ev) (pg\<lparr>snap_count := 0\<rparr>) (disable_interrupts s)"
  obtain pt where pt: "unmap_page (pe_vaddr ev) ?s = ?s\<lparr>ptes := pt\<rparr>" using unmap_page_ptes by blast
  have "enable_interrupts (?s\<lparr>ptes := pt\<rparr>) = Some (s\<lparr>page_heap := (page_heap s)(pe_p ev \<mapsto> pg\<lparr>snap_count := 0\<rparr>), ptes := pt\<rparr>)"
    by (cases s) (simp add: enable_interrupts_def disable_interrupts_def set_page_def)
  then have "unshare_page pe s = Some (s\<lparr>page_heap := (page_heap s)(pe_p ev \<mapsto> pg\<lparr>snap_count := 0\<rparr>), ptes := pt\<rparr>)"
    using assms pt by (simp add: unshare_page_def Let_def)
  then show ?thesis by blast
qed

section \<open>The invariant after a copy\<close>

lemma unat_minus_of_nat:
  assumes "m + 1 \<le> unat (x :: u64)"
  shows "unat (x - of_nat m - 1) = unat x - m - 1"
proof -
  have "m + 1 < 2 ^ LENGTH(64)" using assms unsigned_less [of x, where 'a = nat] by linarith
  then have m: "unat (of_nat (m + 1) :: u64) = m + 1" by (rule unat_of_nat_lt)
  then have "unat (x - of_nat (m + 1)) = unat x - (m + 1)"
    using assms by (subst unat_sub) (simp_all only: word_le_nat_alt m)
  then show ?thesis by (simp add: diff_diff_eq add.commute)
qed

lemma filter_moved:
  assumes "shared_pe s pe"
  shows "filter (\<lambda>x. x \<notin> set (moved s pe pg)) (remove1 pe (owner pg)) = filter (\<lambda>x. \<not> shared_pe s x) (remove1 pe (owner pg))"
  using assms by (intro filter_cong) (auto simp: moved_def)

lemma left_page_counts:
  assumes "counts_ok s pg" and "pe \<in> set (owner pg)" and "distinct (owner pg)" and "snap_count pg \<noteq> 0"
    and "length (moved s pe pg) + 2 \<le> unat (ref_count pg)" and sh: "\<And>q. q \<noteq> pe \<Longrightarrow> shared_pe s' q = shared_pe s q"
  shows "counts_ok s' (left_page s pe pg)"
proof -
  let ?ns = "\<lambda>x. \<not> shared_pe s x" and ?xs = "owner pg"
  define k where "k = length (filter ?ns ?xs)"
  have c: "length ?xs \<le> unat (ref_count pg)" "k \<le> unat (snap_count pg)" "unat (snap_count pg) - k \<le> unat (ref_count pg) - length ?xs"
    using assms(1) by (simp_all add: counts_ok_def Let_def k_def)
  have k1: "k = (if ?ns pe then 1 else 0) + length (filter ?ns (remove1 pe ?xs))"
    unfolding k_def by (rule remove1_filter_length [OF assms(2)])
  have n1: "length ?xs = Suc (length (remove1 pe ?xs))"
    using assms(2) by (simp add: length_remove1) (metis Suc_pred length_pos_if_in_set)
  have z: "unat (snap_count pg) \<noteq> 0" using assms(4) by (simp add: unat_eq_zero)
  let ?os = "owner (left_page s pe pg)"
  have sub: "set ?os \<subseteq> set ?xs - {pe}" using assms(3) by (auto simp: left_page_def)
  have ns: "filter (\<lambda>x. \<not> shared_pe s' x) ?os = filter ?ns ?os" using sub sh by (intro filter_cong) auto
  have ref: "unat (ref_count (left_page s pe pg)) = unat (ref_count pg) - length (moved s pe pg) - 1"
    using unat_minus_of_nat [of "length (moved s pe pg)" "ref_count pg"] assms(5) by (simp add: left_page_def)
  show ?thesis
  proof (cases "shared_pe s pe")
    case True
    have os: "?os = filter ?ns (remove1 pe ?xs)" using filter_moved [OF True] by (simp add: left_page_def)
    have "length (moved s pe pg) + length ?os = length (remove1 pe ?xs)"
      using count_shared_split [of "shared_pe s" "remove1 pe ?xs"] True os by (simp add: moved_def)
    moreover have "length (filter ?ns ?os) = length ?os" "length ?os = k" using os k1 True by simp_all
    moreover have "snap_count (left_page s pe pg) = snap_count pg" using True by (simp add: left_page_def)
    ultimately show ?thesis using c n1 ref unfolding counts_ok_def Let_def ns by auto
  next
    case False
    then have os: "?os = remove1 pe ?xs" "moved s pe pg = []" by (simp_all add: left_page_def moved_def)
    have "unat (snap_count (left_page s pe pg)) = unat (snap_count pg) - 1"
      using False z unat_minus_of_nat [of 0 "snap_count pg"] by (simp add: left_page_def)
    moreover note ns [unfolded os(1)]
    ultimately show ?thesis using c n1 k1 ref False z unfolding counts_ok_def Let_def os by auto
  qed
qed

lemma copied_inv:
  assumes inv: "cow_inv s" and ev: "pe_heap s pe = Some ev" "pe_flags ev AND PF_HARDWARE = 0"
    and pg: "page_heap s (pe_p ev) = Some pg" "snap_count pg \<noteq> 0" "\<not> (snap_count pg = ref_count pg \<and> ref_count pg = 1)"
    and fp: "free_pages s = a # as" and al: "IS_ALIGNED a 12" "a \<notin> set as"
    and t: "binradix_wf t" "binradix_find t = (binradix_find (phys_pages s))(a - KERN_VMBASE \<mapsto> next_id s)"
      "binradix_find (phys_pages s) (a - KERN_VMBASE) = None"
    and s': "page_heap s' = (page_heap s)(pe_p ev \<mapsto> left_page s pe pg, next_id s \<mapsto> own_page s pe pg a)"
      "pe_heap s' = moved_entries s pe ev pg (next_id s)" "phys_pages s' = t" "next_id s' = next_id s + 1"
      "free_pages s' = as" "phys_inv s'" "IS_ALIGNED (a - KERN_VMBASE) 12"
  shows "cow_inv s'"
proof -
  let ?n = "next_id s" and ?o = "pe_p ev" and ?ms = "moved s pe pg"
  have po: "page_ok s ?o pg" by (rule cow_invD(3) [OF inv pg(1)])
  have o: "distinct (owner pg)" "pe \<in> set (owner pg)" "counts_ok s pg" using po ev(1) by (auto simp: page_ok_def)
  have refs: "length ?ms + 2 \<le> unat (ref_count pg)" by (rule left_page_refs [OF o(3,2) pg(2,3)])
  have nn: "page_heap s ?n = None" "pe_heap s ?n = None" using cow_invD(5,6) [OF inv, of ?n] by simp_all
  have ne: "?o \<noteq> ?n" using nn pg(1) by auto
  have dm: "distinct ?ms" using o(1) by (simp add: moved_def)
  note mv = moved_iff [OF inv pg(1)]
  have sh: "shared_pe s' q = shared_pe s q" if "q \<noteq> pe" for q
    using that by (auto simp: s'(2) moved_entries_def split: option.split)
  have shpe: "shared_pe s' pe" using ev(1) by (simp add: s'(2) moved_entries_def PF_SHARED_def)
  have at: "(\<exists>qv. pe_heap s' q = Some qv \<and> pe_p qv = p) \<longleftrightarrow>
      (if p = ?n then q = pe \<or> q \<in> set ?ms else q \<noteq> pe \<and> q \<notin> set ?ms \<and> (\<exists>qv. pe_heap s q = Some qv \<and> pe_p qv = p))" for q p
  proof -
    have "pe_p qv \<noteq> ?n" if "pe_heap s q = Some qv" for qv using cow_invD(4) [OF inv that] nn(1) by (auto simp: entry_ok_def)
    then show ?thesis using mv(3) [of q pe] by (auto simp: s'(2) moved_entries_def)
  qed
  have new: "page_ok s' ?n (own_page s pe pg a)"
  proof -
    have "length ?ms + 1 < 2 ^ LENGTH(64)" using refs unsigned_less [of "ref_count pg", where 'a = nat] by linarith
    then have "unat (1 + of_nat (length ?ms) :: u64) = length ?ms + 1" using unat_of_nat_lt [of "length ?ms + 1", where 'a = 64] by simp
    moreover have "filter (\<lambda>x. \<not> shared_pe s' x) (pe # rev ?ms) = []"
      using shpe sh mv by (fastforce simp: filter_empty_conv)
    ultimately have "counts_ok s' (own_page s pe pg a)" by (simp add: counts_ok_def own_page_def Let_def)
    then show ?thesis using s'(5,7) al dm mv(1) at [of _ ?n] by (auto simp: page_ok_def own_page_def phys_to_virt_def)
  qed
  have left: "page_ok s' ?o (left_page s pe pg)"
  proof -
    have "counts_ok s' (left_page s pe pg)" by (rule left_page_counts [OF o(3,2,1) pg(2) refs sh])
    moreover have "q \<in> set (owner (left_page s pe pg)) \<longleftrightarrow> (\<exists>qv. pe_heap s' q = Some qv \<and> pe_p qv = ?o)" for q
      using at [of q ?o] ne o(1) po by (auto simp: left_page_def page_ok_def)
    ultimately show ?thesis using po fp s'(5) by (auto simp: page_ok_def left_page_def)
  qed
  have oth: "page_ok s' p g" if g: "page_heap s p = Some g" "p \<noteq> ?o" for p g
  proof -
    have pk: "page_ok s p g" by (rule cow_invD(3) [OF inv g(1)])
    have own: "q \<in> set (owner g) \<longleftrightarrow> (\<exists>qv. pe_heap s' q = Some qv \<and> pe_p qv = p)" for q
    proof -
      have "p \<noteq> ?n" using nn g(1) by auto
      moreover have "q \<noteq> pe \<and> q \<notin> set ?ms" if "pe_heap s q = Some qv" "pe_p qv = p" for qv
        using that ev(1) g(2) mv(3) [of q pe] by auto
      ultimately show ?thesis using at [of q p] pk by (auto simp: page_ok_def)
    qed
    have "pe \<notin> set (owner g)" using pk ev(1) g(2) by (auto simp: page_ok_def)
    then have "filter (\<lambda>x. \<not> shared_pe s' x) (owner g) = filter (\<lambda>x. \<not> shared_pe s x) (owner g)"
      by (intro filter_cong refl arg_cong [where f = Not] sh) auto
    then have "counts_ok s' g" using pk by (simp add: page_ok_def counts_ok_def Let_def)
    then show ?thesis using pk own fp s'(5) by (auto simp: page_ok_def)
  qed
  have ent: "entry_ok s' qv" if q: "pe_heap s' q = Some qv" for q qv
  proof -
    have "page_heap s' (pe_p qv) \<noteq> None"
      using at [of q "pe_p qv"] q cow_invD(4) [OF inv, of q] by (auto simp: s'(1) entry_ok_def split: if_splits)
    moreover have "\<exists>w. pe_heap s q = Some w \<and> pe_vaddr qv = pe_vaddr w \<and> (pe_flags qv = pe_flags w \<or> pe_flags qv = PF_SHARED)"
      using q ev(1) by (fastforce simp: s'(2) moved_entries_def split: if_splits)
    then obtain w where "entry_ok s w" "pe_vaddr qv = pe_vaddr w" "pe_flags qv = pe_flags w \<or> pe_flags qv = PF_SHARED"
      using cow_invD(4) [OF inv] by blast
    ultimately show ?thesis by (auto simp: entry_ok_def)
  qed
  have radix: "binradix_find t b = Some p \<longleftrightarrow> (\<exists>g. page_heap s' p = Some g \<and> phys_addr g = b)" for b p
  proof (cases "p = ?n")
    case True
    then show ?thesis using cow_invD(7) [OF inv, of b ?n] nn by (auto simp: t(2) s'(1) own_page_def)
  next
    case False
    have "phys_addr (left_page s pe pg) = phys_addr pg" by (simp add: left_page_def)
    then show ?thesis using False t(3) pg(1) cow_invD(7) [OF inv, of b p] by (auto simp: t(2) s'(1))
  qed
  have "page_ok s' p g" if "page_heap s' p = Some g" for p g
    using that new left oth by (auto simp: s'(1) split: if_splits)
  moreover have "page_heap s' m = None \<and> pe_heap s' m = None" if "m \<ge> ?n + 1" for m
  proof -
    have "page_heap s m = None" "pe_heap s m = None" "m \<noteq> ?n" using cow_invD(5,6) [OF inv, of m] that by auto
    moreover have "m \<noteq> pe" "m \<noteq> ?o" using calculation ev(1) pg(1) by auto
    ultimately show ?thesis by (auto simp: s'(1,2) moved_entries_def)
  qed
  ultimately show ?thesis unfolding cow_inv_def using radix ent s'(3,4,6) t(1) by auto
qed

section \<open>Properties\<close>

text \<open>C5. Copy on write: before a page that has snapshots is written, \<^verbatim>\<open>unshare_page\<close> runs
  without a panic as long as a free page is left, and after it every page entry of every address
  space still shows the same bytes, no snapshot is at the same physical page as the entry that is
  about to be written, and the entries that share with it are still at its page.\<close>

theorem unshare_isolates:
  assumes inv: "cow_inv s" and ev: "pe_heap s pe = Some ev" "pe_as ev = cur_as s" "pe_flags ev AND PF_HARDWARE = 0"
    and pg: "page_heap s (pe_p ev) = Some pg" "snap_count pg \<noteq> 0" and "free_pages s \<noteq> []"
  shows "\<exists>s'. unshare_page pe s = Some s' \<and> interrupt_disabled s' = interrupt_disabled s \<and>
    (\<forall>q k off. pe_phys q s = Some k \<and> unat off < 4096 \<longrightarrow>
       (\<exists>k'. pe_phys q s' = Some k' \<and> pmem s' (k' + off) = pmem s (k + off))) \<and>
    (\<forall>q qv. pe_heap s q = Some qv \<and> q \<noteq> pe \<and> pe_flags qv AND PF_SHARED = 0 \<longrightarrow> pe_phys q s' \<noteq> pe_phys pe s') \<and>
    (\<forall>q qv. pe_heap s q = Some qv \<and> pe_p qv = pe_p ev \<and> pe_flags qv AND PF_SHARED \<noteq> 0 \<and> pe_flags ev AND PF_SHARED \<noteq> 0 \<longrightarrow>
       pe_phys q s' = pe_phys pe s')"
proof (cases "snap_count pg = ref_count pg \<and> ref_count pg = 1")
  case True
  obtain pt where run: "unshare_page pe s = Some (s\<lparr>page_heap := (page_heap s)(pe_p ev \<mapsto> pg\<lparr>snap_count := 0\<rparr>), ptes := pt\<rparr>)"
    using unshare_sole [OF ev pg(1)] True by auto
  let ?s' = "s\<lparr>page_heap := (page_heap s)(pe_p ev \<mapsto> pg\<lparr>snap_count := 0\<rparr>), ptes := pt\<rparr>"
  have phys: "pe_phys q ?s' = pe_phys q s" for q using pg(1) by (auto simp: pe_phys_def split: bind_split)
  have po: "page_ok s (pe_p ev) pg" by (rule cow_invD(3) [OF inv pg(1)])
  have "owner pg = [pe]"
  proof -
    have "length (owner pg) \<le> 1" "pe \<in> set (owner pg)" using po True ev(1) by (auto simp: page_ok_def counts_ok_def Let_def)
    then show ?thesis by (cases "owner pg") auto
  qed
  then have only: "q = pe" if "pe_heap s q = Some qv" "pe_p qv = pe_p ev" for q qv using po that by (auto simp: page_ok_def)
  have "pe_phys q s \<noteq> pe_phys pe s" if q: "pe_heap s q = Some qv" "q \<noteq> pe" for q qv
  proof
    assume eq: "pe_phys q s = pe_phys pe s"
    obtain qg where qg: "page_heap s (pe_p qv) = Some qg" using cow_invD(4) [OF inv q(1)] by (auto simp: entry_ok_def)
    then have "phys_addr qg = phys_addr pg" using eq q(1) ev(1) pg(1) by (simp add: pe_phys_def phys_to_virt_def)
    then show False using pages_distinct [OF inv qg pg(1)] only q by blast
  qed
  then show ?thesis using run only phys by (intro exI [of _ ?s'] conjI) (auto simp: phys)
next
  case False
  obtain a as where fp: "free_pages s = a # as" using assms(7) by (cases "free_pages s") auto
  have po: "page_ok s (pe_p ev) pg" by (rule cow_invD(3) [OF inv pg(1)])
  obtain s' where run: "unshare_page pe s = Some s'" and irq: "interrupt_disabled s' = interrupt_disabled s"
    and heap: "page_heap s' = (page_heap s)(pe_p ev \<mapsto> left_page s pe pg, next_id s \<mapsto> own_page s pe pg a)"
      "pe_heap s' = moved_entries s pe ev pg (next_id s)"
    and mem: "\<And>x. pmem s' x = (if x - a < PAGE_SIZE then pmem s (phys_to_virt (phys_addr pg) + (x - a)) else pmem s x)"
    and al: "IS_ALIGNED a 12"
    by (rule unshare_copy [OF inv ev pg False fp]) simp
  note phys = unshared_phys [OF inv ev(1) pg(1) heap]
  have free: "k \<noteq> a \<and> IS_ALIGNED k 12" if "pe_phys q s = Some k" for q k
  proof -
    obtain qv :: page_entry and qg where "page_heap s (pe_p qv) = Some qg" "k = phys_to_virt (phys_addr qg)"
      using \<open>pe_phys q s = Some k\<close> unfolding pe_phys_Some by blast
    then show ?thesis using cow_invD(3) [OF inv, of "pe_p qv" qg] fp by (auto simp: page_ok_def phys_to_virt_aligned)
  qed
  have "\<exists>k'. pe_phys q s' = Some k' \<and> pmem s' (k' + off) = pmem s (k + off)" if q: "pe_phys q s = Some k" and off: "unat off < 4096" for q k off
  proof (cases "q = pe \<or> q \<in> set (moved s pe pg)")
    case True
    then have "k = phys_to_virt (phys_addr pg)" using q moved_iff(3) [OF inv pg(1), of q pe] ev(1) pg(1) by (fastforce simp: pe_phys_Some)
    then show ?thesis using True off by (simp add: phys mem word_less_nat_alt)
  next
    case False
    then show ?thesis using q off free [OF q] aligned_disjoint [of k a off] al by (auto simp: phys mem)
  qed
  moreover have "pe_phys q s' \<noteq> pe_phys pe s'" if "pe_heap s q = Some qv" "q \<noteq> pe" "pe_flags qv AND PF_SHARED = 0" for q qv
    using that moved_iff(3) [OF inv pg(1), of q pe] free [of q] by (auto simp: phys)
  moreover have "pe_phys q s' = pe_phys pe s'"
    if "pe_heap s q = Some qv" "pe_p qv = pe_p ev" "pe_flags qv AND PF_SHARED \<noteq> 0" "pe_flags ev AND PF_SHARED \<noteq> 0" for q qv
  proof -
    have "q \<in> set (owner pg)" using po that(1,2) by (auto simp: page_ok_def)
    then have "q = pe \<or> q \<in> set (moved s pe pg)" using that ev(1) by (cases "q = pe") (simp_all add: moved_def in_set_remove1)
    then show ?thesis by (auto simp: phys)
  qed
  ultimately show ?thesis using run irq by blast
qed

text \<open>Two address spaces, the second with a snapshot of the first one's page.\<close>

definition demo_cow :: mm where
  "demo_cow = demo_mm
     \<lparr>phys_pages := BNode (BNode BNull BNull (Some 2) 0x7000 64) BNull None 0 0,
      page_heap := [2 \<mapsto> \<lparr>phys_addr = 0x7000, ref_count = 2, snap_count = 1, owner = [3, 4]\<rparr>],
      pe_heap := [3 \<mapsto> \<lparr>pe_p = 2, pe_as = 0, pe_vaddr = 0x400000, pe_flags = PF_SHARED\<rparr>,
                  4 \<mapsto> \<lparr>pe_p = 2, pe_as = 1, pe_vaddr = 0x400000, pe_flags = PF_SNAPSHOT\<rparr>],
      pmem := \<lambda>a. ucast a, next_id := 5\<rparr>"

lemma demo_mm_phys: "free_pages demo_mm = free_pages demo_phys" "phys_inv demo_mm = phys_inv demo_phys"
  by (simp_all add: demo_mm_def phys_mem.defs free_pages_def phys_inv_def)

lemma single_leaf:
  assumes "\<not> bit k 63"
  shows "binradix_find (BNode (BNode BNull BNull (Some v) k 64) BNull None 0 0) va = (if va = k then Some v else None)"
    and "binradix_wf (BNode (BNode BNull BNull (Some v) k 64) BNull None 0 0)"
proof -
  have "bineq a b 63 64 \<longleftrightarrow> a = b" for a b using bineq_full [of 63 a b] by simp
  then show "binradix_find (BNode (BNode BNull BNull (Some v) k 64) BNull None 0 0) va = (if va = k then Some v else None)"
    using assms by (auto simp: find_root)
  show "binradix_wf (BNode (BNode BNull BNull (Some v) k 64) BNull None 0 0)" using assms by (simp add: child_ok_def)
qed

abbreviation demo_page :: page where
  "demo_page \<equiv> \<lparr>phys_addr = 0x7000, ref_count = 2, snap_count = 1, owner = [3, 4]\<rparr>"

abbreviation demo_entry :: "nat \<Rightarrow> u16 \<Rightarrow> page_entry" where
  "demo_entry as f \<equiv> \<lparr>pe_p = 2, pe_as = as, pe_vaddr = 0x400000, pe_flags = f\<rparr>"

lemma demo_cow_fields:
  "page_heap demo_cow = [2 \<mapsto> demo_page]" "pe_heap demo_cow = [3 \<mapsto> demo_entry 0 PF_SHARED, 4 \<mapsto> demo_entry 1 PF_SNAPSHOT]"
  "next_id demo_cow = 5" "cur_as demo_cow = 0" "phys_pages demo_cow = BNode (BNode BNull BNull (Some 2) 0x7000 64) BNull None 0 0"
  "free_pages demo_cow = [0xffff808000005000, 0xffff808000100000, 0xffff808000101000]" "phys_inv demo_cow"
  using demo_mm_phys demo_phys_inv demo_free_pages by (simp_all add: demo_cow_def free_pages_def phys_inv_def)

lemma demo_cow_inv: "cow_inv demo_cow"
proof -
  have "page_ok demo_cow 2 demo_page"
    unfolding page_ok_def counts_ok_def Let_def demo_cow_fields
    by (auto simp: IS_ALIGNED_page phys_to_virt_def KERN_VMBASE_def PF_SHARED_def PF_SNAPSHOT_def split: if_splits)
  moreover have "entry_ok demo_cow ev" if "pe_heap demo_cow pe = Some ev" for pe ev
    using that unfolding entry_ok_def demo_cow_fields by (auto simp: GET_BIT_def BIT_conv split: if_splits)
  moreover have "binradix_find (phys_pages demo_cow) a = Some p \<longleftrightarrow> (\<exists>pg. page_heap demo_cow p = Some pg \<and> phys_addr pg = a)" for a p
    using single_leaf(1) [of "0x7000" "2 :: nat" a] unfolding demo_cow_fields by auto
  moreover have "binradix_wf (phys_pages demo_cow)" using single_leaf(2) [of "0x7000" "2 :: nat"] unfolding demo_cow_fields by simp
  moreover have "page_heap demo_cow p = Some pg \<Longrightarrow> p = 2 \<and> pg = demo_page" for p pg
    unfolding demo_cow_fields by (auto split: if_splits)
  moreover have "\<forall>n \<ge> next_id demo_cow. page_heap demo_cow n = None \<and> pe_heap demo_cow n = None" unfolding demo_cow_fields by simp
  ultimately show ?thesis unfolding cow_inv_def using demo_cow_fields(7) by blast
qed

lemma demo_cow_pre:
  "pe_heap demo_cow 3 = Some (demo_entry 0 PF_SHARED)" "pe_as (demo_entry 0 PF_SHARED) = cur_as demo_cow"
  "pe_flags (demo_entry 0 PF_SHARED) AND PF_HARDWARE = 0" "page_heap demo_cow (pe_p (demo_entry 0 PF_SHARED)) = Some demo_page"
  "snap_count demo_page \<noteq> 0" "free_pages demo_cow \<noteq> []" "pe_heap demo_cow 4 = Some (demo_entry 1 PF_SNAPSHOT)"
  "pe_flags (demo_entry 1 PF_SNAPSHOT) AND PF_SHARED = 0" "(4 :: nat) \<noteq> 3"
  unfolding demo_cow_fields by (simp_all add: PF_SHARED_def PF_HARDWARE_def PF_SNAPSHOT_def)

theorem unshare_isolates_witness:
  "\<exists>s'. unshare_page 3 demo_cow = Some s' \<and> pe_phys 4 s' \<noteq> pe_phys 3 s'"
  using unshare_isolates [OF demo_cow_inv demo_cow_pre(1-6)] demo_cow_pre(7-9) by blast

text \<open>C9. The invariant of the memory manager survives \<^verbatim>\<open>unshare_page\<close> with one exception: when the
  entry is the only user of the page, the code resets the snapshot counter of the page but leaves
  the entry marked as a snapshot, so dropping the entry later takes the counter below zero.\<close>

theorem unshare_keeps_invariant:
  assumes inv: "cow_inv s" and ev: "pe_heap s pe = Some ev" "pe_as ev = cur_as s" "pe_flags ev AND PF_HARDWARE = 0"
    and pg: "page_heap s (pe_p ev) = Some pg" "snap_count pg \<noteq> 0" and "free_pages s \<noteq> []"
  shows "\<exists>s'. unshare_page pe s = Some s' \<and> (cow_inv s' \<longleftrightarrow> \<not> (snap_count pg = 1 \<and> ref_count pg = 1))"
proof (cases "snap_count pg = ref_count pg \<and> ref_count pg = 1")
  case True
  have po: "page_ok s (pe_p ev) pg" by (rule cow_invD(3) [OF inv pg(1)])
  have "pe \<in> set (owner pg)" using po ev(1) by (auto simp: page_ok_def)
  have own: "owner pg = [pe]" "\<not> shared_pe s pe"
  proof -
    have "length (owner pg) \<le> 1" using po True by (simp add: page_ok_def counts_ok_def Let_def)
    then show o: "owner pg = [pe]" using \<open>pe \<in> set (owner pg)\<close> by (cases "owner pg") auto
    show "\<not> shared_pe s pe" using po True by (auto simp: page_ok_def counts_ok_def Let_def o split: if_splits)
  qed
  obtain pt where run: "unshare_page pe s = Some (s\<lparr>page_heap := (page_heap s)(pe_p ev \<mapsto> pg\<lparr>snap_count := 0\<rparr>), ptes := pt\<rparr>)" (is "_ = Some ?s'")
    using unshare_sole [OF ev pg(1)] True by auto
  have "\<not> counts_ok ?s' (pg\<lparr>snap_count := 0\<rparr>)" using own by (simp add: counts_ok_def Let_def)
  then have "\<not> cow_inv ?s'" using cow_invD(3) [of ?s' "pe_p ev" "pg\<lparr>snap_count := 0\<rparr>"] by (auto simp: page_ok_def)
  then show ?thesis using run True by auto
next
  case False
  obtain a as where fp: "free_pages s = a # as" using assms(7) by (cases "free_pages s") auto
  obtain s' t where run: "unshare_page pe s = Some s'" and s': "page_heap s' = (page_heap s)(pe_p ev \<mapsto> left_page s pe pg, next_id s \<mapsto> own_page s pe pg a)"
      "pe_heap s' = moved_entries s pe ev pg (next_id s)" "phys_pages s' = t" "next_id s' = next_id s + 1"
      "free_pages s' = as" "phys_inv s'"
    and al: "IS_ALIGNED a 12" "a \<notin> set as" and t: "binradix_wf t" "binradix_find t = (binradix_find (phys_pages s))(a - KERN_VMBASE \<mapsto> next_id s)"
      "binradix_find (phys_pages s) (a - KERN_VMBASE) = None"
    by (rule unshare_copy [OF inv ev pg False fp]) (simp add: free_pages_def phys_inv_def)
  have "cow_inv s'" by (rule copied_inv [OF inv ev(1,3) pg False fp al t s' virt_to_phys_aligned [OF al(1)]])
  then show ?thesis using run False by auto
qed

theorem unshare_keeps_invariant_witness: "\<exists>s'. unshare_page 3 demo_cow = Some s' \<and> cow_inv s'"
proof -
  have "\<not> (snap_count demo_page = 1 \<and> ref_count demo_page = 1)" by simp
  then show ?thesis using unshare_keeps_invariant [OF demo_cow_inv demo_cow_pre(1-6)] by blast
qed

end
