(* ===== verification/Format.thy ===== *)
theory Format
  imports Prelude
begin

text \<open>
  Formatted output and input: \<^verbatim>\<open>itoa\<close> and \<^verbatim>\<open>_printk\<close> of \<^verbatim>\<open>sys/printk.c\<close>, \<^verbatim>\<open>printf\<close> of
  \<^verbatim>\<open>libc/printf.c\<close> and \<^verbatim>\<open>scanf\<close> of \<^verbatim>\<open>libc/scanf.c\<close>. Variable arguments are a list of tagged
  values: taking one with the wrong type, or one too many, is undefined (\<open>None\<close>). Characters are
  compared by their code; a C string is a list of characters without its terminating NUL.
\<close>

section \<open>itoa\<close>

definition digit_char :: "nat \<Rightarrow> char" where
  "digit_char d = ''0123456789abcdef'' ! d"

text \<open>The two loops of \<^verbatim>\<open>itoa\<close>: counting the digits, then storing them from the last one on. A base
  below 2 would divide by zero or never end; the callers use 10 and 16.\<close>

function count_digits :: "nat \<Rightarrow> nat \<Rightarrow> nat" where
  "count_digits base tmp = (if tmp = 0 \<or> base < 2 then 0 else count_digits base (tmp div base) + 1)"
  by pat_completeness auto
termination by (relation "measure snd") auto

function put_digits :: "nat \<Rightarrow> nat \<Rightarrow> string \<Rightarrow> string" where
  "put_digits base tmp acc =
     (if tmp = 0 \<or> base < 2 then acc else put_digits base (tmp div base) (digit_char (tmp mod base) # acc))"
  by pat_completeness auto
termination by (relation "measure (\<lambda>(b, t, a). t)") auto

declare count_digits.simps [simp del] put_digits.simps [simp del]

text \<open>The result and the characters stored; with a NULL target only the result is used. A negative
  number that is printed unsigned is its 64-bit pattern.\<close>

definition itoa :: "int \<Rightarrow> nat \<Rightarrow> nat \<Rightarrow> bool \<Rightarrow> nat \<times> string" where
  "itoa a base width sign =
     (let tmp = (if sign then nat \<bar>a\<bar> else nat (a mod 2 ^ 64));
          n = count_digits base tmp
      in if n = 0 then (let width = (if width = 0 then 1 else width) in (width, replicate width (CHR ''0'')))
         else
           let ret = max n width; ret = (if a < 0 \<and> sign then ret + 1 else ret)
           in (ret, (if a < 0 \<and> sign then ''-'' else []) @ replicate (width - n) (CHR ''0'') @ put_digits base tmp []))"

section \<open>Formats\<close>

datatype arg = AInt int | AStr "string option" | APtr u64

definition str_or_null :: "string option \<Rightarrow> string" where
  "str_or_null s = (case s of None \<Rightarrow> ''(null)'' | Some s \<Rightarrow> s)"

text \<open>The first pass of \<^verbatim>\<open>printf\<close>: the length of the output; \<open>Inl\<close> is the report of a bad format.\<close>

fun printf_len :: "string \<Rightarrow> arg list \<Rightarrow> (unit + nat) option" where
  "printf_len [] args = Some (Inr 0)"
| "printf_len (c # fmt) args =
     (if c \<noteq> CHR ''%'' then map_option (map_sum id Suc) (printf_len fmt args)
      else case fmt of
        [] \<Rightarrow> Some (Inl ())
      | d # fmt \<Rightarrow>
          if d = CHR ''d'' then
            (case args of AInt a # args \<Rightarrow> map_option (map_sum id ((+) (fst (itoa a 10 0 True)))) (printf_len fmt args) | _ \<Rightarrow> None)
          else if d = CHR ''x'' then
            (case args of AInt a # args \<Rightarrow> map_option (map_sum id ((+) (fst (itoa a 16 0 False)))) (printf_len fmt args) | _ \<Rightarrow> None)
          else if d = CHR ''s'' then
            (case args of AStr s # args \<Rightarrow> map_option (map_sum id ((+) (length (str_or_null s)))) (printf_len fmt args) | _ \<Rightarrow> None)
          else if d = CHR ''c'' then
            (case args of AInt a # args \<Rightarrow> map_option (map_sum id Suc) (printf_len fmt args) | _ \<Rightarrow> None)
          else if d = CHR ''%'' then map_option (map_sum id Suc) (printf_len fmt args)
          else Some (Inl ()))"

text \<open>The second pass: the text \<open>acc\<close> stored so far, and the number \<open>hi\<close> of bytes of the buffer that were
  written, which includes the NUL that \<^verbatim>\<open>strcpy\<close> appends.\<close>

fun printf_fill :: "string \<Rightarrow> arg list \<Rightarrow> string \<Rightarrow> nat \<Rightarrow> (string \<times> nat) option" where
  "printf_fill [] args acc hi = Some (acc, hi)"
| "printf_fill (c # fmt) args acc hi =
     (if c \<noteq> CHR ''%'' then printf_fill fmt args (acc @ [c]) (max hi (length acc + 1))
      else case fmt of
        [] \<Rightarrow> None
      | d # fmt \<Rightarrow>
          if d = CHR ''d'' then
            (case args of
               AInt a # args \<Rightarrow> (let t = acc @ snd (itoa a 10 0 True) in printf_fill fmt args t (max hi (length t)))
             | _ \<Rightarrow> None)
          else if d = CHR ''x'' then
            (case args of
               AInt a # args \<Rightarrow> (let t = acc @ snd (itoa a 16 0 False) in printf_fill fmt args t (max hi (length t)))
             | _ \<Rightarrow> None)
          else if d = CHR ''s'' then
            (case args of
               AStr s # args \<Rightarrow> (let t = acc @ str_or_null s in printf_fill fmt args t (max hi (length t + 1)))
             | _ \<Rightarrow> None)
          else if d = CHR ''c'' then
            (case args of
               AInt a # args \<Rightarrow> printf_fill fmt args (acc @ [char_of (nat (a mod 256))]) (max hi (length acc + 1))
             | _ \<Rightarrow> None)
          else if d = CHR ''%'' then printf_fill fmt args (acc @ [CHR ''%'']) (max hi (length acc + 1))
          else printf_fill fmt args acc hi)"

definition fmt_err :: string where
  "fmt_err = ''Invalid printf format string'' @ [CHR 0x0A]"

text \<open>The result: the return value, what is written to the output, and the size of the buffer with the
  number of bytes stored in it.\<close>

definition printf :: "string \<Rightarrow> arg list \<Rightarrow> (nat \<times> string \<times> nat \<times> nat) option" where
  "printf fmt args = do {
     r \<leftarrow> printf_len fmt args;
     case r of
       Inl _ \<Rightarrow> Some (0, fmt_err, 0, 0)
     | Inr n \<Rightarrow> do {
         (res, hi) \<leftarrow> printf_fill fmt args [] 0;
         Some (n, take n res, n, hi) } }"

text \<open>The kernel's version knows \<^verbatim>\<open>%p\<close>, ignores an unknown directive, and writes to a static buffer of
  8192 bytes. A format that ends in \<^verbatim>\<open>%\<close> is read past its end.\<close>

fun printk_fill :: "string \<Rightarrow> arg list \<Rightarrow> string \<Rightarrow> string option" where
  "printk_fill [] args acc = Some acc"
| "printk_fill (c # fmt) args acc =
     (if c \<noteq> CHR ''%'' then printk_fill fmt args (acc @ [c])
      else case fmt of
        [] \<Rightarrow> None
      | d # fmt \<Rightarrow>
          if d = CHR ''d'' then
            (case args of AInt a # args \<Rightarrow> printk_fill fmt args (acc @ snd (itoa a 10 0 True)) | _ \<Rightarrow> None)
          else if d = CHR ''x'' then
            (case args of AInt a # args \<Rightarrow> printk_fill fmt args (acc @ snd (itoa a 16 0 False)) | _ \<Rightarrow> None)
          else if d = CHR ''p'' then
            (case args of APtr p # args \<Rightarrow> printk_fill fmt args (acc @ ''0x'' @ snd (itoa (uint p) 16 8 False)) | _ \<Rightarrow> None)
          else if d = CHR ''s'' then
            (case args of AStr s # args \<Rightarrow> printk_fill fmt args (acc @ str_or_null s) | _ \<Rightarrow> None)
          else if d = CHR ''c'' then
            (case args of AInt a # args \<Rightarrow> printk_fill fmt args (acc @ [char_of (nat (a mod 256))]) | _ \<Rightarrow> None)
          else if d = CHR ''%'' then printk_fill fmt args (acc @ [CHR ''%''])
          else printk_fill fmt args acc)"

definition printk :: "string \<Rightarrow> arg list \<Rightarrow> string option" where
  "printk fmt args = do {
     s \<leftarrow> printk_fill fmt args [];
     guard (length s < 8192);
     Some s }"

section \<open>scanf\<close>

text \<open>The input is what \<^verbatim>\<open>read\<close> will deliver, one character a time; at its end \<^verbatim>\<open>read\<close> answers 0. The
  character read ahead stays in a static variable between calls; NUL says there is none.\<close>

datatype conv = OInt int | OStr string | OChar char

record scan =
  readahead :: char
  inp :: string

abbreviation code :: "char \<Rightarrow> nat" where "code c \<equiv> of_char c"

definition isspace :: "char \<Rightarrow> bool" where
  "isspace c \<longleftrightarrow> c = CHR '' '' \<or> c = CHR 0x0A \<or> c = CHR 0x09"

definition read_char :: "scan \<Rightarrow> bool \<times> scan" where
  "read_char s = (case inp s of [] \<Rightarrow> (False, s) | c # cs \<Rightarrow> (True, \<lparr>readahead = c, inp = cs\<rparr>))"

fun skip_space :: "char \<Rightarrow> string \<Rightarrow> bool \<times> scan" where
  "skip_space ra cs =
     (if \<not> isspace ra then (True, \<lparr>readahead = ra, inp = cs\<rparr>)
      else case cs of [] \<Rightarrow> (False, \<lparr>readahead = ra, inp = []\<rparr>) | c # cs \<Rightarrow> skip_space c cs)"

declare skip_space.simps [simp del]

text \<open>The loop of a number: the value, the state, and whether the input ended. The arithmetic is that of
  \<^verbatim>\<open>int\<close>: \<open>None\<close> when it overflows.\<close>

definition digit_ok :: "nat \<Rightarrow> char \<Rightarrow> bool" where
  "digit_ok base c \<longleftrightarrow>
     (if base = 10 then code CHR ''0'' \<le> code c \<and> code c \<le> code CHR ''9''
      else code CHR ''0'' \<le> code c \<and> code c \<le> code CHR ''9'' \<or> code CHR ''a'' \<le> code c \<and> code c \<le> code CHR ''f'')"

definition lower :: "char \<Rightarrow> char" where
  "lower c = (if code CHR ''A'' \<le> code c \<and> code c \<le> code CHR ''Z'' then char_of (code c + 32) else c)"

definition digit_val :: "char \<Rightarrow> int" where
  "digit_val c = (if code c \<ge> code CHR ''a'' then int (code c) - 97 + 10 else int (code c) - 48)"

fun scan_digits :: "nat \<Rightarrow> int \<Rightarrow> char \<Rightarrow> string \<Rightarrow> (int \<times> bool \<times> scan) option" where
  "scan_digits base res ra cs =
     (let ra = (if base = 10 then ra else lower ra) in
      if \<not> digit_ok base ra then Some (res, False, \<lparr>readahead = ra, inp = cs\<rparr>)
      else
        let res = res * int base + digit_val ra in
        if res \<ge> 2 ^ 31 then None
        else case cs of
          [] \<Rightarrow> Some (res, True, \<lparr>readahead = ra, inp = []\<rparr>)
        | c # cs \<Rightarrow> scan_digits base res c cs)"

declare scan_digits.simps [simp del]

fun scan_word :: "char \<Rightarrow> string \<Rightarrow> string \<Rightarrow> string \<times> bool \<times> scan" where
  "scan_word ra cs acc =
     (if isspace ra then (acc, False, \<lparr>readahead = ra, inp = cs\<rparr>)
      else case cs of
        [] \<Rightarrow> (acc @ [ra], True, \<lparr>readahead = ra, inp = []\<rparr>)
      | c # cs \<Rightarrow> scan_word c cs (acc @ [ra]))"

declare scan_word.simps [simp del]

text \<open>The optional prefix of a hexadecimal number; False when the input ends in it.\<close>

definition scan_prefix :: "scan \<Rightarrow> bool \<times> scan" where
  "scan_prefix s =
     (if readahead s \<noteq> CHR ''0'' then (True, s)
      else let (ok, s) = read_char s in
        if \<not> ok then (False, s)
        else if readahead s = CHR ''x'' then read_char s
        else (True, s))"

text \<open>The loop over the format: the return value, the values stored, the state.\<close>

fun scan_fmt :: "string \<Rightarrow> nat \<Rightarrow> conv list \<Rightarrow> scan \<Rightarrow> (nat \<times> conv list \<times> scan) option" where
  "scan_fmt [] n outs s = Some (n, outs, s)"
| "scan_fmt (f # fmt) n outs s =
     (if isspace f then
        (let (ok, s) = skip_space (readahead s) (inp s) in if ok then scan_fmt fmt n outs s else Some (0, outs, s))
      else if f \<noteq> CHR ''%'' then
        if readahead s \<noteq> f then Some (n, outs, s)
        else (let (ok, s) = read_char s in if ok then scan_fmt fmt n outs s else Some (0, outs, s))
      else case fmt of
        [] \<Rightarrow> Some (n, outs, s)
      | d # fmt \<Rightarrow>
          if d = CHR ''%'' then
            if readahead s \<noteq> CHR ''%'' then Some (n, outs, s)
            else (let (ok, s) = read_char s in if ok then scan_fmt fmt n outs s else Some (0, outs, s))
          else if d = CHR ''s'' then
            (let (ok, s) = skip_space (readahead s) (inp s) in
             if \<not> ok then Some (0, outs, s)
             else let (w, eof, s) = scan_word (readahead s) (inp s) [] in
               if eof then Some (n + 1, outs @ [OStr w], s)
               else scan_fmt fmt (n + 1) (outs @ [OStr w]) s)
          else if d = CHR ''d'' \<or> d = CHR ''x'' then
            (let (ok, s) = skip_space (readahead s) (inp s) in
             if \<not> ok then Some (0, outs, s)
             else let (ok, s) = (if d = CHR ''x'' then scan_prefix s else (True, s)) in
               if \<not> ok then Some (0, outs @ [OInt 0], s)
               else do {
                 (res, eof, s) \<leftarrow> scan_digits (if d = CHR ''x'' then 16 else 10) 0 (readahead s) (inp s);
                 if eof then Some (n + 1, outs @ [OInt res], s)
                 else scan_fmt fmt (n + 1) (outs @ [OInt res]) s })
          else if d = CHR ''c'' then
            (let outs = outs @ [OChar (readahead s)]; (ok, s) = read_char s
             in if ok then scan_fmt fmt (n + 1) outs s else Some (0, outs, s))
          else Some (n, outs, s))"

definition scanf :: "string \<Rightarrow> scan \<Rightarrow> (nat \<times> conv list \<times> scan) option" where
  "scanf fmt s =
     (let (ok, s) = (if readahead s = CHR 0x00 then read_char s else (True, s))
      in if ok then scan_fmt fmt 0 [] s else Some (0, [], s))"

section \<open>Digits\<close>

lemma put_digits_step:
  "tmp \<noteq> 0 \<Longrightarrow> 2 \<le> base \<Longrightarrow> put_digits base tmp acc = put_digits base (tmp div base) (digit_char (tmp mod base) # acc)"
  "put_digits base 0 acc = acc"
  "tmp \<noteq> 0 \<Longrightarrow> 2 \<le> base \<Longrightarrow> count_digits base tmp = Suc (count_digits base (tmp div base))"
  "count_digits base 0 = 0"
  by (simp_all add: put_digits.simps [of base tmp] put_digits.simps [of base 0] count_digits.simps [of base tmp] count_digits.simps [of base 0])

lemma put_digits_append: "2 \<le> base \<Longrightarrow> put_digits base tmp acc = put_digits base tmp [] @ acc"
proof (induction tmp arbitrary: acc rule: less_induct)
  case (less tmp)
  show ?case
  proof (cases "tmp = 0")
    case False
    then have lt: "tmp div base < tmp" using less.prems by simp
    have "put_digits base tmp xs = put_digits base (tmp div base) [] @ digit_char (tmp mod base) # xs" for xs
      using put_digits_step(1) [OF False less.prems, of xs] less.IH [OF lt less.prems, of "digit_char (tmp mod base) # xs"] by simp
    then show ?thesis by simp
  qed (simp add: put_digits_step)
qed

lemma count_digits_pos: "tmp \<noteq> 0 \<Longrightarrow> 2 \<le> base \<Longrightarrow> count_digits base tmp \<noteq> 0"
  by (simp add: put_digits_step)

lemma put_digits_snoc:
  assumes "tmp \<noteq> 0" and "2 \<le> base"
  shows "put_digits base tmp [] = put_digits base (tmp div base) [] @ [digit_char (tmp mod base)]"
  using put_digits_step(1) [OF assms, of "[]"] put_digits_append [OF assms(2), of "tmp div base" "[digit_char (tmp mod base)]"] by simp

lemma length_put_digits: "2 \<le> base \<Longrightarrow> length (put_digits base tmp []) = count_digits base tmp"
proof (induction tmp rule: less_induct)
  case (less tmp)
  show ?case
  proof (cases "tmp = 0")
    case False
    then have lt: "tmp div base < tmp" using less.prems by simp
    show ?thesis using less.IH [OF lt less.prems] put_digits_snoc [OF False less.prems] put_digits_step(3) [OF False less.prems] by simp
  qed (simp add: put_digits_step)
qed

text \<open>The value of a digit string, as the input loop computes it.\<close>

definition digits_value :: "nat \<Rightarrow> string \<Rightarrow> int" where
  "digits_value base ds = foldl (\<lambda>r c. r * int base + digit_val c) 0 ds"

lemma digit_char_ok:
  assumes "d < base" and "base = 10 \<or> base = 16"
  shows "digit_ok base (digit_char d)" "digit_val (digit_char d) = int d" "lower (digit_char d) = digit_char d"
proof -
  have "d < 16" using assms by auto
  then have "d \<in> {0, 1, 2, 3, 4, 5, 6, 7, 8, 9, 10, 11, 12, 13, 14, 15}" unfolding insert_iff empty_iff by presburger
  then show "digit_ok base (digit_char d)" "digit_val (digit_char d) = int d" "lower (digit_char d) = digit_char d"
    using assms by (auto simp: digit_ok_def digit_char_def digit_val_def lower_def)
qed

lemma value_put_digits:
  assumes "base = 10 \<or> base = 16"
  shows "digits_value base (put_digits base tmp []) = int tmp \<and> (\<forall>c \<in> set (put_digits base tmp []). digit_ok base c \<and> lower c = c)"
proof (induction tmp rule: less_induct)
  case (less tmp)
  have b: "2 \<le> base" using assms by auto
  show ?case
  proof (cases "tmp = 0")
    case False
    then have lt: "tmp div base < tmp" using b by simp
    have m: "tmp mod base < base" using b by simp
    have "int (tmp div base) * int base + int (tmp mod base) = int tmp"
      by (metis div_mult_mod_eq of_nat_add of_nat_mult)
    then show ?thesis using less.IH [OF lt] digit_char_ok [OF m assms]
      unfolding put_digits_snoc [OF False b] by (simp add: digits_value_def)
  qed (simp add: put_digits_step digits_value_def)
qed

lemma itoa_length: "2 \<le> base \<Longrightarrow> length (snd (itoa a base width sign)) = fst (itoa a base width sign)"
  by (simp add: itoa_def Let_def length_put_digits max_def)

section \<open>The passes of printf\<close>







section \<open>Reading numbers back\<close>

lemma digit_val_nonneg: "digit_ok base c \<Longrightarrow> 0 \<le> digit_val c"
  by (auto simp: digit_ok_def digit_val_def split: if_splits)

lemma foldl_digits_mono:
  "\<forall>c \<in> set ds. digit_ok base c \<Longrightarrow> 0 \<le> r \<Longrightarrow> 1 \<le> base \<Longrightarrow> r \<le> foldl (\<lambda>r c. r * int base + digit_val c) r ds"
proof (induction ds arbitrary: r)
  case (Cons c ds)
  have v: "0 \<le> digit_val c" using Cons.prems(1) digit_val_nonneg by auto
  have "r * 1 \<le> r * int base" using Cons.prems(2,3) by (intro mult_left_mono) auto
  then have "r \<le> r * int base + digit_val c" using v by linarith
  moreover have "r * int base + digit_val c \<le> foldl (\<lambda>r c. r * int base + digit_val c) (r * int base + digit_val c) ds"
    using Cons.prems v calculation by (intro Cons.IH) auto
  ultimately show ?case by simp
qed simp

lemma scan_digits_step:
  assumes "digit_ok base c" and "lower c = c" and "r * int base + digit_val c < 2 ^ 31"
  shows "scan_digits base r c cs =
    (case cs of [] \<Rightarrow> Some (r * int base + digit_val c, True, \<lparr>readahead = c, inp = []\<rparr>)
     | c' # cs \<Rightarrow> scan_digits base (r * int base + digit_val c) c' cs)"
proof -
  have "(if base = 10 then c else lower c) = c" using assms(2) by simp
  then show ?thesis using assms(1,3) by (subst scan_digits.simps) (simp only: Let_def, simp)
qed

lemma scan_digits_run:
  assumes "\<forall>c \<in> set (c0 # ds). digit_ok base c \<and> lower c = c" and "0 \<le> r" and "1 \<le> base"
    and "foldl (\<lambda>r c. r * int base + digit_val c) r (c0 # ds) < 2 ^ 31"
  shows "scan_digits base r c0 (ds @ rest) =
    (let v = foldl (\<lambda>r c. r * int base + digit_val c) r (c0 # ds) in
     case rest of [] \<Rightarrow> Some (v, True, \<lparr>readahead = last (c0 # ds), inp = []\<rparr>) | x # xs \<Rightarrow> scan_digits base v x xs)"
  using assms
proof (induction ds arbitrary: r c0)
  case Nil
  then show ?case by (simp add: scan_digits_step split: list.split)
next
  case (Cons d ds)
  let ?r = "r * int base + digit_val c0"
  have v: "0 \<le> digit_val c0" using Cons.prems(1) digit_val_nonneg by auto
  then have r: "0 \<le> ?r" using Cons.prems(2) by simp
  have "?r \<le> foldl (\<lambda>r c. r * int base + digit_val c) ?r (d # ds)"
    using Cons.prems(1,3) r by (intro foldl_digits_mono) auto
  then have "?r < 2 ^ 31" using Cons.prems(4) by simp
  then have "scan_digits base r c0 ((d # ds) @ rest) = scan_digits base ?r d (ds @ rest)"
    using Cons.prems(1) by (simp add: scan_digits_step)
  then show ?case using Cons.IH [of d ?r] Cons.prems r by (simp cong: list.case_cong)
qed

lemma decimal_digits:
  fixes n :: int
  assumes "0 \<le> n"
  obtains c0 ds where "snd (itoa n 10 0 True) = c0 # ds" "\<forall>c \<in> set (c0 # ds). digit_ok 10 c \<and> lower c = c"
    "digits_value 10 (c0 # ds) = n" "digit_val (last (c0 # ds)) = n mod 10"
proof (cases "n = 0")
  case True
  then have "snd (itoa n 10 0 True) = CHR ''0'' # []" by (simp add: itoa_def put_digits_step)
  moreover have "\<forall>c \<in> set [CHR ''0'']. digit_ok 10 c \<and> lower c = c" by (simp add: digit_ok_def lower_def)
  moreover have "digits_value 10 [CHR ''0''] = n" using True by (simp add: digits_value_def digit_val_def)
  moreover have "digit_val (last [CHR ''0'']) = n mod 10" using True by (simp add: digit_val_def)
  ultimately show ?thesis using that by blast
next
  case False
  let ?ds = "put_digits 10 (nat n) []"
  have it: "snd (itoa n 10 0 True) = ?ds"
    using False assms count_digits_pos [of "nat n" 10] by (simp add: itoa_def Let_def)
  have v: "digits_value 10 ?ds = n" "\<forall>c \<in> set ?ds. digit_ok 10 c \<and> lower c = c"
    using value_put_digits [of 10 "nat n"] assms by auto
  have snoc: "?ds = put_digits 10 (nat n div 10) [] @ [digit_char (nat n mod 10)]"
    using False assms by (intro put_digits_snoc) auto
  have "digit_val (last ?ds) = n mod 10"
    unfolding snoc using digit_char_ok(2) [of "nat n mod 10" 10] assms by (simp add: zmod_int)
  moreover have "?ds \<noteq> []" unfolding snoc by simp
  then obtain c0 ds where "?ds = c0 # ds" by (meson list.exhaust)
  ultimately show ?thesis using that [of c0 ds] it v by simp
qed

lemma digit_not_space: "digit_ok base c \<Longrightarrow> \<not> isspace c" "digit_ok base c \<Longrightarrow> c \<noteq> CHR 0x00"
  by (auto simp: digit_ok_def isspace_def split: if_splits)

lemma scanf_decimal:
  assumes "\<forall>c \<in> set (c0 # ds). digit_ok 10 c \<and> lower c = c" and "digits_value 10 (c0 # ds) < 2 ^ 31"
  shows "scan_fmt ''%d'' 0 [] \<lparr>readahead = c0, inp = ds @ rest\<rparr> =
    (case rest of
       [] \<Rightarrow> Some (1, [OInt (digits_value 10 (c0 # ds))], \<lparr>readahead = last (c0 # ds), inp = []\<rparr>)
     | x # xs \<Rightarrow> do { (res, eof, s) \<leftarrow> scan_digits 10 (digits_value 10 (c0 # ds)) x xs; Some (1, [OInt res], s) })"
proof -
  have sp: "skip_space c0 (ds @ rest) = (True, \<lparr>readahead = c0, inp = ds @ rest\<rparr>)"
    using digit_not_space(1) [of 10 c0] assms(1) by (subst skip_space.simps) simp
  have "scan_digits 10 0 c0 (ds @ rest) =
    (let v = digits_value 10 (c0 # ds) in
     case rest of [] \<Rightarrow> Some (v, True, \<lparr>readahead = last (c0 # ds), inp = []\<rparr>) | x # xs \<Rightarrow> scan_digits 10 v x xs)"
    using scan_digits_run [OF assms(1), of 0 rest] assms(2) by (simp add: digits_value_def)
  then show ?thesis using sp by (cases rest) (auto simp: isspace_def Let_def split: bind_split)
qed

section \<open>Properties\<close>



text \<open>Numbers survive printing and reading: what \<^verbatim>\<open>printf\<close> writes for \<^verbatim>\<open>%d\<close> and a number from 0 to
  INT_MAX, followed by the end of the input or by something that is no digit, \<^verbatim>\<open>scanf\<close> with \<^verbatim>\<open>%d\<close>
  reads as the same number.\<close>

theorem print_scan_roundtrip:
  assumes "0 \<le> n" and "n < 2 ^ 31" and "rest = [] \<or> \<not> digit_ok 10 (hd rest)"
  shows "\<exists>out k hi s. printf ''%d'' [AInt n] = Some (k, out, k, hi) \<and>
    scanf ''%d'' \<lparr>readahead = CHR 0x00, inp = out @ rest\<rparr> = Some (1, [OInt n], s)"
proof -
  obtain c0 ds where d: "snd (itoa n 10 0 True) = c0 # ds" "\<forall>c \<in> set (c0 # ds). digit_ok 10 c \<and> lower c = c"
    "digits_value 10 (c0 # ds) = n" by (rule decimal_digits [OF assms(1)])
  have "length (c0 # ds) = fst (itoa n 10 0 True)" using itoa_length [of 10 n 0 True] d(1) by simp
  then have p: "printf ''%d'' [AInt n] = Some (length (c0 # ds), c0 # ds, length (c0 # ds), length (c0 # ds))"
    using d(1) by (simp add: printf_def)
  have "\<exists>s. scan_fmt ''%d'' 0 [] \<lparr>readahead = c0, inp = ds @ rest\<rparr> = Some (1, [OInt n], s)"
  proof (cases rest)
    case Nil
    then show ?thesis using scanf_decimal [OF d(2), of rest] d(3) assms(2) by simp
  next
    case (Cons x xs)
    then have "scan_digits 10 n x xs = Some (n, False, \<lparr>readahead = x, inp = xs\<rparr>)"
      using assms(3) by (subst scan_digits.simps) simp
    then show ?thesis using scanf_decimal [OF d(2), of rest] d(3) assms(2) Cons by simp
  qed
  then show ?thesis using p by (simp add: scanf_def read_char_def)
qed

theorem print_scan_roundtrip_witness:
  "\<exists>out k hi s. printf ''%d'' [AInt 2015] = Some (k, out, k, hi) \<and>
    scanf ''%d'' \<lparr>readahead = CHR 0x00, inp = out @ '' lines''\<rparr> = Some (1, [OInt 2015], s)"
  by (rule print_scan_roundtrip) (simp_all add: digit_ok_def)

text \<open>At the end of the input the character read ahead is not forgotten: after a number that ends
  the input was read, a second \<^verbatim>\<open>scanf\<close> reports success and stores the last digit as a number, again
  and again. A sign is not accepted either: \<^verbatim>\<open>%d\<close> stores 0 for it and counts a conversion.\<close>

theorem scanf_repeats_last_digit:
  assumes "0 \<le> n" and "n < 2 ^ 31" and "snd (itoa n 10 0 True) = out"
  shows "\<exists>s. scanf ''%d'' \<lparr>readahead = CHR 0x00, inp = out\<rparr> = Some (1, [OInt n], s) \<and>
    scanf ''%d'' s = Some (1, [OInt (n mod 10)], s) \<and>
    scanf ''%d'' \<lparr>readahead = CHR ''-'', inp = out\<rparr> = Some (1, [OInt 0], \<lparr>readahead = CHR ''-'', inp = out\<rparr>)"
proof -
  obtain c0 ds where d: "snd (itoa n 10 0 True) = c0 # ds" "\<forall>c \<in> set (c0 # ds). digit_ok 10 c \<and> lower c = c"
    "digits_value 10 (c0 # ds) = n" "digit_val (last (c0 # ds)) = n mod 10" by (rule decimal_digits [OF assms(1)])
  let ?l = "last (c0 # ds)"
  have l: "digit_ok 10 ?l" "lower ?l = ?l" using d(2) last_in_set [of "c0 # ds"] by blast+
  have "scanf ''%d'' \<lparr>readahead = CHR 0x00, inp = out\<rparr> = Some (1, [OInt n], \<lparr>readahead = ?l, inp = []\<rparr>)"
    using scanf_decimal [OF d(2), of "[]"] d(1,3) assms(2,3) by (simp add: scanf_def read_char_def)
  moreover have "scanf ''%d'' \<lparr>readahead = ?l, inp = []\<rparr> = Some (1, [OInt (n mod 10)], \<lparr>readahead = ?l, inp = []\<rparr>)"
    using scanf_decimal [of ?l "[]" "[]"] l digit_not_space(2) [OF l(1)] d(4) by (simp add: scanf_def digits_value_def)
  moreover have "scanf ''%d'' \<lparr>readahead = CHR ''-'', inp = out\<rparr> = Some (1, [OInt 0], \<lparr>readahead = CHR ''-'', inp = out\<rparr>)"
    by (simp add: scanf_def skip_space.simps isspace_def scan_digits.simps digit_ok_def)
  ultimately show ?thesis by blast
qed

theorem scanf_repeats_last_digit_witness:
  "\<exists>s. scanf ''%d'' \<lparr>readahead = CHR 0x00, inp = ''42''\<rparr> = Some (1, [OInt 42], s) \<and> scanf ''%d'' s = Some (1, [OInt 2], s)"
proof -
  have "snd (itoa 42 10 0 True) = ''42''" by code_simp
  then show ?thesis using scanf_repeats_last_digit [of 42 "''42''"] by auto
qed

end
