(* ===== verification/Malloc.thy ===== *)
theory Malloc
  imports Prelude Bitops Binradix
begin

text \<open>
  The allocator of the C library, \<^verbatim>\<open>libc/malloc.c\<close>: a buddy system on pages of 4096 bytes with
  one list of free blocks per order. The headers of the blocks are a heap of fields indexed by the
  address of the header, the lists are linked through it as in the code, with \<^verbatim>\<open>prev\<close> the
  address of the pointer that points to the block. \<^verbatim>\<open>sendpage\<close> is the argument \<open>sp\<close>: what it
  answers for a length, 0 for NULL.

  The proofs go in two layers: the pointer operations refine operations on the thirteen
  sequences of blocks (\<open>rep\<close>), and the sequences together with the live blocks tile the pages
  (\<open>tiling\<close>).
\<close>

section \<open>Headers\<close>

datatype slot = SNull | SFree nat | SNext nat

record mheap =
  h_next :: "nat \<Rightarrow> nat"
  h_prev :: "nat \<Rightarrow> slot"
  h_flags :: "nat \<Rightarrow> u8"
  free_tab :: "nat list"

definition HUGE_FLAG :: u8 where "HUGE_FLAG = 16"
definition FREE_FLAG :: u8 where "FREE_FLAG = 32"
definition sizeof_hdr :: nat where "sizeof_hdr = 24"

definition put_next :: "nat \<Rightarrow> nat \<Rightarrow> mheap \<Rightarrow> mheap" where
  "put_next a v s = s\<lparr>h_next := (h_next s)(a := v)\<rparr>"

definition put_prev :: "nat \<Rightarrow> slot \<Rightarrow> mheap \<Rightarrow> mheap" where
  "put_prev a v s = s\<lparr>h_prev := (h_prev s)(a := v)\<rparr>"

definition put_flags :: "nat \<Rightarrow> u8 \<Rightarrow> mheap \<Rightarrow> mheap" where
  "put_flags a v s = s\<lparr>h_flags := (h_flags s)(a := v)\<rparr>"

definition put_free :: "nat \<Rightarrow> nat \<Rightarrow> mheap \<Rightarrow> mheap" where
  "put_free k v s = s\<lparr>free_tab := (free_tab s)[k := v]\<rparr>"

text \<open>Reading the table of lists outside its thirteen entries is undefined.\<close>

definition get_free :: "nat \<Rightarrow> mheap \<Rightarrow> nat option" where
  "get_free k s = (if k < length (free_tab s) then Some (free_tab s ! k) else None)"

text \<open>The assignment through a \<^verbatim>\<open>prev\<close> pointer.\<close>

fun put_slot :: "slot \<Rightarrow> nat \<Rightarrow> mheap \<Rightarrow> mheap option" where
  "put_slot SNull v s = None"
| "put_slot (SFree k) v s = Some (put_free k v s)"
| "put_slot (SNext a) v s = Some (put_next a v s)"

text \<open>The recurring statement \<^verbatim>\<open>if (x) x->prev = p;\<close>.\<close>

definition prev_if :: "nat \<Rightarrow> slot \<Rightarrow> mheap \<Rightarrow> mheap" where
  "prev_if x p s = (if x \<noteq> 0 then put_prev x p s else s)"

section \<open>Operations\<close>

definition clear_free :: "mheap \<Rightarrow> mheap" where
  "clear_free s = s\<lparr>free_tab := replicate 13 0\<rparr>"

definition alloc_new :: "(u64 \<Rightarrow> nat) \<Rightarrow> u64 \<Rightarrow> nat \<times> u64" where
  "alloc_new sp s = (let s = ALIGN_UP s 12 in (sp s, s))"

definition split_block :: "nat \<Rightarrow> mheap \<Rightarrow> mheap option" where
  "split_block index s =
     (if index < 5 then Some s
      else do {
        tmp \<leftarrow> get_free index s;
        guard (tmp \<noteq> 0);
        let tmp2 = tmp + 2 ^ (index - 1);
        let s = put_free index (h_next s tmp) s;
        let s = prev_if (h_next s tmp) (SFree index) s;
        let s = put_next tmp tmp2 s;
        let s = put_prev tmp2 (SNext tmp) s;
        f \<leftarrow> get_free (index - 1) s;
        let s = put_next tmp2 f s;
        let s = prev_if (h_next s tmp2) (SNext tmp2) s;
        let s = put_free (index - 1) tmp s;
        let s = put_prev tmp (SFree (index - 1)) s;
        let fl = FREE_FLAG OR of_nat (index - 1);
        Some (put_flags tmp fl (put_flags tmp2 fl s)) })"

definition insert_block :: "nat \<Rightarrow> nat \<Rightarrow> mheap \<Rightarrow> mheap option" where
  "insert_block order x s = do {
     let s = put_flags x (of_nat order OR FREE_FLAG) s;
     let s = put_prev x (SFree order) s;
     f \<leftarrow> get_free order s;
     let s = put_next x f s;
     let s = put_free order x s;
     Some (prev_if (h_next s x) (SNext x) s) }"

text \<open>The search for a list that is not empty, and the loop that splits down to the order.\<close>

function find_order :: "nat \<Rightarrow> mheap \<Rightarrow> nat" where
  "find_order xorder s =
     (if xorder < 13 \<and> free_tab s ! xorder = 0 then find_order (xorder + 1) s else xorder)"
  by pat_completeness auto
termination by (relation "measure (\<lambda>(x, s). 13 - x)") auto

declare find_order.simps [simp del]

fun split_down :: "nat \<Rightarrow> nat \<Rightarrow> mheap \<Rightarrow> mheap option" where
  "split_down order 0 s = Some s"
| "split_down order (Suc x) s =
     (if Suc x > order then do { s \<leftarrow> split_block (Suc x) s; split_down order x s } else Some s)"

text \<open>The end of \<^verbatim>\<open>malloc\<close>: the first block of the list leaves it and loses its free flag.\<close>

definition take_block :: "nat \<Rightarrow> mheap \<Rightarrow> (nat \<times> mheap) option" where
  "take_block order s = do {
     x \<leftarrow> get_free order s;
     guard (x \<noteq> 0);
     let s = put_flags x (h_flags s x AND NOT FREE_FLAG) s;
     let s = put_free order (h_next s x) s;
     let s = prev_if (h_next s x) (SFree order) s;
     Some (x + sizeof_hdr, put_next x 0 (put_prev x SNull s)) }"

definition malloc :: "(u64 \<Rightarrow> nat) \<Rightarrow> u64 \<Rightarrow> mheap \<Rightarrow> (nat \<times> mheap) option" where
  "malloc sp s h =
     (let newsize = s + of_nat sizeof_hdr in
      if newsize > 0x1000 then
        let (x, newsize) = alloc_new sp newsize in
        if x = 0 then Some (0, h)
        else Some (x + sizeof_hdr, put_next x (unat newsize) (put_flags x HUGE_FLAG h))
      else do {
        guard (newsize \<noteq> 0);
        let order = 64 - hibit newsize;
        let xorder = find_order order h;
        if xorder \<ge> 13 then
          let (x, _) = alloc_new sp 0x1000 in
          if x = 0 then Some (0, h)
          else do {
            h \<leftarrow> insert_block 12 x h;
            h \<leftarrow> split_down order 12 h;
            take_block order h }
        else do {
          h \<leftarrow> split_down order xorder h;
          take_block order h } })"

text \<open>\<^verbatim>\<open>free\<close> also returns the range it asked the kernel to unmap, if any.\<close>

definition free_mem :: "nat \<Rightarrow> mheap \<Rightarrow> (mheap \<times> (nat \<times> nat) option) option" where
  "free_mem ptr s =
     (if ptr = 0 then Some (s, None)
      else
        let x = ptr - sizeof_hdr; fl = h_flags s x in
        if fl AND HUGE_FLAG \<noteq> 0 then Some (s, Some (x, h_next s x))
        else if fl > 12 then Some (s, None)
        else
          let order = unat fl; buddy = x XOR 2 ^ order in
          if h_flags s buddy = FREE_FLAG OR fl then do {
            s \<leftarrow> put_slot (h_prev s buddy) (h_next s buddy) s;
            let s = prev_if (h_next s buddy) (h_prev s buddy) s;
            s \<leftarrow> insert_block (order + 1) (if buddy < x then buddy else x) s;
            Some (s, None) }
          else do { s \<leftarrow> insert_block order x s; Some (s, None) })"

section \<open>The lists\<close>

text \<open>A list hangs off a slot: each block points back to the pointer that points to it.\<close>

fun get_slot :: "slot \<Rightarrow> mheap \<Rightarrow> nat" where
  "get_slot SNull s = 0"
| "get_slot (SFree k) s = free_tab s ! k"
| "get_slot (SNext a) s = h_next s a"

fun chain :: "mheap \<Rightarrow> slot \<Rightarrow> nat list \<Rightarrow> bool" where
  "chain s sl [] \<longleftrightarrow> get_slot sl s = 0"
| "chain s sl (x # xs) \<longleftrightarrow> get_slot sl s = x \<and> x \<noteq> 0 \<and> h_prev s x = sl \<and> chain s (SNext x) xs"

definition rep :: "(nat \<Rightarrow> nat list) \<Rightarrow> mheap \<Rightarrow> bool" where
  "rep L s \<longleftrightarrow> length (free_tab s) = 13 \<and>
     (\<forall>k<13. chain s (SFree k) (L k) \<and> distinct (L k) \<and> (\<forall>x\<in>set (L k). h_flags s x = FREE_FLAG OR of_nat k))"

lemmas put_defs = put_next_def put_prev_def put_flags_def put_free_def prev_if_def

lemma put_proj:
  "h_next (put_next a v s) = (h_next s)(a := v)" "h_prev (put_next a v s) = h_prev s" "h_flags (put_next a v s) = h_flags s"
  "free_tab (put_next a v s) = free_tab s" "h_next (put_prev a p s) = h_next s" "h_prev (put_prev a p s) = (h_prev s)(a := p)"
  "h_flags (put_prev a p s) = h_flags s" "free_tab (put_prev a p s) = free_tab s"
  "h_next (put_flags a fl s) = h_next s" "h_prev (put_flags a fl s) = h_prev s"
  "h_flags (put_flags a fl s) = (h_flags s)(a := fl)" "free_tab (put_flags a fl s) = free_tab s"
  "h_next (put_free k v s) = h_next s" "h_prev (put_free k v s) = h_prev s" "h_flags (put_free k v s) = h_flags s"
  "free_tab (put_free k v s) = (free_tab s)[k := v]" "h_next (prev_if a p s) = h_next s"
  "h_prev (prev_if a p s) = (if a = 0 then h_prev s else (h_prev s)(a := p))"
  "h_flags (prev_if a p s) = h_flags s" "free_tab (prev_if a p s) = free_tab s"
  by (simp_all add: put_defs)

lemma order_bits:
  "\<forall>i\<in>set [0..<13]. (of_nat i AND HUGE_FLAG = 0) \<and> ((FREE_FLAG OR of_nat i) AND NOT FREE_FLAG = of_nat i) \<and>
     ((FREE_FLAG OR of_nat i) AND HUGE_FLAG = 0) \<and> FREE_FLAG OR of_nat i > (12 :: u8) \<and> \<not> of_nat i > (12 :: u8) \<and>
     unat (of_nat i :: u8) = i"
  unfolding FREE_FLAG_def HUGE_FLAG_def by code_simp

lemma flags_simps:
  assumes "i < 13"
  shows "of_nat i AND HUGE_FLAG = 0" and "(FREE_FLAG OR of_nat i) AND NOT FREE_FLAG = of_nat i"
    and "(FREE_FLAG OR of_nat i) AND HUGE_FLAG = 0" and "FREE_FLAG OR of_nat i > (12 :: u8)" and "\<not> of_nat i > (12 :: u8)"
    and "unat (of_nat i :: u8) = i"
  using order_bits [THEN bspec, of i] assms by simp_all

lemma flags_inj:
  assumes "i < 13" and "j < 13"
  shows "FREE_FLAG OR of_nat i = (FREE_FLAG OR of_nat j :: u8) \<longleftrightarrow> i = j" and "FREE_FLAG OR of_nat i \<noteq> (of_nat j :: u8)"
    and "(of_nat i :: u8) = of_nat j \<longleftrightarrow> i = j"
  using flags_simps [OF assms(1)] flags_simps [OF assms(2)] by metis+

text \<open>A list is untouched by writes to other blocks and other slots.\<close>

lemma chain_cong:
  assumes "get_slot sl s' = get_slot sl s"
    and "\<And>x. x \<in> set xs \<Longrightarrow> h_next s' x = h_next s x \<and> h_prev s' x = h_prev s x"
  shows "chain s' sl xs = chain s sl xs"
  using assms by (induction xs arbitrary: sl) auto

lemma chain_nonzero: "chain s sl xs \<Longrightarrow> 0 \<notin> set xs"
  by (induction xs arbitrary: sl) auto

lemma rep_disjoint: "\<lbrakk>rep L s; i < 13; j < 13; x \<in> set (L i); x \<in> set (L j)\<rbrakk> \<Longrightarrow> i = j"
  unfolding rep_def by (metis flags_inj(1))

lemma chain_head: "chain s sl xs \<Longrightarrow> get_slot sl s = (case xs of [] \<Rightarrow> 0 | x # _ \<Rightarrow> x)"
  by (cases xs) auto

text \<open>A whole list moves to another slot when its first block is made to point back to it.\<close>

lemma chain_rehead:
  assumes "chain s sl xs" and "get_slot sl' s' = get_slot sl s" and "xs \<noteq> [] \<Longrightarrow> h_prev s' (hd xs) = sl'"
    and "\<And>y. y \<in> set xs \<Longrightarrow> h_next s' y = h_next s y" and "\<And>y. y \<in> set (tl xs) \<Longrightarrow> h_prev s' y = h_prev s y"
  shows "chain s' sl' xs"
proof (cases xs)
  case (Cons y ys)
  have "chain s' (SNext y) ys = chain s (SNext y) ys"
    using assms(4,5) by (intro chain_cong) (auto simp: Cons)
  then show ?thesis using assms(1-4) by (auto simp: Cons)
qed (use assms in auto)

lemma chain_mid:
  "chain s sl (xs @ x # ys) \<Longrightarrow> h_prev s x = (if xs = [] then sl else SNext (last xs)) \<and> chain s (SNext x) ys"
proof (induction xs arbitrary: sl)
  case (Cons a xs)
  then have "chain s (SNext a) (xs @ x # ys)" by simp
  from Cons.IH [OF this] show ?case by simp
qed simp

text \<open>Unlinking a block anywhere in a list.\<close>

lemma chain_unlink:
  assumes "chain s sl (xs @ x # ys)" and "distinct (xs @ x # ys)" and "\<And>k. sl = SNext k \<Longrightarrow> k \<notin> set (xs @ x # ys)"
    and "sl \<noteq> SNull" and "\<And>k. sl = SFree k \<Longrightarrow> k < length (free_tab s)"
  shows "\<exists>s'. put_slot (h_prev s x) (h_next s x) s = Some s' \<and> chain (prev_if (h_next s' x) (h_prev s' x) s') sl (xs @ ys)"
  using assms
proof (induction xs arbitrary: sl)
  case Nil
  have eq: "h_next s x = (case ys of [] \<Rightarrow> 0 | y # _ \<Rightarrow> y)" using Nil.prems(1) chain_head by fastforce
  have nz: "0 \<notin> set ys" and c: "chain s (SNext x) ys" using Nil.prems(1) chain_nonzero by fastforce+
  obtain s' where s': "put_slot sl (h_next s x) s = Some s'" using Nil.prems(4) by (cases sl) auto
  have keep: "h_next s' y = h_next s y" if "y \<in> set (x # ys)" for y
    using s' that Nil.prems(3) by (cases sl) (auto simp: put_defs)
  have keep': "h_prev s' = h_prev s" using s' by (cases sl) (auto simp: put_defs)
  have "get_slot sl s' = h_next s x" using s' Nil.prems(5) by (cases sl) (auto simp: put_defs)
  moreover have gs: "get_slot sl (prev_if n p s') = get_slot sl s'" for n p
    by (cases sl) (auto simp: put_defs)
  ultimately have "chain (prev_if (h_next s x) sl s') sl ys"
  proof (cases ys)
    case (Cons y r)
    have "chain (prev_if y sl s') (SNext y) r = chain s (SNext y) r"
      using keep keep' Nil.prems(2) by (intro chain_cong) (auto simp: put_defs Cons)
    moreover have "h_next s x = y" "y \<noteq> 0" "chain s (SNext y) r" using eq nz c by (auto simp: Cons)
    ultimately show ?thesis using gs \<open>get_slot sl s' = h_next s x\<close> by (simp add: Cons) (simp add: put_defs)
  qed (use eq gs in simp)
  then show ?case using s' keep keep' Nil.prems(1) by auto
next
  case (Cons a xs)
  obtain s' where s': "put_slot (h_prev s x) (h_next s x) s = Some s'"
    and c: "chain (prev_if (h_next s' x) (h_prev s' x) s') (SNext a) (xs @ ys)"
    using Cons.IH [of "SNext a"] Cons.prems by auto
  obtain b where b: "h_prev s x = SNext b" "b \<in> set (a # xs)" and cx: "chain s (SNext x) ys"
    using chain_mid [of s sl "a # xs" x ys] Cons.prems(1) by auto
  have nx: "h_next s x \<in> insert 0 (set ys)" using chain_head [OF cx] by (cases ys) auto
  have s'': "s' = put_next b (h_next s x) s" using s' b by simp
  have a: "get_slot sl s = a" "a \<noteq> 0" "h_prev s a = sl" using Cons.prems(1) by auto
  have "get_slot sl s' = a"
    using Cons.prems(3) b(2) a(1) by (cases sl) (auto simp: s'' put_next_def)
  moreover have "get_slot sl (prev_if n p s') = get_slot sl s'" for n p
    by (cases sl) (auto simp: put_defs)
  moreover have "a \<noteq> h_next s x" "x \<noteq> b" using nx a Cons.prems(2) b(2) by auto
  then have "h_prev (prev_if (h_next s' x) (h_prev s' x) s') a = sl"
    using a by (simp add: put_defs s'')
  ultimately show ?case using s' c a by simp
qed

section \<open>The table of lists\<close>

definition listed :: "(nat \<Rightarrow> nat list) \<Rightarrow> nat set" where
  "listed L = (\<Union>k<13. set (L k))"

lemma listed_upd: "k < 13 \<Longrightarrow> listed (L(k := xs)) = set xs \<union> (\<Union>i\<in>{..<13} - {k}. set (L i))"
  by (auto simp: listed_def split: if_splits)

lemma listed_split: "k < 13 \<Longrightarrow> listed L = set (L k) \<union> (\<Union>i\<in>{..<13} - {k}. set (L i))"
  by (auto simp: listed_def)

lemma listed_push: "k < 13 \<Longrightarrow> listed (L(k := x # L k)) = insert x (listed L)"
  by (simp add: listed_upd listed_split)

lemma rep_chain: "\<lbrakk>rep L s; k < 13\<rbrakk> \<Longrightarrow> chain s (SFree k) (L k) \<and> distinct (L k) \<and> length (free_tab s) = 13"
  by (simp add: rep_def)

lemma rep_first: "\<lbrakk>rep L s; k < 13\<rbrakk> \<Longrightarrow> free_tab s ! k = (case L k of [] \<Rightarrow> 0 | x # _ \<Rightarrow> x)"
  using rep_chain [of L s k] chain_head by fastforce

lemma rep_get_free: "\<lbrakk>rep L s; k < 13\<rbrakk> \<Longrightarrow> get_free k s = Some (case L k of [] \<Rightarrow> 0 | x # _ \<Rightarrow> x)"
  by (simp add: get_free_def rep_first) (simp add: rep_def)

lemma rep_nonzero:
  assumes "rep L s" and "x \<in> listed L"
  shows "x \<noteq> 0"
proof -
  obtain k where k: "k < 13" "x \<in> set (L k)" using assms(2) by (auto simp: listed_def)
  with rep_chain [OF assms(1)] show ?thesis by (metis chain_nonzero)
qed

text \<open>
  A new state represents the table with one list exchanged when that list hangs together in it,
  and the pointers and flags of all other lists are kept.
\<close>

lemma rep_update:
  assumes r: "rep L s" and k: "k < 13"
    and new: "chain s' (SFree k) xs" "distinct xs" "\<And>x. x \<in> set xs \<Longrightarrow> h_flags s' x = FREE_FLAG OR of_nat k"
    and tab: "length (free_tab s') = 13" "\<And>i. \<lbrakk>i < 13; i \<noteq> k\<rbrakk> \<Longrightarrow> free_tab s' ! i = free_tab s ! i"
    and oth: "\<And>i x. \<lbrakk>i < 13; i \<noteq> k; x \<in> set (L i)\<rbrakk> \<Longrightarrow>
      h_next s' x = h_next s x \<and> h_prev s' x = h_prev s x \<and> h_flags s' x = h_flags s x"
  shows "rep (L(k := xs)) s'"
proof -
  have "chain s' (SFree i) (L i) \<and> distinct (L i) \<and> (\<forall>x\<in>set (L i). h_flags s' x = FREE_FLAG OR of_nat i)"
    if "i < 13" "i \<noteq> k" for i
  proof -
    have "chain s' (SFree i) (L i) = chain s (SFree i) (L i)"
      using oth [OF that] tab(2) [OF that] by (intro chain_cong) auto
    then show ?thesis using r that oth [OF that] by (simp add: rep_def)
  qed
  then show ?thesis using new tab(1) unfolding rep_def by simp
qed

lemma insert_rep:
  assumes r: "rep L s" and k: "k < 13" and x: "x \<noteq> 0" "x \<notin> listed L"
  shows "\<exists>s'. insert_block k x s = Some s' \<and> rep (L(k := x # L k)) s' \<and> (\<forall>y. y \<noteq> x \<longrightarrow> h_flags s' y = h_flags s y)"
proof -
  define f where "f = free_tab s ! k"
  define s' where "s' = prev_if f (SNext x) (put_free k x (put_next x f (put_prev x (SFree k) (put_flags x (FREE_FLAG OR of_nat k) s))))"
  have len: "length (free_tab s) = 13" and c: "chain s (SFree k) (L k)" and d: "distinct (L k)"
    using rep_chain [OF r k] by auto
  have f: "f = (case L k of [] \<Rightarrow> 0 | x # _ \<Rightarrow> x)" unfolding f_def by (rule rep_first [OF r k])
  have xl: "x \<notin> set (L i)" if "i < 13" for i using x(2) that by (auto simp: listed_def)
  have fl: "f \<notin> set (L i)" if "i < 13" "i \<noteq> k" for i
  proof
    assume i: "f \<in> set (L i)"
    then have "f \<noteq> 0" using that rep_nonzero [OF r, of f] by (auto simp: listed_def)
    then have "f \<in> set (L k)" using f by (cases "L k") auto
    then show False using rep_disjoint [OF r k that(1) _ i] that(2) by simp
  qed
  have ins: "insert_block k x s = Some s'"
    using len k by (simp add: insert_block_def get_free_def s'_def f_def put_defs or.commute)
  have "chain s' (SNext x) (L k)"
  proof (rule chain_rehead [OF c])
    show "h_prev s' (hd (L k)) = SNext x" if "L k \<noteq> []"
      using that c by (cases "L k") (auto simp: s'_def put_defs f_def)
    show "h_prev s' y = h_prev s y" if "y \<in> set (tl (L k))" for y
      using that f d xl [OF k] list.set_sel(2) [of "L k" y] by (cases "L k") (auto simp: s'_def put_defs)
  qed (use xl [OF k] in \<open>auto simp: s'_def put_defs f_def\<close>)
  moreover have "h_prev s' x = SFree k" using f x xl [OF k] by (auto simp: s'_def put_defs split: list.splits)
  ultimately have "chain s' (SFree k) (x # L k)" using x(1) len k by (simp add: s'_def put_defs)
  then have "rep (L(k := x # L k)) s'"
    using len d xl k r fl by (intro rep_update [OF r k]) (auto simp: s'_def put_defs rep_def)
  then show ?thesis using ins by (auto simp: s'_def put_defs)
qed

text \<open>The first block leaves its list.\<close>

lemma pop_rep:
  assumes r: "rep L s" and k: "k < 13" and L: "L k = x # xs"
  shows "rep (L(k := xs)) (prev_if (h_next s x) (SFree k) (put_free k (h_next s x) s))"
proof -
  let ?s = "prev_if (h_next s x) (SFree k) (put_free k (h_next s x) s)"
  have c: "chain s (SNext x) xs" and d: "distinct (x # xs)" and len: "length (free_tab s) = 13"
    using rep_chain [OF r k] L by auto
  have n: "h_next s x = (case xs of [] \<Rightarrow> 0 | y # _ \<Rightarrow> y)" using chain_head [OF c] by simp
  have nl: "h_next s x \<notin> set (L i)" if "i < 13" "i \<noteq> k" for i
  proof
    assume i: "h_next s x \<in> set (L i)"
    then have "h_next s x \<noteq> 0" using that rep_nonzero [OF r, of "h_next s x"] by (auto simp: listed_def)
    then have "h_next s x \<in> set (L k)" using n L by (cases xs) auto
    then show False using rep_disjoint [OF r k that(1) _ i] that(2) by simp
  qed
  have "chain ?s (SFree k) xs"
  proof (rule chain_rehead [OF c])
    show "h_prev ?s (hd xs) = SFree k" if "xs \<noteq> []" using that n c by (cases xs) (auto simp: put_defs)
    show "h_prev ?s y = h_prev s y" if "y \<in> set (tl xs)" for y
      using that n d by (cases xs) (auto simp: put_defs)
  qed (use k len in \<open>auto simp: put_defs\<close>)
  then show ?thesis using d len nl k r L by (intro rep_update [OF r k]) (auto simp: put_defs rep_def)
qed

lemma rep_outside:
  assumes r: "rep L s" and x: "x \<notin> listed L"
    and eq: "free_tab s' = free_tab s" "\<And>y. y \<noteq> x \<Longrightarrow> h_next s' y = h_next s y \<and> h_prev s' y = h_prev s y \<and> h_flags s' y = h_flags s y"
  shows "rep L s'"
proof -
  have ne: "y \<noteq> x" if "i < 13" "y \<in> set (L i)" for i y using x that by (auto simp: listed_def)
  have "chain s' (SFree i) (L i) = chain s (SFree i) (L i)" if "i < 13" for i
    using eq ne [OF that] by (intro chain_cong) auto
  then show ?thesis using r eq ne unfolding rep_def by auto
qed

lemma listed_tail:
  assumes "rep L s" and "k < 13" and "L k = x # xs"
  shows "listed (L(k := xs)) = listed L - {x}"
proof -
  have "x \<notin> set xs" using rep_chain [OF assms(1,2)] assms(3) by simp
  moreover have "x \<notin> set (L i)" if "i < 13" "i \<noteq> k" for i
    using rep_disjoint [OF assms(1) that(1) assms(2), of x] that assms(3) by auto
  ultimately show ?thesis
    using assms(3) by (auto simp: listed_upd [OF assms(2)] listed_split [OF assms(2), of L])
qed

lemma take_rep:
  assumes r: "rep L s" and k: "k < 13" and L: "L k = x # xs"
  shows "\<exists>s'. take_block k s = Some (x + sizeof_hdr, s') \<and> rep (L(k := xs)) s' \<and>
    h_flags s' = (h_flags s)(x := of_nat k)"
proof -
  let ?s = "prev_if (h_next s x) (SFree k) (put_free k (h_next s x) s)"
  let ?t = "put_next x 0 (put_prev x SNull (put_flags x (of_nat k) ?s))"
  have x: "x \<in> listed L" using k L by (auto simp: listed_def intro!: bexI [of _ k])
  have fl: "h_flags s x = FREE_FLAG OR of_nat k" using r k L by (simp add: rep_def)
  have "take_block k s = Some (x + sizeof_hdr, ?t)"
    using rep_nonzero [OF r x] L flags_simps(2) [OF k] fl by (simp add: take_block_def rep_get_free [OF r k] put_defs Let_def)
  moreover have "x \<notin> listed (L(k := xs))" by (simp add: listed_tail [OF assms])
  then have "rep (L(k := xs)) ?t"
    by (rule rep_outside [OF pop_rep [OF assms]]) (auto simp: put_defs)
  moreover have "h_flags ?t = (h_flags s)(x := of_nat k)" by (simp add: put_defs)
  ultimately show ?thesis by blast
qed

text \<open>Splitting is taking the block off its list and inserting its two halves.\<close>

lemma split_as_inserts:
  assumes "4 \<le> j" and "Suc j < length (free_tab s)" and "free_tab s ! Suc j = x" and "x \<noteq> 0" and "free_tab s ! j \<noteq> x + 2 ^ j"
  defines "s0 \<equiv> prev_if (h_next s x) (SFree (Suc j)) (put_free (Suc j) (h_next s x) s)"
  shows "split_block (Suc j) s = insert_block j (x + 2 ^ j) s0 \<bind> insert_block j x"
proof -
  define y where "y = x + 2 ^ j"
  define f where "f = free_tab s ! j"
  define fl where "fl = FREE_FLAG OR (of_nat j :: u8)"
  have ne: "y \<noteq> x" "f \<noteq> y" "y \<noteq> 0" using assms by (auto simp: y_def f_def)
  have len: "j < length (free_tab s)" using assms by auto
  have "split_block (Suc j) s = Some (put_flags x fl (put_flags y fl (put_prev x (SFree j) (put_free j x
      (prev_if f (SNext y) (put_next y f (put_prev y (SNext x) (put_next x y s0))))))))"
    using assms(1-4) ne len
    by (simp add: split_block_def get_free_def Let_def put_proj s0_def y_def f_def fl_def)
  moreover have "insert_block j y s0 =
      Some (prev_if f (SNext y) (put_free j y (put_next y f (put_prev y (SFree j) (put_flags y fl s0)))))"
    using ne len by (simp add: insert_block_def get_free_def Let_def put_proj s0_def or.commute f_def fl_def)
  moreover have "insert_block j x t = Some (prev_if y (SNext x) (put_free j x (put_next x y
      (put_prev x (SFree j) (put_flags x fl t)))))" if "free_tab t ! j = y" "j < length (free_tab t)" for t
    using that by (simp add: insert_block_def get_free_def Let_def put_proj or.commute fl_def)
  ultimately show ?thesis
    using ne len by (simp add: put_proj s0_def y_def [symmetric]) (rule mheap.equality; simp add: put_proj fun_eq_iff)
qed

lemma split_rep:
  assumes r: "rep L s" and j: "4 \<le> j" "Suc j < 13" and L: "L (Suc j) = x # xs" and y: "x + 2 ^ j \<notin> listed L"
  shows "\<exists>s'. split_block (Suc j) s = Some s' \<and> rep (L(Suc j := xs, j := x # (x + 2 ^ j) # L j)) s' \<and>
    (\<forall>z. z \<noteq> x \<longrightarrow> z \<noteq> x + 2 ^ j \<longrightarrow> h_flags s' z = h_flags s z)"
proof -
  let ?y = "x + 2 ^ j" and ?L = "L(Suc j := xs)"
  let ?s = "prev_if (h_next s x) (SFree (Suc j)) (put_free (Suc j) (h_next s x) s)"
  have j': "j < 13" using j by simp
  have x: "x \<in> listed L" using L j by (auto simp: listed_def intro!: bexI [of _ "Suc j"])
  have x0: "x \<noteq> 0" by (rule rep_nonzero [OF r x])
  have nl: "x \<notin> listed ?L" "?y \<notin> listed ?L"
    using y listed_tail [OF r j(2) L] by auto
  have "free_tab s ! j \<noteq> ?y"
  proof
    assume "free_tab s ! j = ?y"
    then have "?y \<in> set (L j)" using rep_first [OF r j'] x0 by (auto split: list.splits)
    then show False using y j' by (auto simp: listed_def)
  qed
  then have sp: "split_block (Suc j) s = insert_block j ?y ?s \<bind> insert_block j x"
    using split_as_inserts [OF j(1), of s x] rep_chain [OF r j(2)] x0 j L by simp
  have r0: "rep ?L ?s" by (rule pop_rep [OF r j(2) L])
  obtain s1 where s1: "insert_block j ?y ?s = Some s1" "rep (?L(j := ?y # L j)) s1" "\<And>z. z \<noteq> ?y \<Longrightarrow> h_flags s1 z = h_flags s z"
    using insert_rep [OF r0 j' _ nl(2)] x0 by (auto simp: put_proj)
  have "x \<notin> listed (?L(j := ?y # L j))" using nl(1) listed_push [OF j', of ?L ?y] by simp
  then obtain s2 where "insert_block j x s1 = Some s2" "rep (?L(j := x # ?y # L j)) s2" "\<And>z. z \<noteq> x \<Longrightarrow> h_flags s2 z = h_flags s1 z"
    using insert_rep [OF s1(2) j' x0] by auto
  then show ?thesis using sp s1 by auto
qed

lemma unlink_rep:
  assumes r: "rep L s" and k: "k < 13" and x: "x \<in> set (L k)"
  shows "\<exists>s'. put_slot (h_prev s x) (h_next s x) s = Some s' \<and>
    rep (L(k := remove1 x (L k))) (prev_if (h_next s' x) (h_prev s' x) s') \<and> h_flags s' = h_flags s"
proof -
  obtain xs ys where L: "L k = xs @ x # ys" using x by (auto simp: in_set_conv_decomp)
  have c: "chain s (SFree k) (xs @ x # ys)" and d: "distinct (xs @ x # ys)" and len: "length (free_tab s) = 13"
    using rep_chain [OF r k] L by auto
  obtain s' where s': "put_slot (h_prev s x) (h_next s x) s = Some s'"
    and c': "chain (prev_if (h_next s' x) (h_prev s' x) s') (SFree k) (xs @ ys)"
    using chain_unlink [OF c d] len k by auto
  have px: "h_prev s x = (if xs = [] then SFree k else SNext (last xs))" and cx: "chain s (SNext x) ys"
    using chain_mid [OF c] by auto
  have n: "h_next s x \<in> insert 0 (set ys)" using chain_head [OF cx] by (cases ys) auto
  have s'': "s' = (if xs = [] then put_free k (h_next s x) s else put_next (last xs) (h_next s x) s)"
    using s' px by auto
  have last: "xs \<noteq> [] \<Longrightarrow> last xs \<in> set (L k)" by (simp add: L)
  have nx: "h_next s' x = h_next s x" using last d by (auto simp: s'' put_proj)
  have out: "h_next s x \<noteq> 0 \<Longrightarrow> h_next s x \<notin> set (L i)" "xs \<noteq> [] \<Longrightarrow> last xs \<notin> set (L i)" if "i < 13" "i \<noteq> k" for i
    using n rep_disjoint [OF r k that(1)] that last L by fastforce+
  have "rep (L(k := xs @ ys)) (prev_if (h_next s' x) (h_prev s' x) s')"
    using out r L k d len
    by (intro rep_update [OF r k c']) (auto simp: s'' nx put_proj rep_def)
  moreover have "remove1 x (L k) = xs @ ys" using d by (simp add: L remove1_append)
  ultimately show ?thesis using s' by (auto simp: s'' put_proj)
qed

section \<open>Blocks tile the pages\<close>

definition inblk :: "nat \<Rightarrow> nat \<times> nat \<Rightarrow> bool" where
  "inblk a bk \<longleftrightarrow> fst bk \<le> a \<and> a < fst bk + 2 ^ snd bk"

text \<open>\<open>P\<close> are the numbers of the pages the allocator owns, \<open>T\<close> the blocks with their orders.\<close>

definition tiling :: "nat set \<Rightarrow> (nat \<times> nat) set \<Rightarrow> bool" where
  "tiling P T \<longleftrightarrow> (\<forall>b k. (b, k) \<in> T \<longrightarrow> 5 \<le> k \<and> k \<le> 12 \<and> 2 ^ k dvd b \<and> b \<noteq> 0) \<and>
     (\<forall>x\<in>T. \<forall>y\<in>T. \<forall>a. inblk a x \<longrightarrow> inblk a y \<longrightarrow> x = y) \<and>
     (\<forall>a. (\<exists>x\<in>T. inblk a x) \<longleftrightarrow> a div 4096 \<in> P)"

lemma tilingD:
  assumes "tiling P T"
  shows "(b, k) \<in> T \<Longrightarrow> 5 \<le> k \<and> k \<le> 12 \<and> 2 ^ k dvd b \<and> b \<noteq> 0"
    and "\<lbrakk>x \<in> T; y \<in> T; inblk a x; inblk a y\<rbrakk> \<Longrightarrow> x = y"
    and "(\<exists>x\<in>T. inblk a x) \<longleftrightarrow> a div 4096 \<in> P"
  using assms unfolding tiling_def by blast+

text \<open>Blocks may be exchanged for blocks that hold the same bytes.\<close>

lemma tiling_replace:
  assumes t: "tiling P T" and A: "A \<subseteq> T"
    and same: "\<And>a. (\<exists>x\<in>A. inblk a x) \<longleftrightarrow> (\<exists>x\<in>B. inblk a x)"
    and B: "\<And>b k. (b, k) \<in> B \<Longrightarrow> 5 \<le> k \<and> k \<le> 12 \<and> 2 ^ k dvd b \<and> b \<noteq> 0"
      "\<And>x y a. \<lbrakk>x \<in> B; y \<in> B; inblk a x; inblk a y\<rbrakk> \<Longrightarrow> x = y"
  shows "tiling P (T - A \<union> B)"
proof -
  have sep: "False" if h: "x \<in> T - A" "y \<in> B" "inblk a x" "inblk a y" for x y a
  proof -
    obtain z where z: "z \<in> A" "inblk a z" using same [of a] h(2,4) by blast
    then have "x = z" using tilingD(2) [OF t, of x z a] h(1,3) A by blast
    then show False using z(1) h(1) by blast
  qed
  have "(\<exists>x\<in>T - A \<union> B. inblk a x) \<longleftrightarrow> (\<exists>x\<in>T. inblk a x)" for a using same [of a] A by blast
  then have "(\<exists>x\<in>T - A \<union> B. inblk a x) \<longleftrightarrow> a div 4096 \<in> P" for a using tilingD(3) [OF t] by simp
  moreover have "x = y" if "x \<in> T - A \<union> B" "y \<in> T - A \<union> B" "inblk a x" "inblk a y" for x y a
    using that sep [of x y a] sep [of y x a] tilingD(2) [OF t, of x y a] B(2) [of x y a] by blast
  moreover have "5 \<le> k \<and> k \<le> 12 \<and> 2 ^ k dvd b \<and> b \<noteq> 0" if "(b, k) \<in> T - A \<union> B" for b k
    using that tilingD(1) [OF t] B(1) by blast
  ultimately show ?thesis unfolding tiling_def by blast
qed

lemma inblk_halves: "inblk a (b, Suc j) \<longleftrightarrow> inblk a (b, j) \<or> inblk a (b + 2 ^ j, j)"
  by (auto simp: inblk_def)

lemma inblk_iff_div:
  assumes "2 ^ k dvd b"
  shows "inblk a (b, k) \<longleftrightarrow> a div 2 ^ k = b div 2 ^ k"
proof -
  obtain q where b: "b = 2 ^ k * q" using assms by blast
  have "a div 2 ^ k = q" if "q * 2 ^ k \<le> a" "a < Suc q * 2 ^ k"
    using that by (intro div_nat_eqI) (auto simp: mult.commute)
  moreover have "a div 2 ^ k * 2 ^ k \<le> a" "a < Suc (a div 2 ^ k) * 2 ^ k"
    using dividend_less_div_times [of "2 ^ k" a] by (auto simp: add.commute)
  ultimately have "a div 2 ^ k = q \<longleftrightarrow> q * 2 ^ k \<le> a \<and> a < Suc q * 2 ^ k" by auto
  then show ?thesis by (simp add: b inblk_def ac_simps)
qed

lemma tiling_split:
  assumes t: "tiling P T" and x: "(x, Suc j) \<in> T" "5 \<le> j"
  shows "tiling P (T - {(x, Suc j)} \<union> {(x, j), (x + 2 ^ j, j)})"
proof (rule tiling_replace [OF t])
  have "2 ^ Suc j dvd x" "x \<noteq> 0" "j < 12" using tilingD(1) [OF t x(1)] by auto
  then have "2 ^ j dvd x" "2 ^ j dvd x + 2 ^ j" by (auto elim: dvd_trans [rotated])
  then show "5 \<le> k \<and> k \<le> 12 \<and> 2 ^ k dvd b \<and> b \<noteq> 0" if "(b, k) \<in> {(x, j), (x + 2 ^ j, j)}" for b k
    using that x(2) \<open>j < 12\<close> \<open>x \<noteq> 0\<close> by auto
qed (use x in \<open>auto simp: inblk_halves, auto simp: inblk_def\<close>)

lemma tiling_page:
  assumes t: "tiling P T" and x: "4096 dvd x" "x \<noteq> 0" "x div 4096 \<notin> P"
  shows "tiling (insert (x div 4096) P) (insert (x, 12) T)"
proof -
  have iff: "inblk a (x, 12) \<longleftrightarrow> a div 4096 = x div 4096" for a using inblk_iff_div [of 12 x a] x(1) by simp
  have "y = (x, 12)" if "y = (x, 12) \<or> y \<in> T" "inblk a (x, 12)" "inblk a y" for y a
    using that iff tilingD(3) [OF t, of a] x(3) by auto
  moreover have "(\<exists>y\<in>insert (x, 12) T. inblk a y) \<longleftrightarrow> a div 4096 \<in> insert (x div 4096) P" for a
    using iff tilingD(3) [OF t, of a] by auto
  ultimately show ?thesis
    using x tilingD(1,2) [OF t] unfolding tiling_def by (simp) blast
qed

text \<open>The buddy of an aligned block is the other half of the block of the next order.\<close>

lemma buddy_eq:
  assumes "2 ^ k dvd (x :: nat)"
  defines "c \<equiv> x div 2 ^ Suc k * 2 ^ Suc k"
  shows "{x, x XOR 2 ^ k} = {c, c + 2 ^ k} \<and> x XOR 2 ^ k \<noteq> x \<and> min x (x XOR 2 ^ k) = c"
proof -
  obtain m where x: "x = m * 2 ^ k" using assms(1) by (metis dvd_div_mult_self)
  have "push_bit k m XOR push_bit k 1 = push_bit k (m XOR 1)" by (rule push_bit_xor [symmetric])
  then have "x XOR 2 ^ k = push_bit k (m XOR 1)" by (simp add: x push_bit_eq_mult)
  then have b: "x XOR 2 ^ k = (m + of_bool (even m) - of_bool (odd m)) * 2 ^ k"
    by (simp only: xor_one_eq push_bit_eq_mult)
  have "x div 2 ^ Suc k = x div 2 ^ k div 2" by (simp only: power_Suc2 div_mult2_eq)
  then have "x div 2 ^ Suc k = m div 2" by (simp add: x)
  then have c: "c = m div 2 * 2 * 2 ^ k" by (simp add: c_def)
  show ?thesis
  proof (cases "even m")
    case True
    then have "x = c" "x XOR 2 ^ k = c + 2 ^ k" using x b c by (auto simp: algebra_simps)
    then show ?thesis by simp
  next
    case False
    then have "m = m div 2 * 2 + 1" by presburger
    then have "x = c + 2 ^ k" "x XOR 2 ^ k = c" using x b c False by (metis add_mult_distrib mult_1) (use b c False in \<open>simp add: minus_mod_eq_div_mult [symmetric] odd_iff_mod_2_eq_one\<close>)
    then show ?thesis by auto
  qed
qed

lemma buddy_div:
  assumes "2 ^ k dvd (x :: nat)" and "k < i"
  shows "(x XOR 2 ^ k) div 2 ^ i = x div 2 ^ i"
proof -
  let ?c = "x div 2 ^ Suc k * 2 ^ Suc k"
  have "y div 2 ^ Suc k = x div 2 ^ Suc k" if "y \<in> {?c, ?c + 2 ^ k}" for y
    using that by (intro div_nat_eqI) auto
  then have "(x XOR 2 ^ k) div 2 ^ Suc k = x div 2 ^ Suc k" using buddy_eq [OF assms(1)] by blast
  moreover have "y div 2 ^ i = y div 2 ^ Suc k div 2 ^ (i - Suc k)" for y :: nat
    using assms(2) by (simp add: div_mult2_eq [symmetric] power_add [symmetric] del: power_Suc)
  ultimately show ?thesis by simp
qed

lemma tiling_buddy:
  assumes t: "tiling P T" and x: "(x, k) \<in> T" "k < 12"
  shows "\<exists>k'\<le>k. (x XOR 2 ^ k, k') \<in> T"
proof -
  let ?b = "x XOR 2 ^ k"
  have al: "2 ^ k dvd x" using tilingD(1) [OF t x(1)] by simp
  have alb: "2 ^ k dvd ?b" using buddy_eq [OF al] by (metis dvd_add dvd_mult dvd_triv_right insertE insert_iff le_imp_power_dvd le_add2 plus_1_eq_Suc singletonD dvd_refl)
  have "?b div 4096 = x div 4096" using buddy_div [OF al, of 12] x(2) by simp
  moreover have "inblk x (x, k)" by (simp add: inblk_def)
  ultimately obtain a' k' where y: "(a', k') \<in> T" "inblk ?b (a', k')"
    using tilingD(3) [OF t, of x] tilingD(3) [OF t, of ?b] x(1) by auto
  have al': "2 ^ k' dvd a'" using tilingD(1) [OF t y(1)] by simp
  have le: "k' \<le> k"
  proof (rule ccontr)
    assume "\<not> k' \<le> k"
    then have "inblk x (a', k')" using y(2) buddy_div [OF al, of k'] inblk_iff_div [OF al'] by simp
    then show False using tilingD(2) [OF t x(1) y(1)] \<open>inblk x (x, k)\<close> \<open>\<not> k' \<le> k\<close> by blast
  qed
  then have "2 ^ k' dvd ?b" using alb by (metis dvd_trans le_imp_power_dvd)
  then have "a' = ?b" using y(2) inblk_iff_div [OF al'] al' by (metis dvd_div_eq_cancel)
  then show ?thesis using y(1) le by auto
qed

lemma tiling_merge:
  assumes t: "tiling P T" and x: "(x, k) \<in> T" "(x XOR 2 ^ k, k) \<in> T" "k < 12"
  shows "tiling P (T - {(x, k), (x XOR 2 ^ k, k)} \<union> {(min x (x XOR 2 ^ k), Suc k)})"
proof (rule tiling_replace [OF t])
  define c where "c = x div 2 ^ Suc k * 2 ^ Suc k"
  have al: "2 ^ k dvd x" "5 \<le> k" using tilingD(1) [OF t x(1)] by auto
  have b: "{x, x XOR 2 ^ k} = {c, c + 2 ^ k}" "min x (x XOR 2 ^ k) = c" using buddy_eq [OF al(1)] by (auto simp: c_def)
  have "(\<exists>y\<in>{(x, k), (x XOR 2 ^ k, k)}. inblk a y) \<longleftrightarrow> (\<exists>z\<in>{x, x XOR 2 ^ k}. inblk a (z, k))" for a by auto
  then show "(\<exists>y\<in>{(x, k), (x XOR 2 ^ k, k)}. inblk a y) \<longleftrightarrow> (\<exists>y\<in>{(min x (x XOR 2 ^ k), Suc k)}. inblk a y)" for a
    by (simp add: b inblk_halves)
  have "min x (x XOR 2 ^ k) \<noteq> 0" using tilingD(1) [OF t x(1)] tilingD(1) [OF t x(2)] by (simp add: min_def)
  then show "5 \<le> j \<and> j \<le> 12 \<and> 2 ^ j dvd y \<and> y \<noteq> 0" if "(y, j) \<in> {(min x (x XOR 2 ^ k), Suc k)}" for y j
    using that al x(3) b(2) by (auto simp: c_def)
qed (use x in auto)

section \<open>The invariant\<close>

definition blocks :: "(nat \<Rightarrow> nat list) \<Rightarrow> (nat \<Rightarrow> nat option) \<Rightarrow> (nat \<times> nat) set" where
  "blocks L live = {(b, k). k < 13 \<and> b \<in> set (L k)} \<union> {(b, k). live b = Some k}"

definition heap_ok :: "(nat \<Rightarrow> nat list) \<Rightarrow> nat set \<Rightarrow> (nat \<Rightarrow> nat option) \<Rightarrow> mheap \<Rightarrow> bool" where
  "heap_ok L P live s \<longleftrightarrow> rep L s \<and> tiling P (blocks L live) \<and> (\<forall>b k. live b = Some k \<longrightarrow> h_flags s b = of_nat k)"

text \<open>The free lists and the live blocks \<open>live\<close> (with their orders) tile the pages \<open>P\<close>.\<close>

definition malloc_inv :: "nat set \<Rightarrow> (nat \<Rightarrow> nat option) \<Rightarrow> mheap \<Rightarrow> bool" where
  "malloc_inv P live s \<longleftrightarrow> (\<exists>L. heap_ok L P live s)"

lemma heap_okD:
  assumes "heap_ok L P live s"
  shows "rep L s" and "tiling P (blocks L live)" and "live b = Some k \<Longrightarrow> h_flags s b = of_nat k"
  using assms unfolding heap_ok_def by blast+

lemma block_free: "\<lbrakk>k < 13; x \<in> set (L k)\<rbrakk> \<Longrightarrow> (x, k) \<in> blocks L live"
  by (simp add: blocks_def)

lemma block_live: "live x = Some k \<Longrightarrow> (x, k) \<in> blocks L live"
  by (simp add: blocks_def)

lemma live_not_listed:
  assumes "heap_ok L P live s" and "live x = Some k"
  shows "x \<notin> listed L"
proof
  assume "x \<in> listed L"
  then obtain i where i: "i < 13" "x \<in> set (L i)" by (auto simp: listed_def)
  then have "h_flags s x = FREE_FLAG OR of_nat i" using heap_okD(1) [OF assms(1)] by (simp add: rep_def)
  moreover have "k < 13" using tilingD(1) [OF heap_okD(2) [OF assms(1)], of x k] assms(2) by (simp add: blocks_def)
  ultimately show False using heap_okD(3) [OF assms] flags_inj(2) [OF i(1)] by metis
qed

lemma free_not_live:
  assumes "heap_ok L P live s" and "k < 13" and "x \<in> set (L k)"
  shows "live x = None"
proof (cases "live x")
  case (Some i)
  then show ?thesis using live_not_listed [OF assms(1) Some] assms(2,3) by (auto simp: listed_def)
qed

text \<open>No block starts inside another one.\<close>

lemma no_inner_block:
  assumes "tiling P T" and "(x, k) \<in> T" and "(y, i) \<in> T" and "x < y" and "y < x + 2 ^ k"
  shows False
  using tilingD(2) [OF assms(1-3), of y] assms(4,5) by (simp add: inblk_def)

lemma split_ok:
  assumes ok: "heap_ok L P live s" and j: "5 \<le> j" "j < 12" and L: "L (Suc j) = x # xs"
  shows "\<exists>s'. split_block (Suc j) s = Some s' \<and> heap_ok (L(Suc j := xs, j := x # (x + 2 ^ j) # L j)) P live s'"
proof -
  note r = heap_okD(1) [OF ok] and t = heap_okD(2) [OF ok]
  let ?y = "x + 2 ^ j" and ?L = "L(Suc j := xs, j := x # (x + 2 ^ j) # L j)"
  have xb: "(x, Suc j) \<in> blocks L live" using L j by (intro block_free) auto
  have y: "(?y, i) \<notin> blocks L live" for i using no_inner_block [OF t xb, of ?y i] by auto
  then have yl: "?y \<notin> listed L" by (auto simp: blocks_def listed_def)
  obtain s' where s': "split_block (Suc j) s = Some s'" "rep ?L s'"
    "\<And>z. z \<noteq> x \<Longrightarrow> z \<noteq> ?y \<Longrightarrow> h_flags s' z = h_flags s z"
    using split_rep [OF r _ _ L yl] j by auto
  have nl: "live x = None" using free_not_live [OF ok, of "Suc j" x] L j by simp
  have nl': "live ?y = None" using y block_live by (cases "live ?y") blast+
  have d: "x \<notin> set xs" using rep_chain [OF r, of "Suc j"] L j by simp
  have "blocks ?L live = blocks L live - {(x, Suc j)} \<union> {(x, j), (?y, j)}"
    using L j d nl nl' by (auto simp: blocks_def)
  then have "tiling P (blocks ?L live)" using tiling_split [OF t xb j(1)] by simp
  moreover have "h_flags s' b = of_nat k" if "live b = Some k" for b k
    using s'(3) [of b] heap_okD(3) [OF ok that] that nl nl' by (metis option.distinct(1))
  ultimately show ?thesis using s'(1,2) unfolding heap_ok_def by blast
qed

lemma split_down_ok:
  assumes "heap_ok L P live s" and "5 \<le> ord" "ord \<le> m" "m < 13" and "L m \<noteq> []"
  shows "\<exists>s' L'. split_down ord m s = Some s' \<and> heap_ok L' P live s' \<and> L' ord \<noteq> []"
  using assms
proof (induction m arbitrary: L s)
  case (Suc j)
  show ?case
  proof (cases "ord = Suc j")
    case False
    obtain x xs where L: "L (Suc j) = x # xs" using Suc.prems(5) by (cases "L (Suc j)") auto
    obtain s' where s': "split_block (Suc j) s = Some s'" "heap_ok (L(Suc j := xs, j := x # (x + 2 ^ j) # L j)) P live s'"
      using split_ok [OF Suc.prems(1) _ _ L] Suc.prems(2-4) False by auto
    show ?thesis using Suc.IH [OF s'(2)] Suc.prems(2-4) False s'(1) by simp
  qed (use Suc.prems in auto)
qed auto

lemma take_ok:
  assumes ok: "heap_ok L P live s" and k: "k < 13" and L: "L k = x # xs"
  shows "\<exists>s'. take_block k s = Some (x + sizeof_hdr, s') \<and> heap_ok (L(k := xs)) P (live(x \<mapsto> k)) s' \<and> live x = None"
proof -
  note r = heap_okD(1) [OF ok] and t = heap_okD(2) [OF ok]
  have nl: "live x = None" using free_not_live [OF ok k, of x] L by simp
  have d: "x \<notin> set xs" using rep_chain [OF r k] L by simp
  have eq: "blocks (L(k := xs)) (live(x \<mapsto> k)) = blocks L live" using L d nl k by (auto simp: blocks_def split: if_splits)
  obtain s' where "take_block k s = Some (x + sizeof_hdr, s')" "rep (L(k := xs)) s'" "h_flags s' = (h_flags s)(x := of_nat k)"
    using take_rep [OF r k L] by blast
  then show ?thesis using nl t eq heap_okD(3) [OF ok] unfolding heap_ok_def by auto
qed

lemma page_ok:
  assumes ok: "heap_ok L P live s" and x: "4096 dvd x" "x \<noteq> 0" "x div 4096 \<notin> P"
  shows "\<exists>s'. insert_block 12 x s = Some s' \<and> heap_ok (L(12 := x # L 12)) (insert (x div 4096) P) live s'"
proof -
  note r = heap_okD(1) [OF ok] and t = heap_okD(2) [OF ok]
  have nb: "(x, k) \<notin> blocks L live" for k
  proof
    assume "(x, k) \<in> blocks L live"
    then have "\<exists>y\<in>blocks L live. inblk x y" by (rule bexI [rotated]) (simp add: inblk_def)
    then show False using tilingD(3) [OF t, of x] x(3) by blast
  qed
  then have nl: "live x = None" using block_live by (cases "live x") blast+
  have "x \<notin> listed L" using nb by (auto simp: blocks_def listed_def)
  then obtain s' where s': "insert_block 12 x s = Some s'" "rep (L(12 := x # L 12)) s'"
    "\<forall>y. y \<noteq> x \<longrightarrow> h_flags s' y = h_flags s y"
    using insert_rep [OF r _ x(2), of 12] by auto
  have "blocks (L(12 := x # L 12)) live = insert (x, 12) (blocks L live)" by (auto simp: blocks_def split: if_splits)
  then have "tiling (insert (x div 4096) P) (blocks (L(12 := x # L 12)) live)" using tiling_page [OF t x] by simp
  then show ?thesis using s' heap_okD(3) [OF ok] nl unfolding heap_ok_def by (metis option.distinct(1))
qed

lemma find_order_spec:
  assumes "rep L s"
  shows "ord \<le> find_order ord s \<and> (find_order ord s < 13 \<longrightarrow> L (find_order ord s) \<noteq> [])"
  using assms
proof (induction ord s rule: find_order.induct)
  case (1 ord s)
  then show ?case
    using rep_first [OF "1.prems", of ord] by (subst (1 2 3) find_order.simps) (auto split: list.splits)
qed

text \<open>The order is the least one whose blocks are larger than the number of bytes asked for.\<close>

lemma order_bounds:
  assumes "n \<noteq> (0 :: u64)"
  shows "2 ^ (63 - hibit n) \<le> unat n" and "unat n < 2 ^ (64 - hibit n)" and "hibit n \<le> 63"
proof -
  note h = hibit_props [OF assms]
  show "hibit n \<le> 63" by (rule h(3))
  have "odd (unat n div 2 ^ (63 - hibit n))" using h(1) by (simp add: bit_iff_odd bit_unsigned_iff flip: bit_iff_odd)
  then show "2 ^ (63 - hibit n) \<le> unat n" by (metis div_less even_zero leI)
  have "take_bit (64 - hibit n) n = n"
    using h(2,3) by (intro bit_word_eqI) (fastforce simp: bit_simps)
  then have "unat n = take_bit (64 - hibit n) (unat n)" by (metis unsigned_take_bit_eq)
  then show "unat n < 2 ^ (64 - hibit n)" by (metis take_bit_nat_less_exp)
qed

lemma small_order:
  assumes "unat sz < 4072"
  defines "n \<equiv> sz + of_nat sizeof_hdr"
  shows "unat n = unat sz + 24" and "5 \<le> 64 - hibit n" and "64 - hibit n \<le> 12" and "unat sz + 24 < 2 ^ (64 - hibit n)"
proof -
  show n: "unat n = unat sz + 24" using assms(1) unat_add_lt [of sz 24] by (simp add: n_def sizeof_hdr_def)
  then have "n \<noteq> 0" by auto
  note b = order_bounds [OF this]
  show "unat sz + 24 < 2 ^ (64 - hibit n)" using b(2) n by simp
  show "5 \<le> 64 - hibit n"
  proof (rule ccontr)
    assume "\<not> 5 \<le> 64 - hibit n"
    then have "(2::nat) ^ (64 - hibit n) \<le> 2 ^ 4" by (intro power_increasing) auto
    then show False using b(2) n by simp
  qed
  show "64 - hibit n \<le> 12"
  proof (rule ccontr)
    assume "\<not> 64 - hibit n \<le> 12"
    then have "(2::nat) ^ 12 \<le> 2 ^ (63 - hibit n)" by (intro power_increasing) auto
    then show False using b(1) n assms(1) by simp
  qed
qed

lemma tiling_apart:
  assumes "tiling P T" and "(x, k) \<in> T" and "(y, i) \<in> T" and "(x, k) \<noteq> (y, i)"
  shows "y + 2 ^ i \<le> x \<or> x + 2 ^ k \<le> y"
proof (rule ccontr)
  assume "\<not> ?thesis"
  then have "inblk (max x y) (x, k)" "inblk (max x y) (y, i)" by (auto simp: inblk_def)
  then show False using tilingD(2) [OF assms(1-3)] assms(4) by blast
qed

section \<open>Allocation and release\<close>

text \<open>The common end of \<^verbatim>\<open>malloc\<close>, from a list of sufficient order on.\<close>

lemma split_take_ok:
  assumes ok: "heap_ok L P live s" and m: "5 \<le> ord" "ord \<le> m" "m < 13" "L m \<noteq> []"
  shows "\<exists>b s'. (split_down ord m s \<bind> take_block ord) = Some (b + sizeof_hdr, s') \<and>
    malloc_inv P (live(b \<mapsto> ord)) s' \<and> live b = None"
proof -
  obtain s1 L1 where s1: "split_down ord m s = Some s1" "heap_ok L1 P live s1" "L1 ord \<noteq> []"
    using split_down_ok [OF ok m] by blast
  obtain x xs where L1: "L1 ord = x # xs" using s1(3) by (cases "L1 ord") auto
  obtain s' where "take_block ord s1 = Some (x + sizeof_hdr, s')" "heap_ok (L1(ord := xs)) P (live(x \<mapsto> ord)) s'" "live x = None"
    using take_ok [OF s1(2) _ L1] m by auto
  then show ?thesis using s1(1) unfolding malloc_inv_def by auto
qed

lemma inv_live_apart:
  assumes "malloc_inv P live s" and "live b = Some k" and "live b' = Some k'" and "b \<noteq> b'"
  shows "b' + 2 ^ k' \<le> b \<or> b + 2 ^ k \<le> b'"
proof -
  obtain L where ok: "heap_ok L P live s" using assms(1) by (auto simp: malloc_inv_def)
  have "(b, k) \<in> blocks L live" "(b', k') \<in> blocks L live" using assms(2,3) by (auto simp: blocks_def)
  from tiling_apart [OF heap_okD(2) [OF ok] this] show ?thesis using assms(4) by simp
qed

lemma inv_live_aligned:
  assumes "malloc_inv P live s" and "live b = Some k"
  shows "5 \<le> k \<and> k \<le> 12 \<and> 2 ^ k dvd b \<and> b \<noteq> 0"
proof -
  obtain L where ok: "heap_ok L P live s" using assms(1) by (auto simp: malloc_inv_def)
  have "(b, k) \<in> blocks L live" using assms(2) by (simp add: blocks_def)
  then show ?thesis by (rule tilingD(1) [OF heap_okD(2) [OF ok]])
qed

lemma aligned_8:
  assumes "5 \<le> k" and "2 ^ k dvd b"
  shows "8 dvd b + sizeof_hdr"
proof -
  have "(2::nat) ^ 3 dvd 2 ^ k" using assms(1) by (intro le_imp_power_dvd) simp
  then have "8 dvd b" using assms(2) dvd_trans by fastforce
  then show ?thesis by (simp add: sizeof_hdr_def)
qed

lemma malloc_step:
  assumes ok: "heap_ok L P live s" and sz: "unat sz < 4072"
    and page: "sp 0x1000 = 0 \<or> 4096 dvd sp 0x1000 \<and> sp 0x1000 div 4096 \<notin> P"
  defines "ord \<equiv> 64 - hibit (sz + of_nat sizeof_hdr)"
  shows "malloc sp sz s = Some (0, s) \<and> sp 0x1000 = 0 \<or>
    (\<exists>b s' P'. malloc sp sz s = Some (b + sizeof_hdr, s') \<and> live b = None \<and>
       (P' = P \<or> P' = insert (sp 0x1000 div 4096) P) \<and> malloc_inv P' (live(b \<mapsto> ord)) s')"
proof -
  define n where "n = sz + of_nat sizeof_hdr"
  note so = small_order [OF sz, folded n_def ord_def, folded n_def]
  have ord: "64 - hibit n = ord" by (simp add: ord_def n_def)
  have n: "\<not> n > 0x1000" "n \<noteq> 0" using so(1) sz by (auto simp: word_less_nat_alt)
  have page4k: "alloc_new sp 0x1000 = (sp 0x1000, 0x1000)" by (simp add: alloc_new_def ALIGN_UP_def BIT_def)
  note fo = find_order_spec [OF heap_okD(1) [OF ok], of ord]
  show ?thesis
  proof (cases "find_order ord s < 13")
    case True
    then have m: "malloc sp sz s = split_down ord (find_order ord s) s \<bind> take_block ord"
      using n by (simp add: malloc_def Let_def n_def [symmetric] ord)
    obtain b s' where "(split_down ord (find_order ord s) s \<bind> take_block ord) = Some (b + sizeof_hdr, s')"
      "malloc_inv P (live(b \<mapsto> ord)) s'" "live b = None"
      using split_take_ok [OF ok so(2) _ True] fo True by blast
    then show ?thesis unfolding m by blast
  next
    case F: False
    show ?thesis
    proof (cases "sp 0x1000 = 0")
      case True
      then show ?thesis using F n page4k by (simp add: malloc_def Let_def n_def [symmetric] ord)
    next
      case False
      obtain s1 where s1: "insert_block 12 (sp 0x1000) s = Some s1"
        "heap_ok (L(12 := sp 0x1000 # L 12)) (insert (sp 0x1000 div 4096) P) live s1"
        using page_ok [OF ok] page False by blast
      obtain b s' where b: "(split_down ord 12 s1 \<bind> take_block ord) = Some (b + sizeof_hdr, s')"
        "malloc_inv (insert (sp 0x1000 div 4096) P) (live(b \<mapsto> ord)) s'" "live b = None"
        using split_take_ok [OF s1(2) so(2,3)] by auto
      have "malloc sp sz s = insert_block 12 (sp 0x1000) s \<bind> (\<lambda>s. split_down ord 12 s \<bind> take_block ord)"
        using F False n page4k by (simp add: malloc_def Let_def n_def [symmetric] ord)
      then have "malloc sp sz s = Some (b + sizeof_hdr, s')" using s1(1) b(1) by simp
      then show ?thesis using b by blast
    qed
  qed
qed

text \<open>A heap before the first allocation, and one with a page of which half is in use.\<close>

definition demo_heap :: mheap where
  "demo_heap = clear_free \<lparr>h_next = (\<lambda>_. 0), h_prev = (\<lambda>_. SNull), h_flags = (\<lambda>_. 0), free_tab = []\<rparr>"

definition demo_half :: mheap where
  "demo_half = \<lparr>h_next = (\<lambda>_. 0), h_prev = (\<lambda>_. SFree 11), h_flags = (\<lambda>_. 0)(0x10000 := 11, 0x10800 := FREE_FLAG OR 11),
     free_tab = (replicate 13 0)[11 := 0x10800]\<rparr>"

lemma demo_heap_inv: "malloc_inv {} Map.empty demo_heap"
proof -
  have "rep (\<lambda>_. []) demo_heap" by (simp add: rep_def demo_heap_def clear_free_def)
  then have "heap_ok (\<lambda>_. []) {} Map.empty demo_heap" by (simp add: heap_ok_def tiling_def blocks_def)
  then show ?thesis unfolding malloc_inv_def by blast
qed

lemma demo_half_ok: "heap_ok ((\<lambda>_. [])(11 := [0x10800])) {16} [0x10000 \<mapsto> 11] demo_half"
proof -
  let ?L = "(\<lambda>_. [])(11 := [0x10800])"
  have "tiling {16} {(0x10000, Suc 11)}" using tiling_page [of "{}" "{}" "0x10000"] by (simp add: tiling_def)
  from tiling_split [OF this, of "0x10000" 11] have "tiling {16} {(0x10000, 11), (0x10800, 11)}" by simp
  moreover have "blocks ?L [0x10000 \<mapsto> 11] = {(0x10000, 11), (0x10800, 11)}"
    by (auto simp: blocks_def split: if_splits)
  moreover have "rep ?L demo_half" by (simp add: rep_def demo_half_def nth_list_update)
  ultimately show ?thesis by (simp add: heap_ok_def demo_half_def)
qed

text \<open>C10. In a well-formed heap \<^verbatim>\<open>malloc\<close> of at most 4071 bytes returns, with undefined behaviour nowhere:
  either NULL because the kernel gave no page, with the heap unchanged, or a pointer aligned to 8
  into a block that was free, is large enough, lies in a page of the allocator and is disjoint
  from every live block; the heap stays well formed with the block among the live ones.
  \<open>P\<close> are the allocator's pages, and the page the kernel gives is a new one.\<close>

theorem malloc_correct:
  assumes inv: "malloc_inv P live s" and sz: "unat sz < 4072"
    and page: "sp 0x1000 = 0 \<or> 4096 dvd sp 0x1000 \<and> sp 0x1000 div 4096 \<notin> P"
  shows "\<exists>p s'. malloc sp sz s = Some (p, s') \<and>
    (p = 0 \<and> s' = s \<and> sp 0x1000 = 0 \<or>
     8 dvd p \<and> (\<exists>b k P'. p = b + 24 \<and> live b = None \<and> p + unat sz \<le> b + 2 ^ k \<and>
       (P' = P \<or> P' = insert (sp 0x1000 div 4096) P) \<and> malloc_inv P' (live(b \<mapsto> k)) s' \<and>
       (\<forall>b' k'. live b' = Some k' \<longrightarrow> b' + 2 ^ k' \<le> b \<or> b + 2 ^ k \<le> b')))"
proof -
  define ord where "ord = 64 - hibit (sz + of_nat sizeof_hdr)"
  obtain L where ok: "heap_ok L P live s" using inv by (auto simp: malloc_inv_def)
  consider "malloc sp sz s = Some (0, s)" "sp 0x1000 = 0"
    | (blk) b s' P' where "malloc sp sz s = Some (b + sizeof_hdr, s')" "live b = None"
      "P' = P \<or> P' = insert (sp 0x1000 div 4096) P" "malloc_inv P' (live(b \<mapsto> ord)) s'"
    using malloc_step [where sp = sp, OF ok sz page] unfolding ord_def by (elim disjE exE conjE) metis+
  then show ?thesis
  proof cases
    case blk
    have al: "5 \<le> ord" "2 ^ ord dvd b" using inv_live_aligned [OF blk(4), of b ord] by auto
    have "b' + 2 ^ k' \<le> b \<or> b + 2 ^ ord \<le> b'" if "live b' = Some k'" for b' k'
      using inv_live_apart [OF blk(4), of b ord b' k'] that blk(2) by (cases "b = b'") auto
    moreover have "unat sz + 24 \<le> 2 ^ ord" using small_order(4) [OF sz] by (simp add: ord_def)
    ultimately have "\<exists>c k Q. b + sizeof_hdr = c + 24 \<and> live c = None \<and> b + sizeof_hdr + unat sz \<le> c + 2 ^ k \<and>
       (Q = P \<or> Q = insert (sp 0x1000 div 4096) P) \<and> malloc_inv Q (live(c \<mapsto> k)) s' \<and>
       (\<forall>b' k'. live b' = Some k' \<longrightarrow> b' + 2 ^ k' \<le> c \<or> c + 2 ^ k \<le> b')"
      using blk by (intro exI [of _ b] exI [of _ ord] exI [of _ P']) (simp add: sizeof_hdr_def)
    then show ?thesis using blk(1) aligned_8 [OF al] by blast
  qed blast
qed

theorem malloc_correct_witness:
  "\<exists>b k P' s'. malloc (\<lambda>_. 0x10000) 100 demo_heap = Some (b + 24, s') \<and> malloc_inv P' [b \<mapsto> k] s' \<and> 124 \<le> (2::nat) ^ k"
  using malloc_correct [of "{}" Map.empty demo_heap 100 "\<lambda>_. 0x10000", OF demo_heap_inv] by auto blast+

text \<open>Freeing without a free buddy puts the block on its list.\<close>

lemma free_alone_ok:
  assumes ok: "heap_ok L P live s" and b: "live b = Some k" and k: "k < 13" "b \<noteq> 0"
  shows "\<exists>s'. insert_block k b s = Some s' \<and> heap_ok (L(k := b # L k)) P (live(b := None)) s'"
proof -
  note r = heap_okD(1) [OF ok] and t = heap_okD(2) [OF ok] and nl = live_not_listed [OF ok b]
  obtain s' where s': "insert_block k b s = Some s'" "rep (L(k := b # L k)) s'" "\<forall>y. y \<noteq> b \<longrightarrow> h_flags s' y = h_flags s y"
    using insert_rep [OF r k nl] by blast
  have "blocks (L(k := b # L k)) (live(b := None)) = blocks L live"
    using b k(1) by (auto simp: blocks_def split: if_splits)
  then have "heap_ok (L(k := b # L k)) P (live(b := None)) s'"
    using s' t heap_okD(3) [OF ok] unfolding heap_ok_def by auto
  then show ?thesis using s'(1) by blast
qed

text \<open>Freeing next to a free buddy merges the two.\<close>

lemma free_merge_ok:
  assumes ok: "heap_ok L P live s" and b: "live b = Some k" "k < 12" and y: "b XOR 2 ^ k \<in> set (L k)"
  defines "y \<equiv> b XOR 2 ^ k"
  shows "\<exists>s1 s2. put_slot (h_prev s y) (h_next s y) s = Some s1 \<and>
    insert_block (k + 1) (min b y) (prev_if (h_next s1 y) (h_prev s1 y) s1) = Some s2 \<and>
    heap_ok (L(k := remove1 y (L k), k + 1 := min b y # L (k + 1))) P (live(b := None)) s2"
proof -
  note r = heap_okD(1) [OF ok] and t = heap_okD(2) [OF ok] and nl = live_not_listed [OF ok b(1)]
  let ?L = "L(k := remove1 y (L k))" and ?m = "min b y"
  have k: "k < 13" "k + 1 < 13" using b(2) by auto
  have y': "y \<in> set (L k)" using y by (simp add: y_def)
  have d: "distinct (L k)" using rep_chain [OF r k(1)] by simp
  have bl: "(b, k) \<in> blocks L live" "(y, k) \<in> blocks L live" using b(1) y' k by (auto simp: blocks_def)
  obtain s1 where s1: "put_slot (h_prev s y) (h_next s y) s = Some s1"
    "rep ?L (prev_if (h_next s1 y) (h_prev s1 y) s1)" "h_flags s1 = h_flags s"
    using unlink_rep [OF r k(1) y'] by blast
  have "b \<noteq> y" using nl y' k(1) by (auto simp: listed_def)
  have lis: "listed ?L = listed L - {y}"
  proof -
    have "y \<notin> set (L i)" if "i < 13" "i \<noteq> k" for i using rep_disjoint [OF r that(1) k(1), of y] that y' by auto
    then show ?thesis using d y' by (auto simp: listed_upd [OF k(1)] listed_split [OF k(1), of L])
  qed
  have m: "?m \<noteq> 0" "?m \<notin> listed ?L"
    using tilingD(1) [OF t bl(1)] tilingD(1) [OF t bl(2)] nl lis by (auto simp: min_def)
  obtain s2 where s2: "insert_block (k + 1) ?m (prev_if (h_next s1 y) (h_prev s1 y) s1) = Some s2"
    "rep (?L(k + 1 := ?m # ?L (k + 1))) s2" "\<forall>z. z \<noteq> ?m \<longrightarrow> h_flags s2 z = h_flags s1 z"
    using insert_rep [OF s1(2) k(2) m] by (auto simp: put_proj)
  have "blocks (?L(k + 1 := ?m # ?L (k + 1))) (live(b := None)) = blocks L live - {(b, k), (y, k)} \<union> {(?m, Suc k)}"
    using d k b \<open>b \<noteq> y\<close> free_not_live [OF ok k(1) y'] nl by (auto simp: blocks_def listed_def split: if_splits)
  then have "tiling P (blocks (?L(k + 1 := ?m # ?L (k + 1))) (live(b := None)))"
    using tiling_merge [OF t bl(1) bl(2) [unfolded y_def] b(2)] by (simp add: y_def)
  moreover have "h_flags s2 z = of_nat i" if "(live(b := None)) z = Some i" for z i
  proof -
    have "z \<noteq> ?m" using that free_not_live [OF ok k(1) y'] by (auto simp: min_def split: if_splits)
    then show ?thesis using s2(3) s1(3) heap_okD(3) [OF ok, of z i] that by (auto split: if_splits)
  qed
  ultimately have "heap_ok (?L(k + 1 := ?m # ?L (k + 1))) P (live(b := None)) s2"
    using s2(2) unfolding heap_ok_def by blast
  then show ?thesis using s1(1) s2(1) by auto
qed

text \<open>The lists of free blocks after the block \<open>b\<close> of order \<open>k\<close> is released: when its buddy is on the list of
  this order, the buddy leaves it and the two, as one block at the lower address, go to the front of
  the next list; otherwise the block goes to the front of its list.\<close>

definition released :: "nat \<Rightarrow> nat \<Rightarrow> (nat \<Rightarrow> nat list) \<Rightarrow> nat \<Rightarrow> nat list" where
  "released b k L = (let y = b XOR 2 ^ k in
     if y \<in> set (L k) then L(k := remove1 y (L k), k + 1 := min b y # L (k + 1)) else L(k := b # L k))"

text \<open>C11. Freeing a live block smaller than a page returns with no undefined behaviour and no call of the
  kernel. If the buddy is free, with the same order, exactly these two become one free block of the
  next order; otherwise exactly this block is added to the free ones of its order; no other list
  changes. The heap stays well formed, without the block among the live ones. Freeing NULL does
  nothing. The lists \<open>L\<close> are the thirteen lists of free blocks that the heap \<open>s\<close> holds.\<close>

theorem free_correct:
  assumes ok: "heap_ok L P live s" and b: "live b = Some k" "k < 12"
  shows "(\<exists>s'. free_mem (b + 24) s = Some (s', None) \<and> heap_ok (released b k L) P (live(b := None)) s') \<and>
    free_mem 0 s = Some (s, None)"
proof -
  note t = heap_okD(2) [OF ok]
  let ?y = "b XOR 2 ^ k"
  have bl: "(b, k) \<in> blocks L live" using b(1) by (simp add: blocks_def)
  have k: "k < 13" "b \<noteq> 0" using tilingD(1) [OF t bl] by auto
  have fl: "h_flags s b = of_nat k" by (rule heap_okD(3) [OF ok b(1)])
  have free: "free_mem (b + 24) s = (if h_flags s ?y = FREE_FLAG OR of_nat k then do {
            s \<leftarrow> put_slot (h_prev s ?y) (h_next s ?y) s;
            let s = prev_if (h_next s ?y) (h_prev s ?y) s;
            s \<leftarrow> insert_block (k + 1) (min b ?y) s;
            Some (s, None) }
          else do { s \<leftarrow> insert_block k b s; Some (s, None) })"
    using flags_simps [OF k(1)] by (simp add: free_mem_def Let_def sizeof_hdr_def fl min_def not_less)
      (use buddy_eq [of k b] tilingD(1) [OF t bl] in auto)
  have "\<exists>s'. free_mem (b + 24) s = Some (s', None) \<and> heap_ok (released b k L) P (live(b := None)) s'"
  proof (cases "?y \<in> set (L k)")
    case True
    then have "h_flags s ?y = FREE_FLAG OR of_nat k" using heap_okD(1) [OF ok] k(1) by (simp add: rep_def)
    then show ?thesis using free_merge_ok [OF ok b True] True by (auto simp: free released_def Let_def)
  next
    case False
    have "h_flags s ?y \<noteq> FREE_FLAG OR of_nat k"
    proof
      assume fr: "h_flags s ?y = FREE_FLAG OR of_nat k"
      obtain k' where k': "k' \<le> k" "(?y, k') \<in> blocks L live" using tiling_buddy [OF t bl b(2)] by blast
      have "live ?y \<noteq> Some k'" using heap_okD(3) [OF ok, of ?y k'] fr flags_inj(2) [OF k(1), of k'] k' k(1) by auto
      then have y: "?y \<in> set (L k')" "k' < 13" using k' by (auto simp: blocks_def)
      then have "h_flags s ?y = FREE_FLAG OR of_nat k'" using heap_okD(1) [OF ok] by (simp add: rep_def)
      then show False using fr flags_inj(1) [OF k(1) y(2)] y(1) False by simp
    qed
    then show ?thesis using free_alone_ok [OF ok b(1) k] False by (auto simp: free released_def Let_def)
  qed
  then show ?thesis by (simp add: free_mem_def)
qed

theorem free_correct_witness:
  "\<exists>s'. free_mem 0x10018 demo_half = Some (s', None) \<and> heap_ok ((\<lambda>_. [])(12 := [0x10000])) {16} Map.empty s'"
proof -
  have b: "(0x10000 :: nat) XOR 2 ^ 11 = 0x10800" by simp
  have "released 0x10000 11 ((\<lambda>_. [])(11 := [0x10800])) = (\<lambda>_. [])(12 := [0x10000])"
    unfolding released_def b Let_def by (simp add: fun_eq_iff)
  then show ?thesis using free_correct [OF demo_half_ok, of "0x10000" 11] by simp
qed

text \<open>C23. Three misuses the allocator does not guard against: a request of 4072 bytes, whose block with its
  header is exactly a page, reads the table of lists past its end; so does freeing a page-sized
  block next to another free page; and a request for \<^verbatim>\<open>SIZE_MAX\<close> bytes wraps around and is served
  like one for no byte.\<close>

theorem malloc_limits:
  assumes "length (free_tab s) = 13" and "sp 0x1000 \<noteq> 0"
    and "h_flags s b = 12" and "h_flags s (b XOR 4096) = FREE_FLAG OR 12"
  shows "malloc sp 4072 s = None \<and> free_mem (b + 24) s = None \<and> malloc sp (- 1) s = malloc sp 0 s"
proof -
  have hib: "hibit 4096 = 51" "hibit 23 = 59" "hibit 24 = 59" by code_simp+
  have none: "insert_block 13 x t = None" if "length (free_tab t) = 13" for x t
    using that by (simp add: insert_block_def get_free_def put_proj)
  have fo: "find_order 13 s = 13" by (simp add: find_order.simps)
  obtain s1 where s1: "insert_block 12 (sp 0x1000) s = Some s1" "length (free_tab s1) = 13"
    using assms(1) by (simp add: insert_block_def get_free_def put_proj)
  have "split_down 13 12 s1 = Some s1" by (simp add: numeral_eq_Suc)
  moreover have "take_block 13 s1 = None" using s1(2) by (simp add: take_block_def get_free_def)
  ultimately have "malloc sp 4072 s = None"
    using assms(2) s1(1) by (simp add: malloc_def sizeof_hdr_def hib fo alloc_new_def ALIGN_UP_def BIT_def Let_def)
  moreover have "free_mem (b + 24) s = None"
  proof -
    have "length (free_tab t) = 13" if "put_slot sl v s = Some t" for sl v t
      using that assms(1) by (cases sl) (auto simp: put_proj)
    then show ?thesis using assms(3,4) none
      by (simp add: free_mem_def sizeof_hdr_def HUGE_FLAG_def Let_def put_proj split: bind_splits) 
  qed
  moreover have "malloc sp (- 1) s = malloc sp 0 s"
    by (simp add: malloc_def sizeof_hdr_def hib Let_def)
  ultimately show ?thesis by blast
qed

theorem malloc_limits_witness:
  "malloc (\<lambda>_. 0x30000) 4072 (demo_heap\<lparr>h_flags := (\<lambda>_. 0)(0x10000 := 12, 0x11000 := FREE_FLAG OR 12)\<rparr>) = None"
  using malloc_limits [of "demo_heap\<lparr>h_flags := (\<lambda>_. 0)(0x10000 := 12, 0x11000 := FREE_FLAG OR 12)\<rparr>" "\<lambda>_. 0x30000" "0x10000"]
  by (simp add: demo_heap_def clear_free_def)

end
