(* ===== verification/Paging.thy ===== *)
theory Paging
  imports PhysMem "HOL-Library.Sublist"
begin

text \<open>
  The page tables: \<^verbatim>\<open>sys/mm/paging.c\<close> and \<^verbatim>\<open>sys/mm/page_table.c\<close>. The kernel edits the tables of
  the current address space through the recursive entry 256 of the top-level table: the address
  \<open>get_pte_addr v l\<close> is, translated by the processor, the entry of level \<open>l\<close> for \<open>v\<close>. Physical memory is a
  function from the physical address of an 8-byte cell to its contents, and \<open>mmu\<close> is the
  processor's four-level translation with 4 KiB, 2 MiB and 1 GiB pages. Reading or writing at an
  address without translation, and a panic, are the outcome \<open>None\<close>.

  The theorems: the recursive addresses reach the entries the walk of the address consults, and
  \<^verbatim>\<open>map_page\<close> and \<^verbatim>\<open>unmap\<close> change the translation of exactly the page they are given. The frames for new
  tables come from any \<open>page_source\<close>; the kernel's is \<open>get_phys_page\<close>. Stale entries of the
  translation cache are not modelled (\<^verbatim>\<open>unmap\<close> invalidates the one it changes).
\<close>

section \<open>Translation\<close>

type_synonym cells = "u64 \<Rightarrow> u64"

definition pt_index :: "nat \<Rightarrow> u64 \<Rightarrow> nat" where
  "pt_index l v = unat (drop_bit (39 - 9 * l) v AND 0x1ff)"

definition pt_cell :: "u64 \<Rightarrow> nat \<Rightarrow> u64" where
  "pt_cell t i = t + 8 * of_nat i"

definition present :: "u64 \<Rightarrow> bool" where
  "present e \<longleftrightarrow> e AND PTE_P \<noteq> 0"

definition large :: "u64 \<Rightarrow> bool" where
  "large e \<longleftrightarrow> e AND BIT 7 \<noteq> 0"

text \<open>\<open>mmu_walk m r t v\<close> translates from the table \<open>t\<close> on, with \<open>r\<close> more tables below it.\<close>

fun mmu_walk :: "cells \<Rightarrow> nat \<Rightarrow> u64 \<Rightarrow> u64 \<Rightarrow> u64 option" where
  "mmu_walk m 0 t v =
     (let e = m (pt_cell t (pt_index 3 v)) in
      if present e then Some (pte_get_base e OR (v AND 0xfff)) else None)"
| "mmu_walk m (Suc r) t v =
     (let e = m (pt_cell t (pt_index (2 - r) v)) in
      if \<not> present e then None
      else if large e then
        (if r \<ge> 2 then None
         else Some ((pte_get_base e AND NOT (mask (21 + 9 * r))) OR (v AND mask (21 + 9 * r))))
      else mmu_walk m r (pte_get_base e) v)"

definition mmu :: "cells \<Rightarrow> u64 \<Rightarrow> u64 \<Rightarrow> u64 option" where
  "mmu m root v = mmu_walk m 3 root v"

section \<open>The operations\<close>

definition get_pte_addr :: "u64 \<Rightarrow> nat \<Rightarrow> u64" where
  "get_pte_addr addr level =
     (let addr = addr AND 0xffffffffffff;
          res = fold (\<lambda>i res. res OR push_bit (39 - 9 * i) 0x100) [0..<4 - level] 0;
          addr = drop_bit 12 addr;
          addr = (if level < 3 then drop_bit (9 * (3 - level) - 3) addr else push_bit 3 addr);
          res = res OR (addr AND NOT 7)
      in res OR 0xffff000000000000)"

definition zero_page :: "u64 \<Rightarrow> cells \<Rightarrow> cells" where
  "zero_page p m = (\<lambda>a. if a - p < 0x1000 then 0 else m a)"

text \<open>The loop over the levels; \<open>False\<close> is the NULL returned for a missing table.\<close>

fun pte_levels ::
  "u64 \<Rightarrow> u64 \<Rightarrow> ('s \<Rightarrow> (u64 \<times> 's) option) \<Rightarrow> bool \<Rightarrow> u64 \<Rightarrow> nat list \<Rightarrow> cells \<times> 's \<Rightarrow> (bool \<times> cells \<times> 's) option" where
  "pte_levels vaddr flags gpp create root [] (m, z) = Some (True, m, z)"
| "pte_levels vaddr flags gpp create root (i # is) (m, z) = do {
     pte \<leftarrow> mmu m root (get_pte_addr vaddr i);
     if \<not> present (m pte) then
       (if \<not> create then Some (False, m, z)
        else do {
          (p, z) \<leftarrow> gpp z;
          let entry = pte_set_flags (pte_set_base 0 p 0) flags OR (PTE_P OR PTE_W);
          let m = m(pte := entry);
          pg \<leftarrow> mmu m root (get_pte_addr vaddr (i + 1) AND NOT 0xfff);
          pte_levels vaddr flags gpp create root is (zero_page pg m, z) })
     else if i \<noteq> 3 \<and> large (m pte) then None
     else pte_levels vaddr flags gpp create root is (m, z) }"

definition get_pte_addr_checked ::
  "u64 \<Rightarrow> nat \<Rightarrow> u64 \<Rightarrow> ('s \<Rightarrow> (u64 \<times> 's) option) \<Rightarrow> bool \<Rightarrow> u64 \<Rightarrow> cells \<times> 's \<Rightarrow> (u64 option \<times> cells \<times> 's) option" where
  "get_pte_addr_checked vaddr pgsize flags gpp create root s = do {
     (ok, m, z) \<leftarrow> pte_levels vaddr flags gpp create root [0..<3 - pgsize] s;
     Some (if ok then Some (get_pte_addr vaddr (3 - pgsize)) else None, m, z) }"

definition map_page_with ::
  "u64 \<Rightarrow> u64 \<Rightarrow> nat \<Rightarrow> u64 \<Rightarrow> ('s \<Rightarrow> (u64 \<times> 's) option) \<Rightarrow> u64 \<Rightarrow> cells \<times> 's \<Rightarrow> (cells \<times> 's) option" where
  "map_page_with addr vaddr pgsize flags gpp root s = do {
     (pte, m, z) \<leftarrow> get_pte_addr_checked vaddr pgsize flags gpp True root s;
     pte \<leftarrow> pte;
     pa \<leftarrow> mmu m root pte;
     guard (\<not> present (m pa));
     let entry = pte_set_flags (pte_set_base 0 addr pgsize) flags OR PTE_P;
     Some (m(pa := entry), z) }"

definition map_page ::
  "u64 \<Rightarrow> u64 \<Rightarrow> nat \<Rightarrow> u64 \<Rightarrow> u64 \<Rightarrow> cells \<times> 'z phys_mem_scheme \<Rightarrow> (cells \<times> 'z phys_mem_scheme) option" where
  "map_page addr vaddr pgsize flags root s = map_page_with addr vaddr pgsize flags get_phys_page root s"

definition unmap :: "u64 \<Rightarrow> u64 \<Rightarrow> cells \<Rightarrow> cells option" where
  "unmap vaddr root m = do {
     (pte, m, _) \<leftarrow> get_pte_addr_checked vaddr 0 0 (\<lambda>_ :: unit. None) False root (m, ());
     case pte of
       None \<Rightarrow> Some m
     | Some pte \<Rightarrow> do { pa \<leftarrow> mmu m root pte; Some (m(pa := 0)) } }"

text \<open>The early allocator takes the pages behind the kernel image; its state is \<^verbatim>\<open>endaddr\<close>.\<close>

definition get_phys_page_early :: "u64 \<Rightarrow> u64 \<Rightarrow> (u64 \<times> u64) option" where
  "get_phys_page_early physoffset endaddr = Some (endaddr - physoffset, endaddr + 4096)"

definition map_4k_early :: "u64 \<Rightarrow> u64 \<Rightarrow> u64 \<Rightarrow> u64 \<Rightarrow> cells \<times> u64 \<Rightarrow> (cells \<times> u64) option" where
  "map_4k_early physoffset addr vaddr root s = map_page_with addr vaddr 0 PTE_W (get_phys_page_early physoffset) root s"

text \<open>The counter of \<^verbatim>\<open>map_range\<close> is an \<^verbatim>\<open>int\<close>: from a length of 2 GiB on it overflows.\<close>

fun map_range_from ::
  "nat \<Rightarrow> u64 \<Rightarrow> u64 \<Rightarrow> u64 \<Rightarrow> nat \<Rightarrow> u64 \<Rightarrow> u64 \<Rightarrow> cells \<times> 'z phys_mem_scheme \<Rightarrow> (cells \<times> 'z phys_mem_scheme) option" where
  "map_range_from 0 sz addr vaddr pgsize flags root s = Some s"
| "map_range_from (Suc n) sz addr vaddr pgsize flags root s = do {
     s \<leftarrow> map_page addr vaddr pgsize flags root s;
     map_range_from n sz (addr + sz) (vaddr + sz) pgsize flags root s }"

definition map_range ::
  "u64 \<Rightarrow> u64 \<Rightarrow> u64 \<Rightarrow> nat \<Rightarrow> u64 \<Rightarrow> u64 \<Rightarrow> cells \<times> 'z phys_mem_scheme \<Rightarrow> (cells \<times> 'z phys_mem_scheme) option" where
  "map_range addr vaddr ln pgsize flags root s = do {
     guard (pgsize \<le> 2);
     let sz = push_bit (9 * pgsize) PAGE_SIZE;
     guard (ln AND (sz - 1) = 0 \<and> addr AND (sz - 1) = 0 \<and> vaddr AND (sz - 1) = 0);
     guard (unat ln < 2 ^ 31);
     map_range_from (unat ln div unat sz) sz addr vaddr pgsize flags root s }"

section \<open>Tables of another address space\<close>

text \<open>\<^verbatim>\<open>ptable_get_entry_4k\<close> reads the tables through the direct map of physical memory; the pointers are
  the physical addresses of the cells.\<close>

fun ptable_levels :: "cells \<Rightarrow> u64 \<Rightarrow> nat list \<Rightarrow> u64 \<Rightarrow> u64 option" where
  "ptable_levels m vaddr [] t = Some t"
| "ptable_levels m vaddr (i # is) t =
     (let pte = m (pt_cell t (unat (drop_bit (39 - i * 9) vaddr AND 0x1ff))) in
      if pte AND 1 = 0 then None else ptable_levels m vaddr is (pte_get_base pte))"

definition ptable_get_entry_4k :: "u64 \<Rightarrow> u64 \<Rightarrow> cells \<Rightarrow> u64 option option" where
  "ptable_get_entry_4k pml4 vaddr m = do {
     guard (GET_BIT vaddr 63 = 0);
     Some (do { t \<leftarrow> ptable_levels m vaddr [0, 1, 2] pml4;
                Some (pt_cell t (unat (drop_bit 12 vaddr AND 0x1ff))) }) }"

text \<open>The visitor gets a table and the address of the entry that points to it.\<close>

fun walk_page_table ::
  "(u64 \<Rightarrow> u64 option \<Rightarrow> cells \<times> 's \<Rightarrow> (cells \<times> 's) option) \<Rightarrow> nat \<Rightarrow> u64 \<Rightarrow> u64 option \<Rightarrow> cells \<times> 's \<Rightarrow> (cells \<times> 's) option"
and walk_entries ::
  "(u64 \<Rightarrow> u64 option \<Rightarrow> cells \<times> 's \<Rightarrow> (cells \<times> 's) option) \<Rightarrow> nat \<Rightarrow> u64 \<Rightarrow> nat list \<Rightarrow> cells \<times> 's \<Rightarrow> (cells \<times> 's) option" where
  "walk_page_table fn 0 pt pte s = fn pt pte s"
| "walk_page_table fn (Suc r) pt pte s = do {
     s \<leftarrow> walk_entries fn r pt [0..<(if r = 2 then 256 else 512)] s;
     fn pt pte s }"
| "walk_entries fn r pt [] s = Some s"
| "walk_entries fn r pt (i # is) s = do {
     let e = fst s (pt_cell pt i);
     guard (GET_BIT e 7 = 0);
     s \<leftarrow> (if e AND PTE_P \<noteq> 0 then walk_page_table fn r (pte_get_base e) (Some (pt_cell pt i)) s else Some s);
     walk_entries fn r pt is s }"

definition walk_user_page_table ::
  "u64 \<Rightarrow> (u64 \<Rightarrow> u64 option \<Rightarrow> cells \<times> 's \<Rightarrow> (cells \<times> 's) option) \<Rightarrow> cells \<times> 's \<Rightarrow> (cells \<times> 's) option" where
  "walk_user_page_table pml4 fn s = walk_page_table fn 3 pml4 None s"

definition free_page_table ::
  "u64 \<Rightarrow> u64 option \<Rightarrow> cells \<times> 'z phys_mem_scheme \<Rightarrow> (cells \<times> 'z phys_mem_scheme) option" where
  "free_page_table pt_base pte s = do {
     z \<leftarrow> drop_page (phys_to_virt pt_base) (snd s);
     Some (case pte of None \<Rightarrow> fst s | Some a \<Rightarrow> (fst s)(a := 0), z) }"

section \<open>Indices of the recursive addresses\<close>

lemma mask_consts:
  "(0x1ff :: u64) = mask 9" "(0xffffffffffff :: u64) = mask 48" "(0xffff000000000000 :: u64) = push_bit 48 (mask 16)"
  "(7 :: u64) = mask 3" "(0x100 :: u64) = push_bit 8 1" "(0xfff :: u64) = mask 12"
  by (simp_all add: mask_eq_exp_minus_1 push_bit_eq_mult)

lemma self_bits:
  "\<forall>i\<in>set is. i < 4 \<Longrightarrow>
   bit (fold (\<lambda>i res. res OR push_bit (39 - 9 * i) (0x100 :: u64)) is r) n \<longleftrightarrow>
     bit r n \<or> (\<exists>i\<in>set is. n = 47 - 9 * i)"
proof (induction "is" arbitrary: r)
  case (Cons i "is")
  have "bit (push_bit (39 - 9 * i) (0x100 :: u64)) n \<longleftrightarrow> n = 47 - 9 * i"
    unfolding mask_consts(5) push_bit_push_bit using Cons.prems by (auto simp: bit_simps)
  then show ?case using Cons by (auto simp: bit_or_iff)
qed simp

lemma addr_bits:
  fixes v :: u64
  assumes "l \<le> 3"
  defines "a \<equiv> drop_bit 12 (v AND mask 48)"
  shows "bit (if l < 3 then drop_bit (9 * (3 - l) - 3) a else push_bit 3 a) n \<and> 3 \<le> n \<longleftrightarrow>
    3 \<le> n \<and> n < 12 + 9 * l \<and> bit v (n + 36 - 9 * l)"
proof (cases "l < 3")
  case True
  then have "bit (drop_bit (9 * (3 - l) - 3) a) n \<longleftrightarrow> n < 12 + 9 * l \<and> bit v (n + 36 - 9 * l)"
    unfolding a_def by (auto simp: bit_simps ac_simps) (auto simp: le_diff_conv algebra_simps)
  then show ?thesis using True by auto
next
  case False
  then have "l = 3" using assms(1) by simp
  then show ?thesis unfolding a_def by (auto simp: bit_simps ac_simps)
qed

lemma get_pte_addr_bits:
  assumes "l \<le> 3"
  shows "bit (get_pte_addr v l) n \<longleftrightarrow> n < 64 \<and>
    (48 \<le> n \<or> (\<exists>i<4 - l. n = 47 - 9 * i) \<or> 3 \<le> n \<and> n < 12 + 9 * l \<and> bit v (n + 36 - 9 * l))"
proof -
  have s: "bit (fold (\<lambda>i res. res OR push_bit (39 - 9 * i) (0x100 :: u64)) [0..<4 - l] 0) n \<longleftrightarrow> (\<exists>i<4 - l. n = 47 - 9 * i)"
    by (subst self_bits) auto
  have "bit (x AND NOT (mask 3)) n \<longleftrightarrow> bit x n \<and> 3 \<le> n" for x :: u64
    by (auto simp: bit_simps dest: bit_imp_le_length)
  moreover have "bit (push_bit 48 (mask 16) :: u64) n \<longleftrightarrow> 48 \<le> n \<and> n < 64" by (auto simp: bit_simps)
  moreover have "n < 64" if "\<exists>i<4 - l. n = 47 - 9 * i" using that by auto
  ultimately show ?thesis
    using addr_bits [OF assms, of v n] s bit_imp_le_length [of v] assms
    unfolding get_pte_addr_def Let_def mask_consts(2-4) by (auto simp: bit_or_iff)
qed

lemma pt_index_alt: "pt_index j v = unat (drop_bit (39 - 9 * j) v AND mask 9)"
  unfolding pt_index_def mask_consts ..

lemma pt_index_less [simp]: "pt_index j v < 512"
proof -
  have "unat (take_bit 9 (drop_bit (39 - 9 * j) v)) < 2 ^ 9" unfolding unsigned_take_bit_eq by (rule take_bit_nat_less_exp)
  then show ?thesis by (simp add: pt_index_alt take_bit_eq_mask [symmetric])
qed

lemma pt_index_eqI:
  assumes "\<And>k. k < 9 \<Longrightarrow> bit v (39 - 9 * j + k) \<longleftrightarrow> bit w (39 - 9 * i + k)"
  shows "pt_index j v = pt_index i w"
proof -
  have "drop_bit (39 - 9 * j) v AND mask 9 = drop_bit (39 - 9 * i) w AND mask 9"
    using assms by (intro bit_word_eqI) (auto simp: bit_simps ac_simps)
  then show ?thesis by (simp add: pt_index_alt)
qed

lemma slot_bit:
  fixes i j k :: nat
  assumes "i < 4" and "j < 4" and "k < 9" and "39 - 9 * j + k = 47 - 9 * i"
  shows "k = 8 \<and> i = j"
proof -
  have "k + 9 * i = 8 + 9 * j" using assms by linarith
  then show ?thesis using assms(3) by presburger
qed

lemma pt_index_self:
  assumes "l \<le> 3" and "j < 4 - l"
  shows "pt_index j (get_pte_addr v l) = 256"
proof -
  have "drop_bit (39 - 9 * j) (get_pte_addr v l) AND mask 9 = push_bit 8 1"
  proof (rule bit_word_eqI)
    fix n assume "n < LENGTH(64)"
    have "(\<exists>i<4 - l. 39 - 9 * j + n = 47 - 9 * i) \<longleftrightarrow> n = 8" if "n < 9"
    proof
      show "n = 8" if "\<exists>i<4 - l. 39 - 9 * j + n = 47 - 9 * i"
      proof -
        from that obtain i where "i < 4 - l" "39 - 9 * j + n = 47 - 9 * i" by blast
        then show ?thesis using assms \<open>n < 9\<close> slot_bit [of i j n] by linarith
      qed
      show "\<exists>i<4 - l. 39 - 9 * j + n = 47 - 9 * i" if "n = 8" using that assms by (intro exI [of _ j]) auto
    qed
    moreover have "\<not> 39 - 9 * j + n < 12 + 9 * l" using assms by auto
    moreover have "39 - 9 * j + n < 48" if "n < 9" using assms that by auto
    moreover define N where "N = 39 - 9 * j + n"
    ultimately have "bit (get_pte_addr v l) N \<longleftrightarrow> n = 8" if "n < 9"
      using get_pte_addr_bits [OF assms(1), of v N] that unfolding N_def [symmetric] by force
    moreover have "bit (push_bit 8 1 :: u64) n \<longleftrightarrow> n = 8"
      unfolding bit_push_bit_iff bit_1_iff using \<open>n < LENGTH(64)\<close> by auto
    ultimately show "bit (drop_bit (39 - 9 * j) (get_pte_addr v l) AND mask 9) n \<longleftrightarrow> bit (push_bit 8 1 :: u64) n"
      unfolding bit_and_iff bit_drop_bit_eq o_def bit_mask_iff N_def by auto
  qed
  then show ?thesis by (simp add: pt_index_alt)
qed

lemma pt_index_shift:
  assumes "l \<le> 3" and "4 - l \<le> j" and "j \<le> 3"
  shows "pt_index j (get_pte_addr v l) = pt_index (j - (4 - l)) v"
proof (rule pt_index_eqI)
  fix k :: nat assume k: "k < 9"
  have "\<not> (\<exists>i<4 - l. 39 - 9 * j + k = 47 - 9 * i)" using assms k slot_bit [of _ j k] by auto
  moreover have "39 - 9 * j + k + 36 - 9 * l = 39 - 9 * (j - (4 - l)) + k" using assms by auto
  ultimately show "bit (get_pte_addr v l) (39 - 9 * j + k) \<longleftrightarrow> bit v (39 - 9 * (j - (4 - l)) + k)"
    using assms k by (subst get_pte_addr_bits [OF assms(1)]) auto
qed

lemma get_pte_addr_offset:
  assumes "l \<le> 3"
  shows "get_pte_addr v l AND 0xfff = 8 * of_nat (pt_index l v)"
proof -
  have "get_pte_addr v l AND mask 12 = push_bit 3 (drop_bit (39 - 9 * l) v AND mask 9)"
  proof (rule bit_word_eqI)
    fix n assume "n < LENGTH(64)"
    have "\<not> (\<exists>i<4 - l. n = 47 - 9 * i)" if "n < 12" using assms that by auto
    moreover have "39 - 9 * l + (n - 3) = n + 36 - 9 * l" if "3 \<le> n" using assms that by auto
    ultimately show "bit (get_pte_addr v l AND mask 12) n \<longleftrightarrow> bit (push_bit 3 (drop_bit (39 - 9 * l) v AND mask 9)) n"
      using get_pte_addr_bits [OF assms, of v n] \<open>n < LENGTH(64)\<close> by (auto simp: bit_simps)
  qed
  then show ?thesis by (simp add: mask_consts(6) pt_index_alt push_bit_eq_mult mult.commute)
qed

section \<open>Tables and paths\<close>

text \<open>The table reached along a list of indices; large pages end the walk.\<close>

fun pt_walk :: "cells \<Rightarrow> u64 \<Rightarrow> nat list \<Rightarrow> u64 option" where
  "pt_walk m t [] = Some t"
| "pt_walk m t (i # is) =
     (let e = m (pt_cell t i) in if present e \<and> \<not> large e then pt_walk m (pte_get_base e) is else None)"

definition pt_path :: "u64 \<Rightarrow> nat list" where
  "pt_path v = map (\<lambda>l. pt_index l v) [0, 1, 2, 3]"

lemma pt_path_nth: "l \<le> 3 \<Longrightarrow> pt_path v ! l = pt_index l v"
  by (auto simp: pt_path_def numeral_eq_Suc le_Suc_eq)

lemma pt_walk_append: "pt_walk m t (is @ js) = pt_walk m t is \<bind> (\<lambda>t. pt_walk m t js)"
  by (induction "is" arbitrary: t) (auto simp: Let_def)

lemma pt_walk_snoc:
  "pt_walk m t (is @ [i]) = Some u \<longleftrightarrow>
     (\<exists>s. pt_walk m t is = Some s \<and> present (m (pt_cell s i)) \<and> \<not> large (m (pt_cell s i)) \<and> u = pte_get_base (m (pt_cell s i)))"
  by (cases "pt_walk m t is") (auto simp: pt_walk_append Let_def split: if_splits)

definition page_aligned :: "u64 \<Rightarrow> bool" where
  "page_aligned t \<longleftrightarrow> t AND 0xfff = 0"

lemma pte_get_base_aligned [simp]: "page_aligned (pte_get_base e)"
  unfolding page_aligned_def pte_get_base_def and.assoc by simp

lemma pt_walk_aligned: "page_aligned t \<Longrightarrow> pt_walk m t is = Some u \<Longrightarrow> page_aligned u"
proof (induction "is" arbitrary: t)
  case (Cons i "is")
  then show ?case using Cons.IH [OF pte_get_base_aligned] by (auto simp: Let_def split: if_splits)
qed simp

lemma page_aligned_dvd: "page_aligned t \<longleftrightarrow> 4096 dvd unat t"
proof -
  have "page_aligned t \<longleftrightarrow> unat (t AND mask 12) = 0" by (simp add: page_aligned_def mask_consts(6) unat_eq_0)
  then show ?thesis by (simp add: unat_and_mask dvd_eq_mod_eq_0)
qed

lemma unat_cell:
  assumes "page_aligned t" and "i < 512"
  shows "unat (pt_cell t i) = unat t + 8 * i"
proof -
  obtain q where q: "unat t = 4096 * q" using assms(1) by (auto simp: page_aligned_dvd)
  then have "unat t + 8 * i < 2 ^ 64" using u64_bound [of t] assms(2) by simp
  moreover have "unat (8 * of_nat i :: u64) = 8 * i" using assms(2) by (simp add: unat_word_ariths unat_of_nat_lt)
  ultimately show ?thesis using unat_add_lt [of t "8 * of_nat i"] by (simp add: pt_cell_def)
qed

lemma cell_inj:
  assumes "page_aligned t" "page_aligned u" "i < 512" "j < 512"
  shows "pt_cell t i = pt_cell u j \<longleftrightarrow> t = u \<and> i = j"
proof
  assume "pt_cell t i = pt_cell u j"
  then have eq: "unat t + 8 * i = unat u + 8 * j" using unat_cell [OF assms(1,3)] unat_cell [OF assms(2,4)] by simp
  obtain q r where "unat t = 4096 * q" "unat u = 4096 * r" using assms(1,2) unfolding page_aligned_dvd by (auto elim!: dvdE)
  moreover from this have "q = r" using eq assms(3,4) by linarith
  ultimately show "t = u \<and> i = j" using eq by (simp add: word_eq_iff_unat)
qed simp

lemma cell_or:
  assumes "page_aligned t" and "i < 512"
  shows "t OR 8 * of_nat i = pt_cell t i"
proof -
  let ?o = "8 * of_nat i :: u64"
  have "unat (?o AND mask 12) = unat ?o" using assms(2) by (simp add: unat_and_mask unat_word_ariths unat_of_nat_lt)
  then have o: "?o AND mask 12 = ?o" by (simp add: word_eq_iff_unat)
  have "t AND mask 12 = 0" using assms(1) by (simp add: page_aligned_def mask_consts(6))
  moreover have "t AND (?o AND mask 12) = ?o AND (t AND mask 12)" by (rule and.left_commute)
  ultimately have "t AND (?o AND mask 12) = 0" by simp
  then have "t AND ?o = 0" unfolding o .
  then show ?thesis by (simp add: pt_cell_def disjunctive_add_eq_or)
qed

text \<open>Clearing a frame clears exactly the cells of that table.\<close>

lemma zero_page_cell:
  assumes "page_aligned t" "page_aligned p" "i < 512"
  shows "zero_page p m (pt_cell t i) = (if t = p then 0 else m (pt_cell t i))"
proof -
  obtain q r where qr: "unat t = 4096 * q" "unat p = 4096 * r" using assms(1,2) unfolding page_aligned_dvd by (auto elim!: dvdE)
  have "unat (pt_cell t i - p) < 4096 \<longleftrightarrow> q = r"
    using u64_bound [of p] assms(3) by (auto simp: unat_sub_if' unat_cell [OF assms(1,3)] qr)
  then have "pt_cell t i - p < 0x1000 \<longleftrightarrow> t = p" using qr by (simp add: word_less_nat_alt word_eq_iff_unat)
  then show ?thesis by (simp add: zero_page_def)
qed

section \<open>Well-formed tables\<close>

text \<open>Paths of at most three indices lead to tables; index 256 at the top is the recursive entry.\<close>

definition table_path :: "nat list \<Rightarrow> bool" where
  "table_path ps \<longleftrightarrow> length ps \<le> 3 \<and> set ps \<subseteq> {..<512} \<and> (ps \<noteq> [] \<longrightarrow> hd ps \<noteq> 256)"

definition tables :: "cells \<Rightarrow> u64 \<Rightarrow> u64 set" where
  "tables m root = {t. \<exists>ps. table_path ps \<and> pt_walk m root ps = Some t}"

text \<open>The recursive entry points to the top-level table, which has no large pages, and every table is
  reached along one path only.\<close>

definition tree_ok :: "cells \<Rightarrow> u64 \<Rightarrow> bool" where
  "tree_ok m root \<longleftrightarrow> page_aligned root \<and> present (m (pt_cell root 256)) \<and> pte_get_base (m (pt_cell root 256)) = root \<and>
     (\<forall>i<512. \<not> large (m (pt_cell root i))) \<and>
     (\<forall>ps qs t. table_path ps \<longrightarrow> table_path qs \<longrightarrow> pt_walk m root ps = Some t \<longrightarrow> pt_walk m root qs = Some t \<longrightarrow> ps = qs)"

lemma tree_okD:
  assumes "tree_ok m root"
  shows "page_aligned root" "present (m (pt_cell root 256))" "pte_get_base (m (pt_cell root 256)) = root"
    "\<not> large (m (pt_cell root 256))" "i < 512 \<Longrightarrow> \<not> large (m (pt_cell root i))"
    "\<lbrakk>table_path ps; table_path qs; pt_walk m root ps = Some t; pt_walk m root qs = Some t\<rbrakk> \<Longrightarrow> ps = qs"
  using assms unfolding tree_ok_def by auto

lemma pt_walk_self: "tree_ok m root \<Longrightarrow> pt_walk m root (256 # ps) = pt_walk m root ps"
  by (simp add: Let_def tree_okD)

lemma mmu_of_walk:
  assumes "pt_walk m root [pt_index 0 v, pt_index 1 v, pt_index 2 v] = Some t"
  shows "mmu m root v = (if present (m (pt_cell t (pt_index 3 v)))
    then Some (pte_get_base (m (pt_cell t (pt_index 3 v))) OR (v AND 0xfff)) else None)"
  using assms by (simp add: mmu_def numeral_3_eq_3 Let_def split: if_splits)

text \<open>The address for level \<open>l\<close> is translated by the entries above it.\<close>

lemma rec_walk:
  fixes v :: u64
  assumes self: "\<And>ps. pt_walk m root (256 # ps) = pt_walk m root ps" and k: "k < 3"
  defines "w \<equiv> get_pte_addr v (Suc k)"
  shows "pt_walk m root [pt_index 0 w, pt_index 1 w, pt_index 2 w] = pt_walk m root (take k (pt_path v))"
proof -
  have ix: "pt_index j w = (if j < 3 - k then 256 else pt_index (j - (3 - k)) v)" if "j \<le> 3" for j
    using pt_index_self [of "Suc k" j v] pt_index_shift [of "Suc k" j v] k that by (simp add: w_def)
  have ix': "pt_index 0 w = (if 0 < 3 - k then 256 else pt_index (0 - (3 - k)) v)"
    "pt_index 1 w = (if 1 < 3 - k then 256 else pt_index (1 - (3 - k)) v)"
    "pt_index 2 w = (if 2 < 3 - k then 256 else pt_index (2 - (3 - k)) v)"
    by (rule ix; simp)+
  have "k = 0 \<or> k = 1 \<or> k = 2" using k by auto
  then show ?thesis unfolding ix' by (elim disjE) (simp_all add: self pt_path_def del: pt_walk.simps(2))
qed

lemma mmu_pte_step:
  assumes ok: "tree_ok m root" and k: "k < 3" and t: "pt_walk m root (take k (pt_path v)) = Some t"
  shows "mmu m root (get_pte_addr v (Suc k)) = (let e = m (pt_cell t (pt_index k v)) in
    if present e then Some (pt_cell (pte_get_base e) (pt_index (Suc k) v)) else None)"
proof -
  let ?w = "get_pte_addr v (Suc k)"
  have w: "pt_walk m root [pt_index 0 ?w, pt_index 1 ?w, pt_index 2 ?w] = Some t"
    using rec_walk [OF pt_walk_self [OF ok] k] t by simp
  have i3: "pt_index 3 ?w = pt_index k v" using pt_index_shift [of "Suc k" 3 v] k by simp
  have "?w AND 0xfff = 8 * of_nat (pt_index (Suc k) v)" using get_pte_addr_offset [of "Suc k" v] k by simp
  then show ?thesis using mmu_of_walk [OF w] i3 by (simp add: Let_def cell_or)
qed

lemma mmu_pte_top:
  assumes "tree_ok m root"
  shows "mmu m root (get_pte_addr v 0) = Some (pt_cell root (pt_index 0 v))"
proof -
  let ?w = "get_pte_addr v 0"
  have "pt_walk m root [pt_index 0 ?w, pt_index 1 ?w, pt_index 2 ?w] = Some root"
    by (simp add: pt_index_self pt_walk_self [OF assms] del: pt_walk.simps(2))
  moreover have "pt_index 3 ?w = 256" by (rule pt_index_self) simp_all
  moreover have "?w AND 0xfff = 8 * of_nat (pt_index 0 v)" by (rule get_pte_addr_offset) simp
  ultimately show ?thesis using mmu_of_walk [of m root ?w root] tree_okD [OF assms] by (simp add: cell_or)
qed

lemma take_path: "k \<le> 3 \<Longrightarrow> take (Suc k) (pt_path v) = take k (pt_path v) @ [pt_index k v]"
  by (auto simp: pt_path_def numeral_eq_Suc le_Suc_eq)

lemma mmu_pte:
  assumes "tree_ok m root" and "l \<le> 3" and "pt_walk m root (take l (pt_path v)) = Some t"
  shows "mmu m root (get_pte_addr v l) = Some (pt_cell t (pt_index l v))"
proof (cases l)
  case (Suc k)
  obtain u where u: "pt_walk m root (take k (pt_path v)) = Some u" "present (m (pt_cell u (pt_index k v)))"
    "t = pte_get_base (m (pt_cell u (pt_index k v)))"
    using assms(2,3) take_path [of k v] by (auto simp: Suc pt_walk_snoc)
  then show ?thesis using mmu_pte_step [OF assms(1) _ u(1)] assms(2) by (simp add: Suc Let_def)
qed (use assms mmu_pte_top in auto)

lemma pt_index_page: "j \<le> 3 \<Longrightarrow> pt_index j (v AND NOT 0xfff) = pt_index j v"
  unfolding mask_consts(6) by (intro pt_index_eqI) (auto simp: bit_simps dest: bit_imp_le_length)

lemma mmu_page:
  assumes "pt_walk m root [pt_index 0 v, pt_index 1 v, pt_index 2 v] = Some u"
  shows "mmu m root (v AND NOT 0xfff) =
    (if present (m (pt_cell u (pt_index 3 v))) then Some (pte_get_base (m (pt_cell u (pt_index 3 v)))) else None)"
proof -
  have e: "pt_index 0 (v AND NOT 0xfff) = pt_index 0 v" "pt_index 1 (v AND NOT 0xfff) = pt_index 1 v"
    "pt_index 2 (v AND NOT 0xfff) = pt_index 2 v" "pt_index 3 (v AND NOT 0xfff) = pt_index 3 v"
    by (rule pt_index_page; simp)+
  have "(v AND NOT 0xfff) AND 0xfff = 0" by (metis and.assoc and_zero_eq bit.conj_cancel_left)
  then show ?thesis using mmu_of_walk [of m root "v AND NOT 0xfff" u] assms unfolding e by simp
qed

section \<open>Changing the tables\<close>

lemma mmu_at:
  assumes "k \<le> 3" and "pt_walk m root (take k (pt_path v)) = Some t"
  shows "mmu m root v = mmu_walk m (3 - k) t v"
  using assms
proof (induction k arbitrary: t)
  case (Suc k)
  obtain u where u: "pt_walk m root (take k (pt_path v)) = Some u" "present (m (pt_cell u (pt_index k v)))"
    "\<not> large (m (pt_cell u (pt_index k v)))" "t = pte_get_base (m (pt_cell u (pt_index k v)))"
    using Suc.prems take_path [of k v] by (auto simp: pt_walk_snoc)
  have "3 - k = Suc (2 - k)" "2 - (2 - k) = k" using Suc.prems(1) by auto
  then show ?case using Suc.IH [OF _ u(1)] Suc.prems(1) u by (simp add: Let_def)
qed (simp add: mmu_def)

lemma mmu_absent:
  assumes "k \<le> 3" and "pt_walk m root (take k (pt_path v)) = Some t" and "\<not> present (m (pt_cell t (pt_index k v)))"
  shows "mmu m root v = None"
proof (cases "k = 3")
  case False
  then have "3 - k = Suc (2 - k)" "2 - (2 - k) = k" using assms(1) by auto
  then show ?thesis using mmu_at [OF assms(1,2)] assms(3) by (simp add: Let_def)
qed (use mmu_at [OF assms(1,2)] assms(3) in \<open>simp add: Let_def\<close>)

lemma mmu_cong:
  assumes "\<And>k t. \<lbrakk>k \<le> 3; pt_walk m root (take k (pt_path v)) = Some t\<rbrakk> \<Longrightarrow>
    m' (pt_cell t (pt_index k v)) = m (pt_cell t (pt_index k v))"
  shows "mmu m' root v = mmu m root v"
proof -
  have "mmu_walk m' r t v = mmu_walk m r t v" if "r \<le> 3" "pt_walk m root (take (3 - r) (pt_path v)) = Some t" for r t
    using that
  proof (induction r arbitrary: t)
    case 0
    then show ?case using assms [of 3 t] by simp
  next
    case (Suc r)
    have k: "3 - Suc r = 2 - r" "3 - r = Suc (2 - r)" using Suc.prems(1) by auto
    let ?e = "m (pt_cell t (pt_index (2 - r) v))"
    have e: "m' (pt_cell t (pt_index (2 - r) v)) = ?e" using assms [of "2 - r" t] Suc.prems(2) k by simp
    have "pt_walk m root (take (3 - r) (pt_path v)) = Some (pte_get_base ?e)" if "present ?e" "\<not> large ?e"
      using that Suc.prems(2) k take_path [of "2 - r" v] by (simp add: pt_walk_snoc)
    then show ?case using Suc.IH [of "pte_get_base ?e"] Suc.prems(1) e by (simp add: Let_def)
  qed
  from this [of 3 root] show ?thesis by (simp add: mmu_def)
qed

definition user_path :: "u64 \<Rightarrow> bool" where
  "user_path v \<longleftrightarrow> pt_index 0 v \<noteq> 256"

lemma table_path_take: "user_path v \<Longrightarrow> k \<le> 3 \<Longrightarrow> table_path (take k (pt_path v))"
  by (auto simp: table_path_def user_path_def pt_path_def take_Cons' split: if_splits)

lemma length_take_path: "k \<le> 3 \<Longrightarrow> length (take k (pt_path v)) = k"
  by (simp add: pt_path_def)

lemma table_path_butlast: "table_path (qs @ [j]) \<Longrightarrow> table_path qs \<and> j < 512 \<and> length qs \<le> 2"
  by (cases qs) (auto simp: table_path_def)

lemma in_tables: "\<lbrakk>table_path ps; pt_walk m root ps = Some t\<rbrakk> \<Longrightarrow> t \<in> tables m root"
  by (auto simp: tables_def)

lemma tables_aligned: "\<lbrakk>tree_ok m root; t \<in> tables m root\<rbrakk> \<Longrightarrow> page_aligned t"
  unfolding tables_def using pt_walk_aligned [OF tree_okD(1)] by blast

text \<open>An entry is found at one place only.\<close>

lemma cell_unique:
  assumes "tree_ok m root" and "table_path ps" "table_path qs" and "pt_walk m root ps = Some t" "pt_walk m root qs = Some u"
    and "i < 512" "j < 512" and "pt_cell t i = pt_cell u j"
  shows "ps = qs \<and> i = j"
proof -
  have "page_aligned t" "page_aligned u" using assms(1,4,5) pt_walk_aligned tree_okD(1) by blast+
  then have "t = u \<and> i = j" using cell_inj assms(6-8) by blast
  then show ?thesis using tree_okD(6) [OF assms(1-3)] assms(4,5) by blast
qed

text \<open>Walks that do not pass through an entry do not see that it is written.\<close>

lemma write_walk:
  assumes ok: "tree_ok m root" and ps: "table_path ps" "pt_walk m root ps = Some t" and i: "i < 512"
    and "table_path qs" and "\<not> prefix (ps @ [i]) qs"
  shows "pt_walk (m(pt_cell t i := e)) root qs = pt_walk m root qs"
  using assms(5,6)
proof (induction qs rule: rev_induct)
  case (snoc j qs)
  have q: "table_path qs" "j < 512" using table_path_butlast [OF snoc.prems(1)] by auto
  have np: "\<not> prefix (ps @ [i]) qs" "qs @ [j] \<noteq> ps @ [i]" using snoc.prems(2) by auto
  show ?case
  proof (cases "pt_walk m root qs")
    case (Some u)
    have "pt_cell u j \<noteq> pt_cell t i" using cell_unique [OF ok q(1) ps(1) Some ps(2) q(2) i] np(2) by auto
    then show ?thesis using snoc.IH [OF q(1) np(1)] Some by (simp add: pt_walk_append Let_def)
  qed (use snoc.IH [OF q(1) np(1)] in \<open>simp add: pt_walk_append\<close>)
qed simp

text \<open>A missing entry of a table is filled with a fresh, cleared table.\<close>

lemma new_table_cells:
  fixes e :: u64
  assumes ok: "tree_ok m root" and t: "t \<in> tables m root" and i: "i < 512"
    and g: "page_aligned g" "g \<notin> tables m root"
  defines "m' \<equiv> zero_page g (m(pt_cell t i := e))"
  shows "u \<in> tables m root \<Longrightarrow> j < 512 \<Longrightarrow> m' (pt_cell u j) = (if u = t \<and> j = i then e else m (pt_cell u j))"
    and "j < 512 \<Longrightarrow> m' (pt_cell g j) = 0"
proof -
  show "m' (pt_cell u j) = (if u = t \<and> j = i then e else m (pt_cell u j))" if "u \<in> tables m root" "j < 512"
  proof -
    have "u \<noteq> g" "page_aligned u" "page_aligned t" using that g(2) t tables_aligned [OF ok] by auto
    then show ?thesis using that(2) i g(1) cell_inj by (simp add: m'_def zero_page_cell)
  qed
  show "m' (pt_cell g j) = 0" if "j < 512" using that g(1) by (simp add: m'_def zero_page_cell)
qed

lemma new_table_walk:
  assumes ok: "tree_ok m root" and ps: "table_path ps" "length ps \<le> 2" "pt_walk m root ps = Some t"
    and i: "i < 512" "\<not> present (m (pt_cell t i))" and g: "page_aligned g" "g \<notin> tables m root"
    and e: "present e" "\<not> large e" "pte_get_base e = g"
  defines "m' \<equiv> zero_page g (m(pt_cell t i := e))"
  assumes "table_path qs"
  shows "pt_walk m' root qs = (if qs = ps @ [i] then Some g else if prefix (ps @ [i]) qs then None else pt_walk m root qs)"
  using assms(13)
proof (induction qs rule: rev_induct)
  case (snoc j qs)
  note cells = new_table_cells [OF ok in_tables [OF ps(1,3)] i(1) g, where e = e, folded m'_def]
  have q: "table_path qs" "j < 512" using table_path_butlast [OF snoc.prems] by auto
  have step: "pt_walk m' root (qs @ [j]) = (case pt_walk m' root qs of None \<Rightarrow> None
      | Some u \<Rightarrow> (let c = m' (pt_cell u j) in if present c \<and> \<not> large c then Some (pte_get_base c) else None))"
    by (auto simp: pt_walk_append Let_def split: option.splits)
  have step': "pt_walk m root (qs @ [j]) = (case pt_walk m root qs of None \<Rightarrow> None
      | Some u \<Rightarrow> (let c = m (pt_cell u j) in if present c \<and> \<not> large c then Some (pte_get_base c) else None))"
    by (auto simp: pt_walk_append Let_def split: option.splits)
  consider (here) "qs = ps @ [i]" | (below) "qs \<noteq> ps @ [i]" "prefix (ps @ [i]) qs" | (other) "\<not> prefix (ps @ [i]) qs" by blast
  then show ?case
  proof cases
    case here
    then show ?thesis using step snoc.IH [OF q(1)] cells(2) [OF q(2)] by (simp add: present_def)
  next
    case below
    then show ?thesis using step snoc.IH [OF q(1)] by auto
  next
    case other
    then have eq: "pt_walk m' root qs = pt_walk m root qs" using snoc.IH [OF q(1)] by auto
    show ?thesis
    proof (cases "pt_walk m root qs")
      case None
      then show ?thesis using eq step step' ps(3) other by auto
    next
      case (Some u)
      have c: "m' (pt_cell u j) = (if u = t \<and> j = i then e else m (pt_cell u j))"
        by (rule cells(1) [OF in_tables [OF q(1) Some] q(2)])
      have "u = t \<longleftrightarrow> qs = ps" using tree_okD(6) [OF ok q(1) ps(1)] Some ps(3) by auto
      then show ?thesis using eq step step' Some c e other by (auto simp: Let_def)
    qed
  qed
qed (auto simp: zero_page_def)

text \<open>What a new table keeps: the tree stays well formed and no translation changes.\<close>

lemma new_table_ok:
  assumes ok: "tree_ok m root" and v: "user_path v" "k < 3" and t: "pt_walk m root (take k (pt_path v)) = Some t"
    and abs: "\<not> present (m (pt_cell t (pt_index k v)))" and g: "page_aligned g" "g \<notin> tables m root"
    and e: "present e" "\<not> large e" "pte_get_base e = g"
  defines "m' \<equiv> zero_page g (m(pt_cell t (pt_index k v) := e))"
  shows "tree_ok m' root" and "tables m' root \<subseteq> insert g (tables m root)" and "pt_walk m' root (take (Suc k) (pt_path v)) = Some g"
    and "user_path w \<Longrightarrow> mmu m' root w = mmu m root w"
proof -
  let ?ps = "take k (pt_path v)" and ?i = "pt_index k v"
  have ps: "table_path ?ps" "length ?ps \<le> 2" using table_path_take [OF v(1)] v(2) by (auto simp: pt_path_def)
  note cells = new_table_cells [OF ok in_tables [OF ps(1) t] pt_index_less [of k v] g, where e = e, folded m'_def]
  note walk = new_table_walk [OF ok ps t pt_index_less [of k v] abs g e, folded m'_def]
  have path: "take (Suc k) (pt_path v) = ?ps @ [?i]" using take_path v(2) by simp
  show g': "pt_walk m' root (take (Suc k) (pt_path v)) = Some g"
    using walk [of "take (Suc k) (pt_path v)"] path table_path_take [OF v(1), of "Suc k"] v(2) by simp
  show tab: "tables m' root \<subseteq> insert g (tables m root)"
    using walk by (auto simp: tables_def split: if_splits)
  have root: "root \<in> tables m root" using in_tables [of "[]"] by (simp add: table_path_def)
  have rcell: "m' (pt_cell root j) = (if root = t \<and> j = ?i then e else m (pt_cell root j))" if "j < 512" for j
    by (rule cells(1) [OF root that])
  have self: "\<not> (root = t \<and> (256::nat) = ?i)" using tree_okD(2) [OF ok] abs by auto
  have inj: "ps = qs" if "table_path ps" "table_path qs" "pt_walk m' root ps = Some u" "pt_walk m' root qs = Some u" for ps qs u
  proof -
    have "pt_walk m root qs = Some u" if "table_path qs" "pt_walk m' root qs = Some u" "u \<noteq> g" for qs
      using walk [OF that(1)] that(2,3) by (auto split: if_splits)
    moreover have "qs = ?ps @ [?i]" if "table_path qs" "pt_walk m' root qs = Some g" for qs
      using walk [OF that(1)] that g(2) in_tables [of qs m root g] by (auto split: if_splits)
    ultimately show ?thesis using that tree_okD(6) [OF ok that(1,2), of u] by metis
  qed
  show "tree_ok m' root"
    unfolding tree_ok_def using tree_okD(1-5) [OF ok] rcell self e(2) inj by auto
  show "mmu m' root w = mmu m root w" if w: "user_path w"
  proof (cases "take (Suc k) (pt_path w) = ?ps @ [?i]")
    case True
    then have eq: "take k (pt_path w) = ?ps" "pt_index k w = ?i" using take_path [of k w] v(2) by auto
    have "mmu m root w = None" by (rule mmu_absent [of k]) (use eq t abs v(2) in auto)
    moreover have "mmu m' root w = None"
      by (rule mmu_absent [of "Suc k"]) (use True g' path v(2) cells(2) in \<open>auto simp: present_def\<close>)
    ultimately show ?thesis by simp
  next
    case False
    show ?thesis
    proof (rule mmu_cong)
      fix k' u assume k': "k' \<le> 3" and u: "pt_walk m root (take k' (pt_path w)) = Some u"
      have "\<not> (u = t \<and> pt_index k' w = ?i)"
      proof
        assume eq: "u = t \<and> pt_index k' w = ?i"
        then have "take k' (pt_path w) = ?ps" using tree_okD(6) [OF ok table_path_take [OF w k'] ps(1)] u t by blast
        then have "k' = k" using k' v(2) arg_cong [of _ _ length] length_take_path by (metis less_imp_le)
        then show False using False eq take_path [of k w] v(2) \<open>take k' (pt_path w) = ?ps\<close> by auto
      qed
      then show "m' (pt_cell u (pt_index k' w)) = m (pt_cell u (pt_index k' w))"
        using cells(1) [OF in_tables [OF table_path_take [OF w k'] u] pt_index_less, of k' w] by auto
    qed
  qed
qed

text \<open>Writing an entry of a last-level table changes the translation of its page only.\<close>

lemma leaf_ok:
  fixes e :: u64
  assumes ok: "tree_ok m root" and v: "user_path v" and t: "pt_walk m root (take 3 (pt_path v)) = Some t"
  defines "m' \<equiv> m(pt_cell t (pt_index 3 v) := e)"
  shows "tree_ok m' root" and "tables m' root = tables m root"
    and "mmu m' root v = (if present e then Some (pte_get_base e OR (v AND 0xfff)) else None)"
    and "user_path w \<Longrightarrow> pt_path w \<noteq> pt_path v \<Longrightarrow> mmu m' root w = mmu m root w"
proof -
  let ?ps = "take 3 (pt_path v)"
  have ps: "table_path ?ps" "length ?ps = 3" using table_path_take [OF v] length_take_path by auto
  have cell: "m' (pt_cell u j) = m (pt_cell u j)" if "table_path qs" "pt_walk m root qs = Some u" "j < 512" "qs @ [j] \<noteq> ?ps @ [pt_index 3 v]" for qs u j
    using cell_unique [OF ok that(1) ps(1) that(2) t that(3) pt_index_less] that(4) by (auto simp: m'_def)
  have walk: "pt_walk m' root qs = pt_walk m root qs" if "table_path qs" for qs
    unfolding m'_def using ps(2) that prefix_length_le [of "?ps @ [pt_index 3 v]" qs]
    by (intro write_walk [OF ok ps(1) t]) (auto simp: table_path_def)
  have rcell: "m' (pt_cell root j) = m (pt_cell root j)" if "j < 512" for j
    using cell [of "[]" root j] that ps(2) by (cases ?ps) (auto simp: table_path_def)
  show "tables m' root = tables m root" using walk by (auto simp: tables_def)
  show "tree_ok m' root"
    unfolding tree_ok_def using tree_okD [OF ok] rcell walk by auto
  show "mmu m' root v = (if present e then Some (pte_get_base e OR (v AND 0xfff)) else None)"
    using mmu_at [of 3 m' root v t] walk [OF ps(1)] t by (simp add: Let_def m'_def)
  show "mmu m' root w = mmu m root w" if w: "user_path w" "pt_path w \<noteq> pt_path v"
  proof (rule mmu_cong)
    fix k u assume k: "k \<le> 3" and u: "pt_walk m root (take k (pt_path w)) = Some u"
    have full: "take (Suc 3) (pt_path x) = pt_path x" for x by (simp add: pt_path_def)
    have "take k (pt_path w) @ [pt_index k w] \<noteq> ?ps @ [pt_index 3 v]"
    proof
      assume eq: "take k (pt_path w) @ [pt_index k w] = ?ps @ [pt_index 3 v]"
      then have "k = 3" using length_take_path [OF k, of w] ps(2) by simp
      then show False using eq w(2) take_path [of 3 w] take_path [of 3 v] full by simp
    qed
    then show "m' (pt_cell u (pt_index k w)) = m (pt_cell u (pt_index k w))"
      using cell [OF table_path_take [OF w(1) k] u pt_index_less] by blast
  qed
qed

text \<open>As soon as the entry is written, the recursive address of the next level is the new table.\<close>

lemma mmu_new_table:
  assumes ok: "tree_ok m root" and v: "user_path v" "k < 3" and t: "pt_walk m root (take k (pt_path v)) = Some t"
    and abs: "\<not> present (m (pt_cell t (pt_index k v)))" and e: "present e"
  defines "m' \<equiv> m(pt_cell t (pt_index k v) := e)"
  shows "mmu m' root (get_pte_addr v (Suc k) AND NOT 0xfff) = Some (pte_get_base e)"
proof -
  let ?ps = "take k (pt_path v)" and ?w = "get_pte_addr v (Suc k)"
  have ps: "table_path ?ps" using table_path_take [OF v(1)] v(2) by simp
  have "pt_cell t (pt_index k v) \<noteq> pt_cell root 256" using abs tree_okD(2) [OF ok] by auto
  then have self: "pt_walk m' root (256 # qs) = pt_walk m' root qs" for qs
    using tree_okD [OF ok] by (simp add: m'_def Let_def)
  have "pt_walk m' root ?ps = Some t"
    unfolding m'_def using write_walk [OF ok ps t pt_index_less ps, of k v e] t by simp
  then have "pt_walk m' root [pt_index 0 ?w, pt_index 1 ?w, pt_index 2 ?w] = Some t" using rec_walk [OF self v(2)] by simp
  moreover have "pt_index 3 ?w = pt_index k v" using pt_index_shift [of "Suc k" 3 v] v(2) by simp
  ultimately show ?thesis using mmu_page [of m' root ?w t] e by (simp add: m'_def)
qed

section \<open>Entries\<close>

lemma bit_pte_get_base: "bit (pte_get_base e) n \<longleftrightarrow> bit e n \<and> 12 \<le> n \<and> n < 52"
proof -
  have c: "(0xffffffffff000 :: u64) = push_bit 12 (mask 40)" by (simp add: mask_eq_exp_minus_1 push_bit_eq_mult)
  show ?thesis unfolding pte_get_base_def c bit_and_iff bit_push_bit_iff bit_mask_iff
    by (auto dest: bit_imp_le_length)
qed

lemma present_bit: "present e \<longleftrightarrow> bit e 0"
  by (simp add: present_def PTE_P_def BIT_def bit_iff_odd and_one_eq odd_iff_mod_2_eq_one)

lemma large_bit: "large e \<longleftrightarrow> bit e 7"
  using bit_and_iff [of e "push_bit 7 1"] unfolding large_def BIT_def
  by (metis and_exp_eq_0_iff_not_bit push_bit_of_1)

lemma bit_entry:
  "bit (pte_set_flags (pte_set_base 0 a 0) f) n \<longleftrightarrow> bit a n \<and> 12 \<le> n \<or> bit f n \<and> n < 12"
  unfolding pte_set_flags_def pte_set_base_def Let_def mask_consts
  by (auto simp: bit_simps dest: bit_imp_le_length)

lemma entry_props:
  fixes a f :: u64
  assumes "x \<in> {PTE_P, PTE_P OR PTE_W}"
  defines "e \<equiv> pte_set_flags (pte_set_base 0 a 0) f OR x"
  shows "present e" and "pte_get_base e = pte_get_base a" and "large e \<longleftrightarrow> bit f 7"
proof -
  have x: "bit x 0" "\<not> bit x n" if "2 \<le> n" for n
    using assms(1) that unfolding PTE_P_def PTE_W_def BIT_def
    by (auto simp only: insert_iff empty_iff bit_or_iff bit_push_bit_iff bit_1_iff possible_bit_word diff_zero)
  show "present e" using x(1) [of 2] by (simp add: present_bit e_def bit_or_iff)
  show "large e \<longleftrightarrow> bit f 7" using x by (simp add: large_bit e_def bit_or_iff bit_entry)
  show "pte_get_base e = pte_get_base a"
    using x by (intro bit_word_eqI) (auto simp: bit_pte_get_base e_def bit_or_iff bit_entry)
qed

section \<open>Mapping and unmapping\<close>

text \<open>The frame of a new table must be representable in an entry.\<close>

definition frame :: "u64 \<Rightarrow> bool" where
  "frame p \<longleftrightarrow> pte_get_base p = p"

lemma frame_aligned: "frame p \<Longrightarrow> page_aligned p"
  using pte_get_base_aligned [of p] by (simp add: frame_def)

lemma not_large_above:
  assumes ok: "tree_ok m root" and "mmu m root v = None" and k: "k < 3" "pt_walk m root (take k (pt_path v)) = Some t"
    and "present (m (pt_cell t (pt_index k v)))"
  shows "\<not> large (m (pt_cell t (pt_index k v)))"
proof (cases "k = 0")
  case True
  then show ?thesis using k(2) tree_okD(5) [OF ok pt_index_less] by auto
next
  case False
  then have "3 - k = Suc (2 - k)" "2 - (2 - k) = k" "\<not> 2 - k \<ge> 2" using k(1) by auto
  then show ?thesis using mmu_at [of k m root v t] assms(2,5) k by (auto simp: Let_def split: if_splits)
qed

context page_source begin

lemma levels_create:
  assumes "tree_ok m root" and v: "user_path v" and "mmu m root v = None" and "inv z" and "3 - k \<le> length (pages z)"
    and "set (pages z) \<inter> tables m root = {}" and fr: "\<And>p. p \<in> set (pages z) \<Longrightarrow> frame p" and fl: "\<not> bit flags 7"
    and "k \<le> 3" and "pt_walk m root (take k (pt_path v)) = Some t"
  shows "\<exists>m' z' t'. pte_levels v flags gp True root [k..<3] (m, z) = Some (True, m', z') \<and> tree_ok m' root \<and>
    pt_walk m' root (take 3 (pt_path v)) = Some t' \<and> (\<forall>w. user_path w \<longrightarrow> mmu m' root w = mmu m root w) \<and>
    inv z' \<and> set (pages z') \<inter> tables m' root = {} \<and> set (pages z') \<subseteq> set (pages z)"
  using assms
proof (induction "3 - k" arbitrary: k m z t)
  case 0
  then have "k = 3" by simp
  then show ?case using 0 by auto
next
  case (Suc n)
  have k: "k < 3" "n = 3 - Suc k" "Suc k \<le> 3" "[k..<3] = k # [Suc k..<3]" using Suc.hyps(2) by (auto simp: upt_rec)
  note ok = Suc.prems(1) and t = Suc.prems(10)
  let ?c = "pt_cell t (pt_index k v)"
  have pte: "mmu m root (get_pte_addr v k) = Some ?c" using mmu_pte [OF ok _ t] k by simp
  show ?case
  proof (cases "present (m ?c)")
    case True
    then have nl: "\<not> large (m ?c)" using not_large_above [OF ok Suc.prems(3) k(1) t] by simp
    then have t': "pt_walk m root (take (Suc k) (pt_path v)) = Some (pte_get_base (m ?c))"
      using True t take_path [of k v] k(1) by (simp add: pt_walk_snoc)
    show ?thesis
      using Suc.hyps(1) [OF k(2) ok v Suc.prems(3,4) _ Suc.prems(6) Suc.prems(7) fl k(3) t'] Suc.prems(5) True nl pte
      by (simp add: k(4))
  next
    case False
    obtain p ps where p: "pages z = p # ps" using Suc.prems(5) k(1) by (cases "pages z") auto
    obtain z1 where z1: "gp z = Some (p, z1)" "pages z1 = ps" "inv z1" using gp_takes [OF Suc.prems(4) p] by blast
    have d: "p \<notin> set ps" using pages_distinct [OF Suc.prems(4)] p by simp
    define e where "e = pte_set_flags (pte_set_base 0 p 0) flags OR (PTE_P OR PTE_W)"
    define m1 where "m1 = zero_page p (m(?c := e))"
    have fp: "frame p" "page_aligned p" "p \<notin> tables m root" using Suc.prems(6,7) p frame_aligned by auto
    have e: "present e" "\<not> large e" "pte_get_base e = p"
      using entry_props [of "PTE_P OR PTE_W" p flags] fl fp(1) unfolding e_def frame_def by auto
    note new = new_table_ok [OF ok v k(1) t False fp(2,3) e, folded m1_def]
    have pg: "mmu (m(?c := e)) root (get_pte_addr v (k + 1) AND NOT 0xfff) = Some p"
      using mmu_new_table [OF ok v k(1) t False e(1)] e(3) by simp
    obtain m' z' t' where r: "pte_levels v flags gp True root [Suc k..<3] (m1, z1) = Some (True, m', z')" "tree_ok m' root"
      "pt_walk m' root (take 3 (pt_path v)) = Some t'" "\<forall>w. user_path w \<longrightarrow> mmu m' root w = mmu m1 root w"
      "inv z'" "set (pages z') \<inter> tables m' root = {}" "set (pages z') \<subseteq> set (pages z1)"
    proof -
      have "3 - Suc k \<le> length (pages z1)" "mmu m1 root v = None" using Suc.prems(3,5) z1(2) p new(4) [OF v] by auto
      moreover have "set (pages z1) \<inter> tables m1 root = {}" "\<And>q. q \<in> set (pages z1) \<Longrightarrow> frame q"
        using new(2) Suc.prems(6,7) z1(2) p d by auto
      ultimately show ?thesis using Suc.hyps(1) [OF k(2) new(1) v _ z1(3) _ _ _ fl k(3) new(3)] that by blast
    qed
    moreover have "pte_levels v flags gp True root [k..<3] (m, z) = pte_levels v flags gp True root [Suc k..<3] (m1, z1)"
      using False pte z1(1) pg by (simp add: k(4) e_def [symmetric] m1_def [symmetric] Let_def)
    moreover have "mmu m' root w = mmu m root w" if "user_path w" for w using r(4) new(4) [OF that] that by simp
    moreover have "set (pages z') \<subseteq> set (pages z)" using r(7) z1(2) p by auto
    ultimately show ?thesis by (intro exI [of _ m'] exI [of _ z'] exI [of _ t']) simp
  qed
qed

lemma map_page_ok:
  assumes ok: "tree_ok m root" and v: "user_path v" and free: "mmu m root v = None" and z: "inv z" "3 \<le> length (pages z)"
    and dis: "set (pages z) \<inter> tables m root = {}" and fr: "\<And>p. p \<in> set (pages z) \<Longrightarrow> frame p" and fl: "\<not> bit flags 7"
  shows "\<exists>m' z'. map_page_with addr v 0 flags gp root (m, z) = Some (m', z') \<and> tree_ok m' root \<and>
    mmu m' root v = Some (pte_get_base addr OR (v AND 0xfff)) \<and>
    (\<forall>w. user_path w \<longrightarrow> pt_path w \<noteq> pt_path v \<longrightarrow> mmu m' root w = mmu m root w) \<and>
    inv z' \<and> set (pages z') \<inter> tables m' root = {}"
proof -
  obtain m1 z1 t where r: "pte_levels v flags gp True root [0..<3] (m, z) = Some (True, m1, z1)" "tree_ok m1 root"
    "pt_walk m1 root (take 3 (pt_path v)) = Some t" "\<forall>w. user_path w \<longrightarrow> mmu m1 root w = mmu m root w"
    "inv z1" "set (pages z1) \<inter> tables m1 root = {}"
    using levels_create [of m root v z 0 flags root] ok v free z dis fr fl by auto
  let ?c = "pt_cell t (pt_index 3 v)"
  define e where "e = pte_set_flags (pte_set_base 0 addr 0) flags OR PTE_P"
  have pa: "mmu m1 root (get_pte_addr v 3) = Some ?c" by (rule mmu_pte [OF r(2) _ r(3)]) simp
  have "\<not> present (m1 ?c)"
    using mmu_at [of 3 m1 root v t] r(3,4) free v by (auto simp: Let_def split: if_splits)
  then have "map_page_with addr v 0 flags gp root (m, z) = Some (m1(?c := e), z1)"
    using r(1) pa by (simp add: map_page_with_def get_pte_addr_checked_def e_def Let_def)
  moreover note leaf_ok [OF r(2) v r(3), where e = e]
  moreover have "present e" "pte_get_base e = pte_get_base addr" using entry_props [of PTE_P addr flags] by (auto simp: e_def)
  ultimately show ?thesis using r(4-6) by (intro exI [of _ "m1(?c := e)"] exI [of _ z1]) auto
qed

end

interpretation phys_frames: page_source get_phys_page "\<lambda>s. map (\<lambda>p. p - KERN_VMBASE) (free_pages s)" phys_inv
proof unfold_locales
  show "\<exists>s'. get_phys_page s = Some (p, s') \<and> map (\<lambda>p. p - KERN_VMBASE) (free_pages s') = ps \<and> phys_inv s'"
    if h: "phys_inv s" "map (\<lambda>p. p - KERN_VMBASE) (free_pages s) = p # ps" for s :: "'z phys_mem_scheme" and p ps
  proof -
    obtain q qs where q: "free_pages s = q # qs" "p = q - KERN_VMBASE" "ps = map (\<lambda>p. p - KERN_VMBASE) qs"
      using h(2) by (cases "free_pages s") auto
    then show ?thesis using get_phys_page_spec [OF h(1) q(1)] by metis
  qed
  show "4096 dvd unat p" if h: "phys_inv s" "p \<in> set (map (\<lambda>p. p - KERN_VMBASE) (free_pages s))" for s :: "'z phys_mem_scheme" and p
  proof -
    obtain q where "q \<in> set (free_pages s)" "p = q - KERN_VMBASE" using h(2) by auto
    then show ?thesis using free_pages_aligned [OF h(1)]
      by (auto simp: IS_ALIGNED_page unat_sub_if' KERN_VMBASE_def intro!: dvd_diff_nat)
  qed
  show "distinct (map (\<lambda>p. p - KERN_VMBASE) (free_pages s))" if "phys_inv s" for s :: "'z phys_mem_scheme"
    using that by (simp add: phys_inv_def distinct_map inj_on_def)
qed

section \<open>Properties\<close>

text \<open>C12. Mapping a 4 KiB page at an address without translation succeeds when three frames are free
  for tables: the address and the rest of its page translate to the given physical page, every
  address of every other page (outside the recursive region) translates as before, the tables stay
  well formed and no free frame is used as a table. The four indices \<open>pt_path\<close> of an address are its
  bits 12 to 47.\<close>

theorem map_page_correct:
  fixes z :: "'z phys_mem_scheme"
  assumes "tree_ok m root" and "user_path v" and "mmu m root v = None" and "phys_inv z" and "3 \<le> length (free_pages z)"
    and "\<forall>p\<in>set (free_pages z). frame (p - KERN_VMBASE) \<and> p - KERN_VMBASE \<notin> tables m root" and "\<not> bit flags 7"
  shows "\<exists>m' z'. map_page addr v 0 flags root (m, z) = Some (m', z') \<and> tree_ok m' root \<and>
    mmu m' root v = Some (pte_get_base addr OR (v AND 0xfff)) \<and>
    (\<forall>w. user_path w \<longrightarrow> pt_path w \<noteq> pt_path v \<longrightarrow> mmu m' root w = mmu m root w) \<and>
    phys_inv z' \<and> (\<forall>p\<in>set (free_pages z'). p - KERN_VMBASE \<notin> tables m' root)"
proof -
  have "\<exists>m' z'. map_page_with addr v 0 flags get_phys_page root (m, z) = Some (m', z') \<and> tree_ok m' root \<and>
    mmu m' root v = Some (pte_get_base addr OR (v AND 0xfff)) \<and>
    (\<forall>w. user_path w \<longrightarrow> pt_path w \<noteq> pt_path v \<longrightarrow> mmu m' root w = mmu m root w) \<and>
    phys_inv z' \<and> set (map (\<lambda>p. p - KERN_VMBASE) (free_pages z')) \<inter> tables m' root = {}"
    using assms by (intro phys_frames.map_page_ok) auto
  then show ?thesis unfolding map_page_def set_map by blast
qed

text \<open>C13. The recursive address of an entry leads to it: when the tables above exist, reading at
  \<^verbatim>\<open>get_pte_addr(v, l)\<close> reads the entry of \<open>v\<close> in its table of level \<open>l\<close>, and for the last level this is
  the entry \<^verbatim>\<open>ptable_get_entry_4k\<close> finds by walking the tables.\<close>

theorem get_pte_addr_correct:
  assumes "tree_ok m root" and "l \<le> 3" and "pt_walk m root (take l (pt_path v)) = Some t"
  shows "mmu m root (get_pte_addr v l) = Some (pt_cell t (pt_index l v)) \<and>
    (l = 3 \<longrightarrow> \<not> bit v 63 \<longrightarrow> ptable_get_entry_4k root v m = Some (mmu m root (get_pte_addr v l)))"
proof -
  have l: "mmu m root (get_pte_addr v l) = Some (pt_cell t (pt_index l v))" by (rule mmu_pte [OF assms])
  have odd: "e AND 1 = 0 \<longleftrightarrow> \<not> present e" for e by (simp add: present_def PTE_P_def BIT_def)
  have "ptable_levels m v [0, 1, 2] root = Some t" if "l = 3"
    using assms(3) that by (auto simp: pt_path_def pt_index_def Let_def odd split: if_splits)
  moreover have "GET_BIT v 63 = 0 \<longleftrightarrow> \<not> bit v 63"
    unfolding GET_BIT_def BIT_conv and_exp_eq_0_iff_not_bit ..
  ultimately show ?thesis using l by (auto simp: ptable_get_entry_4k_def pt_index_def simp del: ptable_levels.simps)
qed

text \<open>The addresses whose walk meets no large page.\<close>

definition small_path :: "cells \<Rightarrow> u64 \<Rightarrow> u64 \<Rightarrow> bool" where
  "small_path m root v \<longleftrightarrow> (\<forall>k<3. case pt_walk m root (take k (pt_path v)) of
     None \<Rightarrow> True | Some t \<Rightarrow> \<not> large (m (pt_cell t (pt_index k v))))"

lemma levels_find:
  assumes ok: "tree_ok m root" and s: "small_path m root v" and "k \<le> 3" and "pt_walk m root (take k (pt_path v)) = Some t"
  shows "pte_levels v flags gpp False root [k..<3] (m, z) = Some (pt_walk m root (take 3 (pt_path v)) \<noteq> None, m, z) \<and>
    (pt_walk m root (take 3 (pt_path v)) = None \<longrightarrow> mmu m root v = None)"
  using assms(3,4)
proof (induction "3 - k" arbitrary: k t)
  case (Suc n)
  have k: "k < 3" "n = 3 - Suc k" "Suc k \<le> 3" "[k..<3] = k # [Suc k..<3]" using Suc.hyps(2) by (auto simp: upt_rec)
  let ?c = "pt_cell t (pt_index k v)"
  have pte: "mmu m root (get_pte_addr v k) = Some ?c" using mmu_pte [OF ok _ Suc.prems(2)] k by simp
  have nl: "\<not> large (m ?c)" using s k(1) Suc.prems(2) unfolding small_path_def by (metis option.simps(5))
  show ?case
  proof (cases "present (m ?c)")
    case True
    then have "pt_walk m root (take (Suc k) (pt_path v)) = Some (pte_get_base (m ?c))"
      using nl Suc.prems(2) take_path [of k v] k(1) by (simp add: pt_walk_snoc)
    from Suc.hyps(1) [OF k(2,3) this] show ?thesis using True nl pte by (simp add: k(4))
  next
    case False
    have "take 3 (pt_path v) = take k (pt_path v) @ pt_index k v # drop (Suc k) (take 3 (pt_path v))"
      using k(1) id_take_nth_drop [of k "take 3 (pt_path v)"] length_take_path [of 3 v]
      by (simp add: pt_path_nth min_def)
    then have "pt_walk m root (take 3 (pt_path v)) = None"
      using False Suc.prems(2) pt_walk_append [of m root "take k (pt_path v)" "pt_index k v # drop (Suc k) (take 3 (pt_path v))"]
      by (simp add: Let_def)
    then show ?thesis using False pte mmu_absent [OF _ Suc.prems(2)] k by simp
  qed
next
  case 0
  then have "k = 3" by simp
  then show ?case using 0 by simp
qed

text \<open>Unmapping an address whose walk meets no large page succeeds: the address has no translation
  afterwards and every address of another page (outside the recursive region) translates as
  before.\<close>

theorem unmap_correct:
  assumes ok: "tree_ok m root" and v: "user_path v" and "small_path m root v"
  shows "\<exists>m'. unmap v root m = Some m' \<and> tree_ok m' root \<and> mmu m' root v = None \<and>
    (\<forall>w. user_path w \<longrightarrow> pt_path w \<noteq> pt_path v \<longrightarrow> mmu m' root w = mmu m root w)"
proof -
  note find = levels_find [OF ok assms(3), where k = 0 and t = root and flags = 0 and gpp = "\<lambda>_ :: unit. None" and z = "()"]
  show ?thesis
  proof (cases "pt_walk m root (take 3 (pt_path v))")
    case None
    then have "unmap v root m = Some m" using find by (simp add: unmap_def get_pte_addr_checked_def)
    then show ?thesis using find None ok by auto
  next
    case (Some t)
    have pa: "mmu m root (get_pte_addr v 3) = Some (pt_cell t (pt_index 3 v))" by (rule mmu_pte [OF ok _ Some]) simp
    then have "unmap v root m = Some (m(pt_cell t (pt_index 3 v) := 0))"
      using find Some by (simp add: unmap_def get_pte_addr_checked_def)
    then show ?thesis using leaf_ok [OF ok v Some, where e = 0] by (auto simp: present_def)
  qed
qed

text \<open>A top-level table with nothing but the recursive entry.\<close>

definition demo_cells :: cells where
  "demo_cells = (\<lambda>_. 0)(0x1800 := 0x1003)"

lemma demo_walk:
  assumes "table_path ps" and "pt_walk demo_cells 0x1000 ps = Some t"
  shows "ps = []"
proof (cases ps)
  case (Cons i qs)
  have "pt_cell 0x1000 i \<noteq> pt_cell 0x1000 256"
    using assms(1) cell_inj [of "0x1000" "0x1000" i 256] by (auto simp: Cons table_path_def page_aligned_def)
  then show ?thesis using assms(2) by (simp add: Cons demo_cells_def pt_cell_def present_def)
qed

lemma demo_tree: "tree_ok demo_cells 0x1000" and demo_tables: "tables demo_cells 0x1000 = {0x1000}"
proof -
  have c: "demo_cells (pt_cell 0x1000 i) = (if i = 256 then 0x1003 else 0)" if "i < 512" for i
    using that cell_inj [of "0x1000" "0x1000" i 256] by (auto simp: demo_cells_def page_aligned_def pt_cell_def)
  show "tree_ok demo_cells 0x1000"
    unfolding tree_ok_def using demo_walk c [of 256]
    by (auto simp: page_aligned_def present_def PTE_P_def pte_get_base_def large_def BIT_def c)
  have "t = 0x1000" if "table_path ps" "pt_walk demo_cells 0x1000 ps = Some t" for ps t
    using that demo_walk [OF that] by simp
  moreover have "table_path []" by (simp add: table_path_def)
  ultimately show "tables demo_cells 0x1000 = {0x1000}"
    unfolding tables_def by (auto intro!: exI [of _ "[]"])
qed

lemma demo_unmapped: "mmu demo_cells 0x1000 0x400000 = None"
  by (rule mmu_absent [of 0 _ _ _ "0x1000"]) (simp_all add: demo_cells_def present_def pt_cell_def pt_index_def)

theorem map_page_correct_witness:
  "\<exists>m' z'. map_page 0x7000 0x400000 0 PTE_W 0x1000 (demo_cells, demo_phys) = Some (m', z') \<and> mmu m' 0x1000 0x400000 = Some 0x7000"
proof -
  have "\<not> bit PTE_W 7" by (simp add: PTE_W_def BIT_def)
  moreover have "user_path 0x400000" by (simp add: user_path_def pt_index_def)
  moreover have "\<forall>p\<in>set (free_pages demo_phys). frame (p - KERN_VMBASE) \<and> p - KERN_VMBASE \<notin> tables demo_cells 0x1000"
    by (simp add: demo_free_pages demo_tables frame_def pte_get_base_def KERN_VMBASE_def)
  ultimately show ?thesis
    using map_page_correct [OF demo_tree _ demo_unmapped demo_phys_inv, of PTE_W "0x7000"] demo_free_pages
    by (auto simp: pte_get_base_def)
qed

theorem get_pte_addr_correct_witness: "mmu demo_cells 0x1000 (get_pte_addr 0x400000 0) = Some 0x1000"
  using get_pte_addr_correct [OF demo_tree, of 0 "0x400000" "0x1000"] by (simp add: pt_cell_def pt_index_def)

theorem unmap_correct_witness: "\<exists>m'. unmap 0x400000 0x1000 demo_cells = Some m' \<and> mmu m' 0x1000 0x400000 = None"
proof -
  have "user_path 0x400000" by (simp add: user_path_def pt_index_def)
  moreover have "small_path demo_cells 0x1000 0x400000"
    unfolding small_path_def using demo_walk table_path_take [OF calculation]
    by (auto simp: demo_cells_def large_def BIT_def pt_cell_def pt_index_def pt_path_def split: option.splits)
  ultimately show ?thesis using unmap_correct [OF demo_tree] by blast
qed

end
