(* ===== verification/Ranges.thy ===== *)
theory Ranges
  imports Paging
begin

text \<open>
  The ranges of physical memory: \<^verbatim>\<open>page_allocator_init\<close> of \<^verbatim>\<open>sys/mm/get_page.c\<close>, which turns the
  boot loader's memory map into the allocator's free ranges and maps them into the kernel, and the
  table of usable ranges in \<^verbatim>\<open>sys/mm/paging.c\<close>, which says whether a range may be mapped as hardware.
  The list of usable ranges is taken to end after the last node: \<^verbatim>\<open>memory_range_init\<close> leaves the
  \<^verbatim>\<open>next\<close> pointer of that node to the contents of a fresh page.
\<close>

section \<open>The memory map\<close>

record smap_t =
  sm_base :: u64
  sm_length :: u64
  sm_type :: u32

text \<open>The parts of one entry of the memory map that are added to the free ranges, in the order of
  their insertion, when \<open>rm\<close> is reserved.\<close>

definition usable_of :: "memory_range \<Rightarrow> smap_t \<Rightarrow> memory_range list" where
  "usable_of rm sm =
     (let base = sm_base sm; ln = sm_length sm; end = base + ln; rmend = mr_base rm + mr_length rm in
      if sm_type sm \<noteq> 1 then []
      else if rmend > base \<and> end > mr_base rm then
        (if rmend \<ge> end \<and> mr_base rm \<le> base then []
         else if rmend \<ge> end then [\<lparr>mr_base = base, mr_length = mr_base rm - base\<rparr>]
         else (if mr_base rm > base then [\<lparr>mr_base = base, mr_length = mr_base rm - base\<rparr>] else []) @
              [\<lparr>mr_base = rmend, mr_length = end - rmend\<rparr>])
      else [\<lparr>mr_base = base, mr_length = ln\<rparr>])"

text \<open>Each part gets a node of the pool and goes to the front of the list.\<close>

fun add_usable :: "memory_range list \<Rightarrow> phys_mem \<Rightarrow> phys_mem option" where
  "add_usable [] s = Some s"
| "add_usable (r # rs) s = do {
     obp \<leftarrow> mrng_pool s;
     (node, obp, s) \<leftarrow> obj_pool_alloc obp s;
     add_usable rs (s\<lparr>mrng_pool := Some obp, usable_head := (node, r) # usable_head s\<rparr>) }"

fun add_smaps :: "memory_range \<Rightarrow> smap_t list \<Rightarrow> phys_mem \<Rightarrow> phys_mem option" where
  "add_smaps rm [] s = Some s"
| "add_smaps rm (sm # sms) s = do { s \<leftarrow> add_usable (usable_of rm sm) s; add_smaps rm sms s }"

text \<open>The loops that map a free range: their bounds are kept in variables of type \<^verbatim>\<open>int\<close>.\<close>

definition to_int :: "u64 \<Rightarrow> int" where
  "to_int x = sint (ucast x :: 32 word)"

function map_loop :: "int \<Rightarrow> int \<Rightarrow> int \<Rightarrow> nat \<Rightarrow> u64 \<Rightarrow> cells \<times> phys_mem \<Rightarrow> (cells \<times> phys_mem) option" where
  "map_loop i stop step pgsize root s =
     (if i \<ge> stop then Some s
      else if step \<le> 0 \<or> i + step \<ge> 2 ^ 31 then None
      else do {
        s \<leftarrow> map_page (of_int i) (KERN_VMBASE + of_int i) pgsize PTE_W root s;
        map_loop (i + step) stop step pgsize root s })"
  by pat_completeness auto
termination by (relation "measure (\<lambda>(i, stop, _). nat (stop - i))") auto

declare map_loop.simps [simp del]

text \<open>The tables for the mapping may themselves be taken from the ranges, so each range is read when
  its turn comes; a node that has been used up in the meantime is a dangling pointer.\<close>

fun map_ranges :: "u64 \<Rightarrow> u64 list \<Rightarrow> cells \<times> phys_mem \<Rightarrow> (cells \<times> phys_mem) option" where
  "map_ranges root [] s = Some s"
| "map_ranges root (node # nodes) s = do {
     mr \<leftarrow> map_of (usable_head (snd s)) node;
     let begin = to_int (ALIGN_UP (mr_base mr) PAGE_SIZE_BIT);
     let end = to_int (ALIGN (mr_base mr + mr_length mr) PAGE_SIZE_BIT);
     let end2 = to_int (ALIGN_UP (of_int begin) (PAGE_SIZE_BIT + 9));
     let end3 = to_int (ALIGN (mr_base mr + mr_length mr) (PAGE_SIZE_BIT + 9));
     s \<leftarrow> map_loop begin (min end end2) 4096 0 root s;
     s \<leftarrow> map_loop end2 end3 (512 * 4096) 1 root s;
     s \<leftarrow> map_loop end3 end 4096 0 root s;
     map_ranges root nodes s }"

definition page_allocator_init ::
  "u64 \<Rightarrow> nat \<Rightarrow> smap_t list \<Rightarrow> memory_range \<Rightarrow> u64 \<Rightarrow> cells \<times> phys_mem \<Rightarrow> (cells \<times> phys_mem) option" where
  "page_allocator_init extra_page n smap rm root s = do {
     let (m, z) = s;
     guard (n \<ge> 4);
     let z = z\<lparr>head := rev (map (\<lambda>i. extra_page + of_nat i * 0x1000) [0..<n]) @ head z\<rparr>;
     (_, pool, z) \<leftarrow> obj_pool_create sizeof_memory_range z;
     let z = z\<lparr>mrng_pool := Some pool\<rparr>;
     z \<leftarrow> add_smaps rm smap z;
     let z = z\<lparr>early_get_page := False\<rparr>;
     map_ranges root (map fst (usable_head z)) (m, z) }"

section \<open>The table of usable ranges\<close>

record range_table =
  free_range :: "memory_range list"
  frng_pool :: obj_pool

text \<open>A node is allocated for every entry of the map, also for those that are skipped.\<close>

fun memory_ranges_from :: "smap_t list \<Rightarrow> obj_pool \<Rightarrow> phys_mem \<Rightarrow> (memory_range list \<times> obj_pool \<times> phys_mem) option" where
  "memory_ranges_from [] obp z = Some ([], obp, z)"
| "memory_ranges_from (sm # sms) obp z = do {
     (_, obp, z) \<leftarrow> obj_pool_alloc obp z;
     (rs, obp, z) \<leftarrow> memory_ranges_from sms obp z;
     Some (if sm_type sm \<noteq> 1 then rs else \<lparr>mr_base = sm_base sm, mr_length = sm_length sm\<rparr> # rs, obp, z) }"

definition memory_range_init :: "smap_t list \<Rightarrow> phys_mem \<Rightarrow> (range_table \<times> phys_mem) option" where
  "memory_range_init smap z = do {
     (_, obp, z) \<leftarrow> obj_pool_create sizeof_memory_range z;
     (rs, obp, z) \<leftarrow> memory_ranges_from smap obp z;
     Some (\<lparr>free_range = rs, frng_pool = obp\<rparr>, z) }"

fun is_range_reserved :: "u64 \<Rightarrow> u64 \<Rightarrow> memory_range list \<Rightarrow> bool" where
  "is_range_reserved base ln [] = True"
| "is_range_reserved base ln (now # rest) =
     (let end = base + ln; mrend = mr_base now + mr_length now in
      if end > mr_base now \<and> base < mrend then False
      else if mr_base now \<ge> end then True
      else is_range_reserved base ln rest)"

fun insert_sorted :: "memory_range \<Rightarrow> memory_range list \<Rightarrow> memory_range list" where
  "insert_sorted new [] = [new]"
| "insert_sorted new (now # rest) =
     (if mr_base now \<ge> mr_base new + mr_length new then new # now # rest else now # insert_sorted new rest)"

definition insert_range :: "u64 \<Rightarrow> u64 \<Rightarrow> range_table \<Rightarrow> 'z phys_mem_scheme \<Rightarrow> (int \<times> range_table \<times> 'z phys_mem_scheme) option" where
  "insert_range base ln r z =
     (if \<not> is_range_reserved base ln (free_range r) then Some (-1, r, z)
      else do {
        (_, obp, z) \<leftarrow> obj_pool_alloc (frng_pool r) z;
        Some (0, r\<lparr>free_range := insert_sorted \<lparr>mr_base = base, mr_length = ln\<rparr> (free_range r), frng_pool := obp\<rparr>, z) })"

section \<open>What the ranges cover\<close>

definition in_range :: "memory_range \<Rightarrow> nat \<Rightarrow> bool" where
  "in_range r a \<longleftrightarrow> unat (mr_base r) \<le> a \<and> a < unat (mr_base r) + unat (mr_length r)"

definition no_wrap :: "memory_range \<Rightarrow> bool" where
  "no_wrap r \<longleftrightarrow> unat (mr_base r) + unat (mr_length r) < 2 ^ 64"

lemma range_end: "no_wrap r \<Longrightarrow> unat (mr_base r + mr_length r) = unat (mr_base r) + unat (mr_length r)"
  by (simp add: no_wrap_def unat_add_lt)

fun ranges_ok :: "memory_range list \<Rightarrow> bool" where
  "ranges_ok [] = True"
| "ranges_ok (r # rs) \<longleftrightarrow> no_wrap r \<and> (\<forall>q\<in>set rs. mr_base r + mr_length r \<le> mr_base q) \<and> ranges_ok rs"

lemma ranges_ok_mem: "ranges_ok rs \<Longrightarrow> q \<in> set rs \<Longrightarrow> no_wrap q"
  by (induction rs) auto

lemma usable_of_spec:
  assumes rm: "no_wrap rm" and sm: "no_wrap \<lparr>mr_base = sm_base sm, mr_length = sm_length sm\<rparr>"
  shows "(\<exists>r\<in>set (usable_of rm sm). in_range r a) \<longleftrightarrow>
    sm_type sm = 1 \<and> in_range \<lparr>mr_base = sm_base sm, mr_length = sm_length sm\<rparr> a \<and> \<not> in_range rm a"
proof -
  have e: "unat (sm_base sm + sm_length sm) = unat (sm_base sm) + unat (sm_length sm)"
    "unat (mr_base rm + mr_length rm) = unat (mr_base rm) + unat (mr_length rm)"
    using range_end [OF rm] range_end [OF sm] by simp_all
  show ?thesis
    by (auto simp: usable_of_def Let_def in_range_def word_less_nat_alt word_le_nat_alt e unat_sub_if')
qed

text \<open>Before the ranges are complete pages come from the list of single pages only.\<close>

lemma alloc_early:
  assumes "early_get_page s" and "head s \<noteq> []"
  shows "\<exists>ob obp' s'. obj_pool_alloc obp s = Some (ob, obp', s') \<and> usable_head s' = usable_head s \<and> early_get_page s' \<and>
    length (head s) \<le> Suc (length (head s'))"
proof -
  obtain p ps where p: "head s = p # ps" using assms(2) by (cases "head s") auto
  have "get_page s = Some (p, s\<lparr>head := ps\<rparr>)"
    using p by (cases s) (simp add: get_page_def disable_interrupts_def enable_interrupts_def)
  then show ?thesis using assms p
    by (cases "free_list obp") (auto simp: obj_pool_alloc_def obj_pool_alloc_with_def Let_def)
qed

lemma add_usable_spec:
  assumes "early_get_page s" and "mrng_pool s \<noteq> None" and "length rs \<le> length (head s)"
  shows "\<exists>s'. add_usable rs s = Some s' \<and> map snd (usable_head s') = rev rs @ map snd (usable_head s) \<and>
    early_get_page s' \<and> mrng_pool s' \<noteq> None \<and> length (head s) \<le> length rs + length (head s')"
  using assms
proof (induction rs arbitrary: s)
  case (Cons r rs)
  obtain obp where obp: "mrng_pool s = Some obp" using Cons.prems(2) by auto
  obtain ob obp' s1 where a: "obj_pool_alloc obp s = Some (ob, obp', s1)" "usable_head s1 = usable_head s"
    "early_get_page s1" "length (head s) \<le> Suc (length (head s1))"
    using alloc_early [OF Cons.prems(1), of obp] Cons.prems(3) by fastforce
  let ?s = "s1\<lparr>mrng_pool := Some obp', usable_head := (ob, r) # usable_head s1\<rparr>"
  show ?case using Cons.IH [of ?s] a obp Cons.prems(3) by (auto simp: add.commute)
qed auto

lemma add_smaps_spec:
  assumes "early_get_page s" and "mrng_pool s \<noteq> None" and "2 * length sms \<le> length (head s)"
  shows "\<exists>s'. add_smaps rm sms s = Some s' \<and>
    set (map snd (usable_head s')) = set (map snd (usable_head s)) \<union> (\<Union>sm\<in>set sms. set (usable_of rm sm))"
  using assms
proof (induction sms arbitrary: s)
  case (Cons sm sms)
  have l: "length (usable_of rm sm) \<le> 2" by (simp add: usable_of_def Let_def)
  obtain s1 where "add_usable (usable_of rm sm) s = Some s1" "map snd (usable_head s1) = rev (usable_of rm sm) @ map snd (usable_head s)"
    "early_get_page s1" "mrng_pool s1 \<noteq> None" "length (head s) \<le> length (usable_of rm sm) + length (head s1)"
    using add_usable_spec [OF Cons.prems(1,2), of "usable_of rm sm"] Cons.prems(3) l by auto
  then show ?case using Cons.IH [of s1] Cons.prems(3) l by (auto simp flip: set_map)
qed simp

text \<open>The free ranges made of the boot loader's memory map cover exactly the bytes of its usable
  entries that are not reserved for the kernel, when no entry wraps around the address space and
  the first pages are enough for the nodes.\<close>

theorem usable_ranges_correct:
  assumes "no_wrap rm" and "\<forall>sm\<in>set smap. no_wrap \<lparr>mr_base = sm_base sm, mr_length = sm_length sm\<rparr>"
    and "early_get_page s" and "mrng_pool s \<noteq> None" and "usable_head s = []" and "2 * length smap \<le> length (head s)"
  shows "\<exists>s'. add_smaps rm smap s = Some s' \<and>
    (\<forall>a. (\<exists>r\<in>set (map snd (usable_head s')). in_range r a) \<longleftrightarrow>
       \<not> in_range rm a \<and> (\<exists>sm\<in>set smap. sm_type sm = 1 \<and> in_range \<lparr>mr_base = sm_base sm, mr_length = sm_length sm\<rparr> a))"
proof -
  obtain s' where s': "add_smaps rm smap s = Some s'"
    "set (map snd (usable_head s')) = (\<Union>sm\<in>set smap. set (usable_of rm sm))"
    using add_smaps_spec [OF assms(3,4,6), of rm] assms(5) by auto
  have "(\<exists>r\<in>set (map snd (usable_head s')). in_range r a) \<longleftrightarrow>
       \<not> in_range rm a \<and> (\<exists>sm\<in>set smap. sm_type sm = 1 \<and> in_range \<lparr>mr_base = sm_base sm, mr_length = sm_length sm\<rparr> a)" for a
    unfolding s'(2) using usable_of_spec [OF assms(1), of _ a] assms(2) by (auto 0 3)
  then show ?thesis using s'(1) by blast
qed

definition demo_smap :: "smap_t list" where
  "demo_smap = [\<lparr>sm_base = 0, sm_length = 0x9f000, sm_type = 1\<rparr>, \<lparr>sm_base = 0x100000, sm_length = 0x700000, sm_type = 1\<rparr>]"

theorem usable_ranges_correct_witness:
  "\<exists>s'. add_smaps \<lparr>mr_base = 0x200000, mr_length = 0x100000\<rparr> demo_smap
      (demo_phys\<lparr>head := [0x1000, 0x2000, 0x3000, 0x4000], usable_head := [], early_get_page := True\<rparr>) = Some s' \<and>
    (\<exists>r\<in>set (map snd (usable_head s')). in_range r 0x100000) \<and> \<not> (\<exists>r\<in>set (map snd (usable_head s')). in_range r 0x200000)"
proof -
  let ?rm = "\<lparr>mr_base = 0x200000, mr_length = 0x100000\<rparr> :: memory_range"
  let ?s = "demo_phys\<lparr>head := [0x1000, 0x2000, 0x3000, 0x4000], usable_head := [], early_get_page := True\<rparr>"
  have pre: "no_wrap ?rm" "\<forall>sm\<in>set demo_smap. no_wrap \<lparr>mr_base = sm_base sm, mr_length = sm_length sm\<rparr>"
    "mrng_pool ?s \<noteq> None" "2 * length demo_smap \<le> length (head ?s)"
    by (simp_all add: demo_smap_def no_wrap_def demo_phys_def)
  obtain s' where s': "add_smaps ?rm demo_smap ?s = Some s'" and
    cov: "\<And>a. (\<exists>r\<in>set (map snd (usable_head s')). in_range r a) \<longleftrightarrow>
       \<not> in_range ?rm a \<and> (\<exists>sm\<in>set demo_smap. sm_type sm = 1 \<and> in_range \<lparr>mr_base = sm_base sm, mr_length = sm_length sm\<rparr> a)"
    using usable_ranges_correct [OF pre(1,2) _ pre(3) _ pre(4)] by auto
  show ?thesis using s' cov [of "0x100000"] cov [of "0x200000"] by (auto simp: in_range_def demo_smap_def)
qed

section \<open>Reserving ranges\<close>

lemma reserved_spec:
  assumes "ranges_ok rs" and "no_wrap \<lparr>mr_base = base, mr_length = ln\<rparr>" and "0 < ln" and "\<forall>r\<in>set rs. 0 < mr_length r"
  shows "is_range_reserved base ln rs \<longleftrightarrow> (\<forall>r\<in>set rs. \<not> (\<exists>a. in_range r a \<and> in_range \<lparr>mr_base = base, mr_length = ln\<rparr> a))"
  using assms(1,4)
proof (induction rs)
  case (Cons r rs)
  let ?n = "\<lparr>mr_base = base, mr_length = ln\<rparr>"
  have n: "unat (base + ln) = unat base + unat ln" "0 < unat ln" "0 < unat (mr_length r)"
    using range_end [OF assms(2)] assms(3) Cons.prems(2) by (simp_all add: word_less_nat_alt)
  have r: "unat (mr_base r + mr_length r) = unat (mr_base r) + unat (mr_length r)" using range_end Cons.prems(1) by simp
  have ov: "(\<exists>a. in_range q a \<and> in_range ?n a) \<longleftrightarrow> unat base + unat ln > unat (mr_base q) \<and> unat base < unat (mr_base q) + unat (mr_length q)"
    if "0 < unat (mr_length q)" for q
    using that n(2) by (auto simp: in_range_def intro!: exI [of _ "max (unat base) (unat (mr_base q))"])
  have "\<not> (\<exists>a. in_range q a \<and> in_range ?n a)" if "q \<in> set rs" "mr_base r \<ge> base + ln" for q
  proof -
    have "mr_base r + mr_length r \<le> mr_base q" using Cons.prems(1) that(1) by simp
    then show ?thesis using that(2) r n by (auto simp: in_range_def word_le_nat_alt)
  qed
  then show ?case
    using Cons.IH Cons.prems ov [OF n(3)] r n(1)
    by (auto simp: Let_def word_less_nat_alt word_le_nat_alt split: if_splits)
qed simp

lemma insert_sorted_spec:
  assumes "ranges_ok rs" and "no_wrap new" and "\<forall>r\<in>set rs. mr_base new + mr_length new \<le> mr_base r \<or> mr_base r + mr_length r \<le> mr_base new"
    and "0 < mr_length new"
  shows "ranges_ok (insert_sorted new rs) \<and> set (insert_sorted new rs) = insert new (set rs)"
  using assms
proof (induction rs)
  case (Cons r rs)
  show ?case
  proof (cases "mr_base r \<ge> mr_base new + mr_length new")
    case True
    have "mr_base r \<le> mr_base q" if "q \<in> set rs" for q
    proof -
      have "mr_base r + mr_length r \<le> mr_base q" "no_wrap r" using Cons.prems(1) that by auto
      then show ?thesis using range_end [of r] by (simp add: word_le_nat_alt)
    qed
    then show ?thesis using True Cons.prems by (auto intro: order_trans)
  next
    case False
    then have "mr_base r + mr_length r \<le> mr_base new" using Cons.prems(3) by auto
    then show ?thesis using Cons False by auto
  qed
qed simp

text \<open>A range may be reserved for hardware exactly when it shares no byte with a range of the
  table; then it is entered, the table stays sorted and disjoint, and it covers just the
  additional bytes, so that a second reservation of the range is refused.\<close>

theorem insert_range_correct:
  assumes ok: "ranges_ok (free_range r)" and pos: "\<forall>q\<in>set (free_range r). 0 < mr_length q"
    and new: "no_wrap \<lparr>mr_base = base, mr_length = ln\<rparr>" "0 < ln" and alloc: "obj_pool_alloc (frng_pool r) z = Some (node, obp, z')"
  shows "if \<exists>q\<in>set (free_range r). \<exists>a. in_range q a \<and> in_range \<lparr>mr_base = base, mr_length = ln\<rparr> a
    then insert_range base ln r z = Some (-1, r, z)
    else \<exists>r'. insert_range base ln r z = Some (0, r', z') \<and> ranges_ok (free_range r') \<and>
      set (free_range r') = insert \<lparr>mr_base = base, mr_length = ln\<rparr> (set (free_range r)) \<and>
      insert_range base ln r' z' = Some (-1, r', z')"
proof (cases "is_range_reserved base ln (free_range r)")
  case False
  then show ?thesis using reserved_spec [OF ok new pos] by (auto simp: insert_range_def)
next
  case True
  let ?n = "\<lparr>mr_base = base, mr_length = ln\<rparr>"
  let ?r = "r\<lparr>free_range := insert_sorted ?n (free_range r), frng_pool := obp\<rparr>"
  have dis: "\<forall>q\<in>set (free_range r). \<not> (\<exists>a. in_range q a \<and> in_range ?n a)" using True reserved_spec [OF ok new pos] by blast
  have "base + ln \<le> mr_base q \<or> mr_base q + mr_length q \<le> base" if q: "q \<in> set (free_range r)" for q
  proof -
    have "no_wrap q" using ok q by (rule ranges_ok_mem)
    then have "unat (mr_base q + mr_length q) = unat (mr_base q) + unat (mr_length q)" by (rule range_end)
    moreover have "unat (base + ln) = unat base + unat ln" using range_end [OF new(1)] by simp
    moreover have "0 < unat ln" "0 < unat (mr_length q)" using new(2) pos q by (auto simp: word_less_nat_alt)
    moreover have "\<not> (in_range q (max (unat base) (unat (mr_base q))) \<and> in_range ?n (max (unat base) (unat (mr_base q))))"
      using dis q by blast
    ultimately show ?thesis by (auto simp: in_range_def word_le_nat_alt)
  qed
  then have ins: "ranges_ok (free_range ?r)" "set (free_range ?r) = insert ?n (set (free_range r))"
    using insert_sorted_spec [OF ok new(1)] new(2) by auto
  have "in_range ?n (unat base)" using new(2) by (simp add: in_range_def word_less_nat_alt)
  then have "\<not> is_range_reserved base ln (free_range ?r)"
    using reserved_spec [OF ins(1) new] pos new(2) ins(2) by auto
  then have "insert_range base ln ?r z' = Some (-1, ?r, z')" by (simp add: insert_range_def)
  moreover have "insert_range base ln r z = Some (0, ?r, z')" using True alloc by (simp add: insert_range_def)
  ultimately show ?thesis using dis ins by (subst if_not_P) auto
qed

theorem insert_range_correct_witness:
  "\<exists>r' z'. insert_range 0xfe000000 0x1000 \<lparr>free_range = [\<lparr>mr_base = 0x100000, mr_length = 0x700000\<rparr>], frng_pool = demo_pool 24\<rparr> demo_phys =
    Some (0, r', z')"
proof -
  let ?r = "\<lparr>free_range = [\<lparr>mr_base = 0x100000, mr_length = 0x700000\<rparr>], frng_pool = demo_pool 24\<rparr>"
  obtain node obp z' where "obj_pool_alloc (frng_pool ?r) demo_phys = Some (node, obp, z')"
    by (simp add: obj_pool_alloc_def obj_pool_alloc_with_def demo_pool_def demo_phys_def get_page_def disable_interrupts_def
        enable_interrupts_def Let_def)
  from insert_range_correct [OF _ _ _ _ this, of "0xfe000000" "0x1000"]
  show ?thesis by (auto simp: no_wrap_def in_range_def split: if_splits)
qed

end
