(* ===== verification/Shell.thy ===== *)
theory Shell
  imports Prelude
begin

text \<open>
  The shell's reader: the growing string of \<^verbatim>\<open>bin/sbush/str.c\<close> and the parser of
  \<^verbatim>\<open>bin/sbush/parse.c\<close>, a state machine over the characters of the standard input, and the choice of
  the builtin command in \<^verbatim>\<open>bin/sbush/main.c\<close>. A character is negative for the code when its byte
  is 128 or more; \<^verbatim>\<open>getchar\<close> answers \<^verbatim>\<open>-1\<close>, the byte 255, at the end of the input, and does so
  again on every later call. \<open>None\<close> is a call that does not return or dereferences NULL.
\<close>

section \<open>Strings of blocks\<close>

record str =
  str_len :: nat
  str_blocks :: "string list"

definition str_new :: str where
  "str_new = \<lparr>str_len = 0, str_blocks = []\<rparr>"

definition append_char :: "str \<Rightarrow> char \<Rightarrow> str" where
  "append_char s c =
     (let s = s\<lparr>str_len := str_len s + 1\<rparr> in
      case rev (str_blocks s) of
        [] \<Rightarrow> s\<lparr>str_blocks := [[c]]\<rparr>
      | tail # bs \<Rightarrow>
          if length tail = 128 then s\<lparr>str_blocks := str_blocks s @ [[c]]\<rparr>
          else s\<lparr>str_blocks := rev bs @ [tail @ [c]]\<rparr>)"

text \<open>\<^verbatim>\<open>dump\<close> copies the blocks into an allocation of \<open>str_len + 1\<close> bytes and terminates it there; it
  would write elsewhere if the blocks had another length in sum.\<close>

definition dump_str :: "str \<Rightarrow> string option" where
  "dump_str s = do { guard (length (concat (str_blocks s)) = str_len s); Some (concat (str_blocks s)) }"

section \<open>Commands\<close>

record pipe_part =
  argc :: nat
  argv :: "string option list"

record cmd =
  npipe :: nat
  pipes :: "pipe_part list"

text \<open>The states are named by the comment in the source; 5 is the end of the line.\<close>

datatype pstate = Start | Space | Word | DQuote | SQuote

record parser =
  st :: pstate
  word :: str
  p_cmd :: cmd

datatype presult = PCmd cmd | PNull

definition neg :: "char \<Rightarrow> bool" where
  "neg c \<longleftrightarrow> (of_char c :: nat) \<ge> 128"

definition new_pipe :: "parser \<Rightarrow> parser" where
  "new_pipe s = s\<lparr>p_cmd := (p_cmd s)\<lparr>npipe := npipe (p_cmd s) + 1, pipes := pipes (p_cmd s) @ [\<lparr>argc = 0, argv = []\<rparr>]\<rparr>\<rparr>"

text \<open>A change of the last part of the pipe; there is one whenever the code follows the pointer.\<close>

definition upd_last :: "(pipe_part \<Rightarrow> pipe_part option) \<Rightarrow> parser \<Rightarrow> parser option" where
  "upd_last f s =
     (case rev (pipes (p_cmd s)) of
        [] \<Rightarrow> None
      | p # ps \<Rightarrow> do { p \<leftarrow> f p; Some (s\<lparr>p_cmd := (p_cmd s)\<lparr>pipes := rev ps @ [p]\<rparr>\<rparr>) })"

definition new_argv :: "parser \<Rightarrow> parser option" where
  "new_argv s = upd_last (\<lambda>p. Some \<lparr>argc = argc p + 1, argv = argv p @ [None]\<rparr>) s"

definition dump_word :: "parser \<Rightarrow> parser option" where
  "dump_word s = do {
     w \<leftarrow> dump_str (word s);
     upd_last (\<lambda>p. if argv p = [] then None else Some (p\<lparr>argv := butlast (argv p) @ [Some w]\<rparr>)) s }"

text \<open>The two statements in front of a word: a first pipe part, then a new argument.\<close>

definition begin_word :: "parser \<Rightarrow> parser option" where
  "begin_word s = do {
     let s = (if st s = Start then (new_pipe s)\<lparr>st := Space\<rparr> else s);
     if st s = Space then new_argv s else Some s }"

definition end_word :: "parser \<Rightarrow> parser option" where
  "end_word s = (if st s = Word then do { s \<leftarrow> dump_word s; Some (s\<lparr>word := str_new\<rparr>) } else Some s)"

definition add_char :: "char \<Rightarrow> parser \<Rightarrow> parser" where
  "add_char c s = s\<lparr>word := append_char (word s) c\<rparr>"

definition quoted :: "parser \<Rightarrow> bool" where
  "quoted s \<longleftrightarrow> st s = DQuote \<or> st s = SQuote"

definition finish :: "parser \<Rightarrow> presult" where
  "finish s = (if quoted s then PNull else PCmd (p_cmd s))"

text \<open>The loop. At the end of the input the code appends \<^verbatim>\<open>-1\<close> for ever, unless it is inside quotes.\<close>

fun parse_loop :: "parser \<Rightarrow> string \<Rightarrow> (presult \<times> string) option" where
  "parse_loop s [] = (if quoted s then Some (PNull, []) else None)"
| "parse_loop s (p # cs) =
     (if p = CHR 0x00 then Some (finish s, cs)
      else if quoted s then
        (if p = (if st s = DQuote then CHR 0x22 else CHR 0x27) then parse_loop (s\<lparr>st := Word\<rparr>) cs
         else if p = CHR 0x5C then
           (case cs of
              [] \<Rightarrow> Some (PNull, [])
            | e # cs' \<Rightarrow>
                if neg e then Some (PNull, cs')
                else if e = CHR 0x0A then parse_loop s cs'
                else parse_loop (add_char e s) cs')
         else if neg p then Some (PNull, cs)
         else parse_loop (add_char p s) cs)
      else if p = CHR 0x0A then do {
        s \<leftarrow> (if st s = Word then dump_word s else Some s);
        Some (PCmd (p_cmd s), cs) }
      else if p = CHR 0x20 then
        (if st s = Word then do { s \<leftarrow> end_word s; parse_loop (s\<lparr>st := Space\<rparr>) cs }
         else parse_loop s cs)
      else if p = CHR 0x27 \<or> p = CHR 0x22 then do {
        s \<leftarrow> begin_word s;
        parse_loop (s\<lparr>st := (if p = CHR 0x27 then SQuote else DQuote)\<rparr>) cs }
      else if p = CHR 0x7C then do {
        s \<leftarrow> end_word s;
        parse_loop ((new_pipe s)\<lparr>st := Space\<rparr>) cs }
      else if p = CHR 0x5C then
        (case cs of
           [] \<Rightarrow> Some (PNull, [])
         | e # cs' \<Rightarrow>
             if neg e then Some (PNull, cs')
             else if e = CHR 0x0A then parse_loop s cs'
             else do { s \<leftarrow> begin_word s; parse_loop ((add_char e s)\<lparr>st := Word\<rparr>) cs' })
      else do { s \<leftarrow> begin_word s; parse_loop ((add_char p s)\<lparr>st := Word\<rparr>) cs })"

definition parse_start :: parser where
  "parse_start = \<lparr>st = Start, word = str_new, p_cmd = \<lparr>npipe = 0, pipes = []\<rparr>\<rparr>"

definition parse :: "string \<Rightarrow> (presult \<times> string) option" where
  "parse inp =
     (case inp of
        [] \<Rightarrow> Some (PNull, [])
      | p # cs \<Rightarrow> if neg p then Some (PNull, cs) else parse_loop parse_start inp)"

section \<open>Builtin commands\<close>

datatype builtin = B_touch | B_export | B_cd | B_pwd | B_exit | B_help | B_echo | B_ls | B_cat

definition cmd_handler :: "(string \<times> builtin) list" where
  "cmd_handler = [(''touch'', B_touch), (''export'', B_export), (''cd'', B_cd), (''pwd'', B_pwd), (''exit'', B_exit),
     (''quit'', B_exit), (''help'', B_help), (''echo'', B_echo), (''ls'', B_ls), (''cat'', B_cat)]"

datatype action = Quit | Continue | Run_builtin builtin pipe_part | Run_pipe cmd

text \<open>One round of the main loop: a line whose first part has no argument is a NULL dereference, and so
  is an argument that was never dumped (\<^verbatim>\<open>strcmp\<close> of NULL).\<close>

definition shell_action :: "presult \<Rightarrow> action option" where
  "shell_action r =
     (case r of
        PNull \<Rightarrow> Some Quit
      | PCmd c \<Rightarrow>
          if npipe c = 0 then Some Continue
          else (case pipes c of
            [] \<Rightarrow> None
          | p # _ \<Rightarrow> (case argv p of
              Some argv0 # _ \<Rightarrow> Some (case map_of cmd_handler argv0 of
                  Some b \<Rightarrow> Run_builtin b p | None \<Rightarrow> Run_pipe c)
            | _ \<Rightarrow> None)))"

section \<open>Strings\<close>

definition str_ok :: "str \<Rightarrow> bool" where
  "str_ok s \<longleftrightarrow> length (concat (str_blocks s)) = str_len s \<and> (\<forall>b\<in>set (str_blocks s). b \<noteq> [] \<and> length b \<le> 128)"

definition content :: "str \<Rightarrow> string" where
  "content s = concat (str_blocks s)"

lemma str_new_ok [simp]: "str_ok str_new" "content str_new = []"
  by (simp_all add: str_ok_def str_new_def content_def)




section \<open>Printing commands\<close>













declare parse_loop.simps [simp del]






section \<open>Well-formed commands\<close>





















text \<open>Two lines the shell does not survive: a bar alone (the first part has no argument, and its name is
  read through NULL), and an input that ends inside a line, which is read for ever.\<close>

lemma bar_line: "parse ''|\<newline>'' = Some (PCmd \<lparr>npipe = 1, pipes = [\<lparr>argc = 0, argv = []\<rparr>]\<rparr>, [])"
  by code_simp

lemma bar_line_faults: "map_option (shell_action \<circ> fst) (parse ''|\<newline>'') = Some None"
  by (simp add: bar_line shell_action_def)

end
