(* ===== verification/Console.thy ===== *)
theory Console
  imports Prelude
begin

text \<open>
  The console server, \<^verbatim>\<open>bin/console/main.c\<close>: the text screen with its ring of written bytes, the
  keyboard's state machine, and the queues of typed lines and of pending reads. The screen memory
  and the ring are lists of bytes, and a write behind the end of one is \<open>None\<close>; the pointer
  \<^verbatim>\<open>voff\<close> is the distance from \<^verbatim>\<open>vbase\<close>. The mapping of the screen is one page. What
  \<^verbatim>\<open>malloc\<close> left in a new line buffer is the argument \<open>fresh\<close>.
\<close>

section \<open>State\<close>

datatype kbd_state = IDLE | E0_WAIT | E1_WAIT1 | E1_WAIT2

record console =
  pos_x :: nat
  pos_y :: nat
  voff :: nat
  vram :: "u8 list"
  buffer :: "u8 list"
  offset :: nat
  cursor :: nat
  kstate :: kbd_state
  state2 :: u32
  line_buffer :: "u8 list"
  lbend :: nat
  readable_lines :: "u8 list list"
  rl_off :: nat
  rlh :: nat
  rlt :: nat

text \<open>The state the main loop starts with: the screen memory as it was, a first line buffer.\<close>

definition console_init :: "u8 list \<Rightarrow> u8 list \<Rightarrow> console" where
  "console_init vr fresh = \<lparr>pos_x = 0, pos_y = 0, voff = 0, vram = vr, buffer = replicate 4096 0, offset = 0, cursor = 0,
     kstate = IDLE, state2 = 0, line_buffer = fresh, lbend = 0, readable_lines = replicate 1024 [], rl_off = 0, rlh = 0, rlt = 0\<rparr>"

section \<open>Screen\<close>

text \<open>\<^verbatim>\<open>set_cursor\<close> sends a 16-bit position to the video port.\<close>

definition set_cursor :: "console \<Rightarrow> console" where
  "set_cursor c = c\<lparr>cursor := (pos_x c * 80 + pos_y c) mod 2 ^ 16\<rparr>"

partial_function (option) blit_copy :: "u8 list \<Rightarrow> nat \<Rightarrow> nat \<Rightarrow> nat \<Rightarrow> u8 list \<Rightarrow> (nat \<times> u8 list) option" where
  "blit_copy buf off start v vr =
     (if start \<noteq> off then do {
        guard (start < length buf);
        vr \<leftarrow> poke v (buf ! start) vr;
        blit_copy buf off ((start + 1) mod 4096) (v + 1) vr }
      else Some (v, vr))"

declare blit_copy.simps [code]

function blit_clear :: "nat \<Rightarrow> u8 list \<Rightarrow> u8 list option" where
  "blit_clear v vr =
     (if v \<le> 25 * 80 * 2 then do { vr \<leftarrow> poke v 0 vr; vr \<leftarrow> poke (v + 1) 7 vr; blit_clear (v + 2) vr }
      else Some vr)"
  by auto
termination by (relation "measure (\<lambda>(v, _). 4001 - v)") auto

definition blit :: "console \<Rightarrow> console option" where
  "blit c = (let start = int (offset c) - (int (pos_y c) + (int (pos_x c) - 1) * 80) * 2;
                 start = (if start < 0 then start + 4096 else start)
     in do {
       (v, vr) \<leftarrow> blit_copy (buffer c) (offset c) (nat start) 0 (vram c);
       vr \<leftarrow> blit_clear v vr;
       Some (c\<lparr>voff := v, vram := vr\<rparr>) })"

text \<open>A character and its attribute go to the ring and to the screen.\<close>

definition put_cell :: "u8 \<Rightarrow> console \<Rightarrow> console option" where
  "put_cell x c = do {
     buf \<leftarrow> poke (offset c) x (buffer c);
     let off = (offset c + 1) mod 4096;
     buf \<leftarrow> poke off 7 buf;
     let off = (off + 1) mod 4096;
     vr \<leftarrow> poke (voff c) x (vram c);
     vr \<leftarrow> poke (voff c + 1) 7 vr;
     Some (c\<lparr>buffer := buf, offset := off, vram := vr, voff := voff c + 2\<rparr>) }"

partial_function (option) clear_line :: "console \<Rightarrow> console option" where
  "clear_line c =
     (if pos_y c < 80 then do { c \<leftarrow> put_cell 0 c; clear_line (c\<lparr>pos_y := (pos_y c + 1) mod 256\<rparr>) }
      else Some c)"

declare clear_line.simps [code]

definition line_feed :: "console \<Rightarrow> console option" where
  "line_feed c = do {
     c \<leftarrow> clear_line c;
     let c = c\<lparr>pos_x := (pos_x c + 1) mod 256, pos_y := 0\<rparr>;
     c \<leftarrow> (if 25 \<le> pos_x c then blit (c\<lparr>pos_x := 24\<rparr>) else Some c);
     Some (set_cursor c) }"

definition vga_putc :: "u8 \<Rightarrow> console \<Rightarrow> console option" where
  "vga_putc x c =
     (if x = 10 then line_feed c
      else do {
        c \<leftarrow> put_cell x c;
        let c = c\<lparr>pos_y := (pos_y c + 1) mod 256\<rparr>;
        if 80 \<le> pos_y c then line_feed c else Some c })"

text \<open>The string ends at its first NUL; the characters are counted.\<close>

fun vga_loop :: "u8 list \<Rightarrow> nat \<Rightarrow> console \<Rightarrow> (console \<times> nat) option" where
  "vga_loop [] n c = None"
| "vga_loop (x # xs) n c =
     (if x = 0 then Some (c, n) else do { c \<leftarrow> vga_putc x c; vga_loop xs (n + 1) c })"

definition vga_puts :: "u8 list \<Rightarrow> console \<Rightarrow> (console \<times> nat) option" where
  "vga_puts str c = do { (c, n) \<leftarrow> vga_loop str 0 c; Some (set_cursor c, n) }"

section \<open>What the screen shows\<close>

text \<open>
  The history of a console is the sequence of all bytes written, lines padded to their full width.
  The screen up to \<^verbatim>\<open>voff\<close> is the end of the history, and the ring holds its last 4096 bytes. Before
  the first scroll \<^verbatim>\<open>voff\<close> is where the cursor is; after it \<^verbatim>\<open>voff\<close> is one line above the cursor.
\<close>

definition displays :: "u8 list \<Rightarrow> console \<Rightarrow> bool" where
  "displays h c \<longleftrightarrow>
     length (vram c) = 4096 \<and> length (buffer c) = 4096 \<and> offset c = length h mod 4096 \<and>
     voff c \<le> length h \<and> take (voff c) (vram c) = drop (length h - voff c) h \<and>
     (\<forall>k<length h. length h \<le> k + 4096 \<longrightarrow> buffer c ! (k mod 4096) = h ! k)"

definition placed :: "console \<Rightarrow> bool" where
  "placed c \<longleftrightarrow> pos_x c \<le> 24 \<and>
     (voff c = 160 * pos_x c + 2 * pos_y c \<or> pos_x c = 24 \<and> voff c = 160 * 23 + 2 * pos_y c)"

text \<open>Output leaves the keyboard and the queues alone.\<close>

definition same_kbd :: "console \<Rightarrow> console \<Rightarrow> bool" where
  "same_kbd c c' \<longleftrightarrow> kstate c' = kstate c \<and> state2 c' = state2 c \<and> line_buffer c' = line_buffer c \<and> lbend c' = lbend c \<and>
     readable_lines c' = readable_lines c \<and> rl_off c' = rl_off c \<and> rlh c' = rlh c \<and> rlt c' = rlt c"

lemma same_kbd_refl [simp]: "same_kbd c c"
  by (simp add: same_kbd_def)

lemma same_kbd_trans [trans]: "\<lbrakk>same_kbd c d; same_kbd d e\<rbrakk> \<Longrightarrow> same_kbd c e"
  by (simp add: same_kbd_def)

lemma ring_write:
  assumes "\<forall>k<length h. length h \<le> k + 4096 \<longrightarrow> buf ! (k mod 4096) = h ! k" and "length buf = 4096"
  shows "\<forall>k<length (h @ [x]). length (h @ [x]) \<le> k + 4096 \<longrightarrow> buf[length h mod 4096 := x] ! (k mod 4096) = (h @ [x]) ! k"
proof (intro allI impI)
  fix k assume k: "k < length (h @ [x])" "length (h @ [x]) \<le> k + 4096"
  show "buf[length h mod 4096 := x] ! (k mod 4096) = (h @ [x]) ! k"
  proof (cases "k = length h")
    case True
    then show ?thesis using assms(2) by simp
  next
    case False
    then have "k < length h" "length h - k < 4096" "0 < length h - k" using k by auto
    then have "k mod 4096 \<noteq> length h mod 4096" using mod_eq_dvd_iff_nat [of k "length h" 4096] by (auto dest: dvd_imp_le)
    then show ?thesis using assms k False by (simp add: nth_append nth_list_update)
  qed
qed

lemma take_append_update: "\<lbrakk>n < length xs; take n xs = ys\<rbrakk> \<Longrightarrow> take (Suc n) (xs[n := x]) = ys @ [x]"
  by (simp add: take_Suc_conv_app_nth)

lemma put_cell_displays:
  assumes h: "displays h c" and v: "voff c \<le> 4094"
  obtains c' where "put_cell x c = Some c'" "displays (h @ [x, 7]) c'" "voff c' = voff c + 2"
    "pos_x c' = pos_x c" "pos_y c' = pos_y c" "same_kbd c c'"
proof -
  let ?b1 = "(buffer c)[length h mod 4096 := x]"
  let ?b2 = "?b1[length (h @ [x]) mod 4096 := 7]"
  let ?v1 = "(vram c)[voff c := x]"
  let ?v2 = "?v1[Suc (voff c) := 7]"
  let ?c = "c\<lparr>buffer := ?b2, offset := Suc (Suc (length h)) mod 4096, vram := ?v2, voff := voff c + 2\<rparr>"
  have l: "length (vram c) = 4096" "length (buffer c) = 4096" "offset c = length h mod 4096" "voff c \<le> length h"
    using h by (auto simp: displays_def)
  have put: "put_cell x c = Some ?c" using l v by (simp add: put_cell_def poke_def mod_Suc_eq)
  have r1: "\<forall>k<length (h @ [x]). length (h @ [x]) \<le> k + 4096 \<longrightarrow> ?b1 ! (k mod 4096) = (h @ [x]) ! k"
    by (rule ring_write) (use h in \<open>auto simp: displays_def\<close>)
  have r2: "\<forall>k<length (h @ [x, 7]). length (h @ [x, 7]) \<le> k + 4096 \<longrightarrow> ?b2 ! (k mod 4096) = (h @ [x, 7]) ! k"
    using ring_write [OF r1, of 7] l(2) by simp
  have t1: "take (Suc (voff c)) ?v1 = drop (length h - voff c) h @ [x]"
    by (rule take_append_update) (use l v h in \<open>auto simp: displays_def\<close>)
  have "take (Suc (Suc (voff c))) ?v2 = (drop (length h - voff c) h @ [x]) @ [7]"
    by (rule take_append_update [OF _ t1]) (use l v in simp)
  then have "displays (h @ [x, 7]) ?c" using r2 l v by (simp add: displays_def mod_simps)
  then show thesis using put by (intro that [of ?c]) (auto simp: same_kbd_def)
qed

definition blanks :: "nat \<Rightarrow> u8 list" where
  "blanks n = concat (replicate n [0, 7])"

lemma blanks_simps [simp]: "blanks 0 = []" "blanks (Suc n) = [0, 7] @ blanks n" "length (blanks n) = 2 * n"
  by (simp_all add: blanks_def length_concat sum_list_replicate)

lemma clear_line_displays:
  assumes "displays h c" and "n = 80 - pos_y c" and "pos_y c \<le> 80" and "voff c + 2 * n \<le> 4096"
  obtains c' where "clear_line c = Some c'" "displays (h @ blanks n) c'" "voff c' = voff c + 2 * n"
    "pos_x c' = pos_x c" "pos_y c' = 80" "same_kbd c c'"
  using assms
proof (induction n arbitrary: h c thesis)
  case 0
  show ?case by (rule "0.prems"(1) [of c]) (use "0.prems" in \<open>simp_all add: clear_line.simps [of c]\<close>)
next
  case (Suc n)
  obtain d where d: "put_cell 0 c = Some d" "displays (h @ [0, 7]) d" "voff d = voff c + 2" "pos_x d = pos_x c" "pos_y d = pos_y c" "same_kbd c d"
    using put_cell_displays [OF Suc.prems(2), of 0] Suc.prems by auto
  let ?d = "d\<lparr>pos_y := (pos_y d + 1) mod 256\<rparr>"
  have y: "pos_y c < 80" using Suc.prems by simp
  have "displays (h @ [0, 7]) ?d" using d(2) by (simp add: displays_def)
  then obtain c' where c': "clear_line ?d = Some c'" "displays ((h @ [0, 7]) @ blanks n) c'" "voff c' = voff ?d + 2 * n"
    "pos_x c' = pos_x ?d" "pos_y c' = 80" "same_kbd ?d c'"
    by (rule Suc.IH [rotated]) (use Suc.prems y d in auto)
  have "same_kbd c ?d" using d(6) by (simp add: same_kbd_def)
  then have "same_kbd c c'" using c'(6) by (rule same_kbd_trans)
  then show ?case using c' d y by (intro Suc.prems(1) [of c']) (simp_all add: clear_line.simps [of c])
qed

lemma blit_copy_loop:
  assumes "\<forall>k<length h. length h \<le> k + 4096 \<longrightarrow> buf ! (k mod 4096) = h ! k" and "length buf = 4096"
    and "k + n = length h" and "n < 4096" and "v + n \<le> length vr"
  shows "blit_copy buf (length h mod 4096) (k mod 4096) v vr = Some (v + n, take v vr @ drop k h @ drop (v + n) vr)"
  using assms(3-)
proof (induction n arbitrary: k v vr)
  case 0
  then show ?case by (simp add: blit_copy.simps)
next
  case (Suc n)
  have ne: "k mod 4096 \<noteq> length h mod 4096"
    using Suc.prems mod_eq_dvd_iff_nat [of k "length h" 4096] by (auto dest: dvd_imp_le)
  have b: "buf ! (k mod 4096) = h ! k" using assms(1) Suc.prems by simp
  let ?vr = "vr[v := h ! k]"
  have "blit_copy buf (length h mod 4096) (k mod 4096) v vr = blit_copy buf (length h mod 4096) (Suc k mod 4096) (Suc v) ?vr"
    using ne b Suc.prems assms(2) by (subst blit_copy.simps) (simp add: poke_def mod_Suc_eq)
  also have "\<dots> = Some (Suc v + n, take (Suc v) ?vr @ drop (Suc k) h @ drop (Suc v + n) ?vr)"
    by (rule Suc.IH) (use Suc.prems in auto)
  also have "take (Suc v) ?vr @ drop (Suc k) h @ drop (Suc v + n) ?vr = take v vr @ drop k h @ drop (v + Suc n) vr"
    using Suc.prems by (simp add: take_Suc_conv_app_nth drop_update_cancel Cons_nth_drop_Suc [of k h, symmetric])
  finally show ?case by simp
qed

lemma blit_clear_prefix:
  assumes "4002 \<le> length vr"
  obtains vr' where "blit_clear v vr = Some vr'" "length vr' = length vr" "take v vr' = take v vr"
  using assms
proof (induction v vr arbitrary: thesis rule: blit_clear.induct)
  case (1 v vr)
  show ?case
  proof (cases "v \<le> 25 * 80 * 2")
    case True
    let ?vr = "vr[v := 0, Suc v := 7]"
    have p: "poke v 0 vr = Some (vr[v := 0])" "poke (v + 1) 7 (vr[v := 0]) = Some ?vr" using True "1.prems"(2) by (simp_all add: poke_def)
    obtain vr' where vr': "blit_clear (v + 2) ?vr = Some vr'" "length vr' = length ?vr" "take (v + 2) vr' = take (v + 2) ?vr"
      using "1.IH" [OF True p] "1.prems"(2) by auto
    have "take v (take (v + 2) vr') = take v (take (v + 2) ?vr)" by (simp only: vr'(3))
    then have "take v vr' = take v vr" by (simp add: min_def)
    then show ?thesis using vr' p True by (intro "1.prems"(1) [of vr']) (auto simp: blit_clear.simps [of v vr])
  qed (use "1.prems" in auto)
qed

declare blit_clear.simps [simp del]

lemma blit_displays:
  assumes h: "displays h c" and "pos_x c = 24" "pos_y c = 0" and l: "3680 \<le> length h"
  obtains c' where "blit c = Some c'" "displays h c'" "voff c' = 3680" "pos_x c' = 24" "pos_y c' = 0" "same_kbd c c'"
proof -
  let ?k = "length h - 3680"
  let ?s = "int (offset c) - (int (pos_y c) + (int (pos_x c) - 1) * 80) * 2"
  have o: "offset c = length h mod 4096" "length (buffer c) = 4096" "length (vram c) = 4096" using h by (auto simp: displays_def)
  have start: "nat (if ?s < 0 then ?s + 4096 else ?s) = ?k mod 4096"
  proof -
    have "(if ?s < 0 then ?s + 4096 else ?s) = ?s mod 4096"
      using assms(2,3) o(1) mod_add_self2 [of ?s 4096] by (cases "?s < 0") (simp_all del: mod_add_self2)
    also have "\<dots> = int (?k mod 4096)" using assms(2,3) o(1) l by (simp add: of_nat_diff zmod_int mod_simps)
    finally show ?thesis by simp
  qed
  have "blit c = do { (v, vr) \<leftarrow> blit_copy (buffer c) (offset c) (?k mod 4096) 0 (vram c); vr \<leftarrow> blit_clear v vr;
      Some (c\<lparr>voff := v, vram := vr\<rparr>) }" unfolding blit_def Let_def start by (rule refl)
  moreover have "blit_copy (buffer c) (length h mod 4096) (?k mod 4096) 0 (vram c) = Some (0 + 3680, take 0 (vram c) @ drop ?k h @ drop (0 + 3680) (vram c))"
    by (rule blit_copy_loop) (use h l in \<open>auto simp: displays_def\<close>)
  moreover obtain vr where "blit_clear 3680 (drop ?k h @ drop 3680 (vram c)) = Some vr" "length vr = 4096" "take 3680 vr = drop ?k h"
    using blit_clear_prefix [of "drop ?k h @ drop 3680 (vram c)" 3680] o(3) l by auto
  ultimately have "blit c = Some (c\<lparr>voff := 3680, vram := vr\<rparr>)" "displays h (c\<lparr>voff := 3680, vram := vr\<rparr>)"
    using o h l by (simp_all add: displays_def)
  then show thesis using assms(2,3) by (intro that [of "c\<lparr>voff := 3680, vram := vr\<rparr>"]) (auto simp: same_kbd_def)
qed

lemma line_feed_displays:
  assumes h: "displays h c" and p: "placed c" and y: "pos_y c \<le> 80"
  obtains c' where "line_feed c = Some c'" "displays (h @ blanks (80 - pos_y c)) c'" "placed c'" "pos_y c' = 0" "same_kbd c c'"
    "cursor c' = 80 * pos_x c'"
proof -
  have bound: "voff c + 2 * (80 - pos_y c) \<le> 4096" using p y by (auto simp: placed_def)
  obtain d where d: "clear_line c = Some d" "displays (h @ blanks (80 - pos_y c)) d" "voff d = voff c + 2 * (80 - pos_y c)"
    "pos_x d = pos_x c" "pos_y d = 80" "same_kbd c d"
    using clear_line_displays [OF h refl y bound] by blast
  have v: "voff d = 160 * (pos_x c + 1) \<or> pos_x c = 24 \<and> voff d = 3840" using d(3) p y by (auto simp: placed_def)
  let ?d = "d\<lparr>pos_x := pos_x c + 1, pos_y := 0\<rparr>"
  have dis: "displays (h @ blanks (80 - pos_y c)) ?d" "same_kbd c ?d" using d(2,6) by (auto simp: displays_def same_kbd_def)
  show thesis
  proof (cases "pos_x c = 24")
    case False
    then have "line_feed c = Some (set_cursor ?d)" using d(1,4) p by (simp add: line_feed_def placed_def)
    then show thesis using dis v False p
      by (intro that [of "set_cursor ?d"]) (auto simp: set_cursor_def displays_def placed_def same_kbd_def)
  next
    case True
    let ?e = "?d\<lparr>pos_x := 24\<rparr>"
    have "displays (h @ blanks (80 - pos_y c)) ?e" "pos_x ?e = 24" "pos_y ?e = 0" using dis(1) by (simp_all add: displays_def)
    moreover have "3680 \<le> length (h @ blanks (80 - pos_y c))" using v d(2) True by (auto simp: displays_def)
    ultimately obtain e where e: "blit ?e = Some e" "displays (h @ blanks (80 - pos_y c)) e" "voff e = 3680" "pos_x e = 24" "pos_y e = 0" "same_kbd ?e e"
      by (rule blit_displays)
    have "line_feed c = Some (set_cursor e)" using d(1,4) True e(1) by (simp add: line_feed_def)
    moreover have "same_kbd c ?e" using dis(2) by (simp add: same_kbd_def)
    ultimately show thesis using e
      by (intro that [of "set_cursor e"]) (auto simp: set_cursor_def displays_def placed_def same_kbd_def)
  qed
qed

text \<open>The abstract terminal: a line feed pads the line with blanks, another character is a cell.\<close>

definition out :: "u8 list \<Rightarrow> u8 \<Rightarrow> u8 list" where
  "out h x = (if x = 10 then blanks (80 - length h div 2 mod 80) else [x, 7])"

definition write_text :: "u8 list \<Rightarrow> u8 list \<Rightarrow> u8 list" where
  "write_text = foldl (\<lambda>h x. h @ out h x)"

definition screen_inv :: "u8 list \<Rightarrow> console \<Rightarrow> bool" where
  "screen_inv h c \<longleftrightarrow> displays h c \<and> placed c \<and> pos_y c < 80 \<and> length h mod 160 = 2 * pos_y c"

lemma column_arith:
  fixes l y :: nat
  shows "l mod 160 = 2 * y \<Longrightarrow> l div 2 mod 80 = y"
    and "\<lbrakk>l mod 160 = 2 * y; y < 80\<rbrakk> \<Longrightarrow> (l + 2 * (80 - y)) mod 160 = 0"
    and "l mod 160 = 2 * y \<Longrightarrow> (l + 2) mod 160 = 2 * ((y + 1) mod 80)"
proof -
  have "l mod (2 * 80) = 2 * (l div 2 mod 80) + l mod 2" by (rule mod_mult2_eq)
  then show "l mod 160 = 2 * y \<Longrightarrow> l div 2 mod 80 = y" by simp
  show "(l + 2 * (80 - y)) mod 160 = 0" if "l mod 160 = 2 * y" "y < 80"
    proof -
    have "2 * y + 2 * (80 - y) = 160" using that(2) by simp
    then show ?thesis using mod_add_left_eq [of l 160 "2 * (80 - y)"] that(1) by simp
  qed
  show "(l + 2) mod 160 = 2 * ((y + 1) mod 80)" if "l mod 160 = 2 * y"
    using mod_add_left_eq [of l 160 2] mod_mult_mult1 [of 2 "y + 1" 80] that by simp
qed

lemma line_feed_inv:
  assumes h: "displays h c" and p: "placed c" and y: "pos_y c \<le> 80" and m: "length h mod 160 = 2 * (pos_y c mod 80)"
  obtains c' where "line_feed c = Some c'" "screen_inv (h @ blanks (80 - pos_y c)) c'" "same_kbd c c'" "cursor c' = 80 * pos_x c' + pos_y c'"
proof -
  obtain c' where c': "line_feed c = Some c'" "displays (h @ blanks (80 - pos_y c)) c'" "placed c'" "pos_y c' = 0" "same_kbd c c'"
    "cursor c' = 80 * pos_x c'" by (rule line_feed_displays [OF h p y])
  have "(length h + 2 * (80 - pos_y c)) mod 160 = 0" using m y column_arith(2) [of "length h" "pos_y c"] by (cases "pos_y c = 80") auto
  then show thesis using c' by (intro that [of c']) (auto simp: screen_inv_def)
qed

lemma vga_putc_inv:
  assumes inv: "screen_inv h c"
  obtains c' where "vga_putc x c = Some c'" "screen_inv (h @ out h x) c'" "same_kbd c c'"
proof (cases "x = 10")
  case True
  have "length h div 2 mod 80 = pos_y c" using inv column_arith(1) unfolding screen_inv_def by blast
  then show thesis using line_feed_inv [of h c] inv True that by (auto simp: vga_putc_def out_def screen_inv_def)
next
  case False
  have i: "displays h c" "placed c" "pos_y c < 80" "length h mod 160 = 2 * pos_y c" using inv by (auto simp: screen_inv_def)
  have bound: "voff c \<le> 4094" using i(2,3) by (auto simp: placed_def)
  obtain d where d: "put_cell x c = Some d" "displays (h @ [x, 7]) d" "voff d = voff c + 2" "pos_x d = pos_x c" "pos_y d = pos_y c" "same_kbd c d"
    using put_cell_displays [OF i(1) bound] by blast
  let ?d = "d\<lparr>pos_y := pos_y c + 1\<rparr>"
  have D: "displays (h @ [x, 7]) ?d" "placed ?d" "same_kbd c ?d" "pos_y ?d = pos_y c + 1"
    using d i by (auto simp: displays_def placed_def same_kbd_def)
  have m: "length (h @ [x, 7]) mod 160 = 2 * (pos_y ?d mod 80)" using column_arith(3) [OF i(4)] by (simp add: D(4))
  show thesis
  proof (cases "pos_y c = 79")
    case True
    obtain c' where c': "line_feed ?d = Some c'" "screen_inv ((h @ [x, 7]) @ blanks (80 - pos_y ?d)) c'" "same_kbd ?d c'"
      using line_feed_inv [OF D(1,2) _ m] True by auto
    then show thesis using d(1,5) True False same_kbd_trans [OF D(3) c'(3)]
      by (intro that [of c']) (auto simp: vga_putc_def out_def)
  next
    case F: False
    then show thesis using d(1,5) D m False i(3) by (intro that [of ?d]) (auto simp: vga_putc_def out_def screen_inv_def)
  qed
qed

lemma vga_loop_inv:
  assumes "screen_inv h c" and "0 \<notin> set xs"
  obtains c' where "vga_loop (xs @ 0 # rest) n c = Some (c', n + length xs)" "screen_inv (write_text h xs) c'" "same_kbd c c'"
  using assms
proof (induction xs arbitrary: h c n thesis)
  case Nil
  then show ?case by (auto simp: write_text_def)
next
  case (Cons x xs)
  obtain d where d: "vga_putc x c = Some d" "screen_inv (h @ out h x) d" "same_kbd c d" by (rule vga_putc_inv [OF Cons.prems(2)])
  obtain c' where c': "vga_loop (xs @ 0 # rest) (n + 1) d = Some (c', n + 1 + length xs)" "screen_inv (write_text (h @ out h x) xs) c'" "same_kbd d c'"
    using Cons.IH [of "n + 1" d "h @ out h x"] d(2) Cons.prems(3) by auto
  then show ?case using d Cons.prems(3) same_kbd_trans [OF d(3) c'(3)] by (intro Cons.prems(1) [of c']) (auto simp: write_text_def)
qed

text \<open>C15. Printing a text: the screen memory is never left, the number of characters is returned, the
  history grows by the cells of the text, the screen up to the writing position is the end of the
  history, and the cursor is set to the text position.\<close>

theorem vga_puts_correct:
  assumes "screen_inv h c" and "0 \<notin> set xs"
  shows "\<exists>c'. vga_puts (xs @ 0 # rest) c = Some (c', length xs) \<and> screen_inv (write_text h xs) c' \<and>
    take (voff c') (vram c') = drop (length (write_text h xs) - voff c') (write_text h xs) \<and> cursor c' = 80 * pos_x c' + pos_y c'"
proof -
  obtain d where d: "vga_loop (xs @ 0 # rest) 0 c = Some (d, length xs)" "screen_inv (write_text h xs) d"
    using vga_loop_inv [OF assms, of rest 0] by auto
  then have "screen_inv (write_text h xs) (set_cursor d)" "cursor (set_cursor d) = 80 * pos_x d + pos_y d"
    by (auto simp: screen_inv_def displays_def placed_def set_cursor_def)
  then show ?thesis using d(1) by (auto simp: vga_puts_def screen_inv_def displays_def set_cursor_def)
qed

lemma console_init_inv: "length vr = 4096 \<Longrightarrow> screen_inv [] (console_init vr fresh)"
  by (simp add: screen_inv_def displays_def placed_def console_init_def)

theorem vga_puts_correct_witness:
  "\<exists>c. vga_puts [72, 105, 10, 0] (console_init (replicate 4096 0) []) = Some (c, 3) \<and> screen_inv (write_text [] [72, 105, 10]) c"
  using vga_puts_correct [of "[]" "console_init (replicate 4096 0) []" "[72, 105, 10]" "[]"] console_init_inv [of "replicate 4096 0" "[]"]
  by auto

end
