(* ===== verification/Tty.thy ===== *)
theory Tty
  imports Console
begin

text \<open>
  The keyboard and the requests of the console server, \<^verbatim>\<open>bin/console/main.c\<close>: scan codes, the
  state of the modifier keys, the line being typed, the ring of finished lines and the ring of reads
  that wait for a line. A line buffer is a block of 1024 bytes; \<open>fresh\<close> is what the block \<^verbatim>\<open>malloc\<close>
  returns for the next line holds. \<open>None\<close> is an access outside an array or a block, or a \<^verbatim>\<open>free\<close> of an
  address that is not a block.
\<close>

section \<open>Keys\<close>

definition key_map :: "u8 list" where
  "key_map = [
     0, 27, 49, 50, 51, 52, 53, 54, 55, 56, 57, 48, 45, 61, 127, 9, 113, 119, 101, 114, 116, 121, 117, 105,
     111, 112, 91, 93, 13, 0, 97, 115, 100, 102, 103, 104, 106, 107, 108, 59, 39, 96, 0, 92, 122, 120, 99, 118,
     98, 110, 109, 44, 46, 47, 0, 42, 0, 32, 0, 0, 0, 0, 0, 0, 0, 0, 0, 0, 0, 0, 0, 0,
     0, 0, 45, 0, 0, 0, 43, 0, 0, 0, 0, 0, 0, 0, 60, 0, 0, 0, 0, 0, 0, 0, 0, 0,
     0]"

definition shift_map :: "u8 list" where
  "shift_map = [
     0, 27, 33, 64, 35, 36, 37, 94, 38, 42, 40, 41, 95, 43, 127, 9, 81, 87, 69, 82, 84, 89, 85, 73,
     79, 80, 123, 125, 13, 0, 65, 83, 68, 70, 71, 72, 74, 75, 76, 58, 34, 126, 48, 124, 90, 88, 67, 86,
     66, 78, 77, 60, 62, 63, 0, 42, 0, 32, 0, 0, 0, 0, 0, 0, 0, 0, 0, 0, 0, 0, 0, 0,
     0, 0, 45, 0, 0, 0, 43, 0, 0, 0, 0, 0, 0, 0, 62, 0, 0, 0, 0, 0, 0, 0, 0, 0,
     0]"

definition set_flag :: "u32 \<Rightarrow> bool \<Rightarrow> console \<Rightarrow> console" where
  "set_flag f up c = c\<lparr>state2 := (if up then state2 c AND NOT f else state2 c OR f)\<rparr>"

definition rctrl :: "bool \<Rightarrow> console \<Rightarrow> console" where "rctrl = set_flag 2"
definition lctrl :: "bool \<Rightarrow> console \<Rightarrow> console" where "lctrl = set_flag 1"
definition rshift :: "bool \<Rightarrow> console \<Rightarrow> console" where "rshift = set_flag 8"
definition lshift :: "bool \<Rightarrow> console \<Rightarrow> console" where "lshift = set_flag 4"

definition caps :: "bool \<Rightarrow> console \<Rightarrow> console" where
  "caps up c = (if up then c else c\<lparr>state2 := state2 c XOR 16\<rparr>)"

text \<open>The character of a key: \<open>None\<close> outside the tables, 0 for a key without character.\<close>

definition key_char :: "u32 \<Rightarrow> u8 \<Rightarrow> u8 option" where
  "key_char flags symbol = do {
     guard (unat symbol < length key_map);
     let x = (if flags AND 12 \<noteq> 0 then shift_map ! unat symbol else key_map ! unat symbol);
     Some (if (97 \<le> x \<and> x \<le> 122 \<or> 65 \<le> x \<and> x \<le> 90) \<and> flags AND 16 \<noteq> 0 then x XOR 32 else x) }"

definition do_key :: "u8 \<Rightarrow> bool \<Rightarrow> console \<Rightarrow> console option" where
  "do_key symbol up c =
     (if up then Some c
      else do {
        x \<leftarrow> key_char (state2 c) symbol;
        if x = 0 \<or> state2 c AND 3 \<noteq> 0 \<or> 1023 \<le> lbend c then Some c
        else do {
          lb \<leftarrow> poke (lbend c) x (line_buffer c);
          lb \<leftarrow> poke (lbend c + 1) 0 lb;
          (c, _) \<leftarrow> vga_puts [x, 0] (c\<lparr>line_buffer := lb, lbend := lbend c + 1\<rparr>);
          Some c } })"

definition put_line :: "u8 \<Rightarrow> console \<Rightarrow> console option" where
  "put_line x c =
     (if lbend c < 1024 then do { lb \<leftarrow> poke (lbend c) x (line_buffer c); Some (c\<lparr>line_buffer := lb, lbend := lbend c + 1\<rparr>) }
      else Some c)"

definition do_control_key :: "u8 list \<Rightarrow> u8 \<Rightarrow> bool \<Rightarrow> console \<Rightarrow> console option" where
  "do_control_key fresh symbol up c =
     (if up then Some c
      else if 0x3B \<le> symbol \<and> symbol < 0x44 then Some c
      else if symbol = 0x1C then
        (if (rlt c + 1) mod 1024 = rlh c then Some c
         else do {
           c \<leftarrow> put_line 10 c;
           lines \<leftarrow> poke (rlt c) (line_buffer c) (readable_lines c);
           line_feed (c\<lparr>readable_lines := lines, rlt := (rlt c + 1) mod 1024, line_buffer := fresh, lbend := 0\<rparr>) })
      else if symbol = 0x0F then put_line 9 c
      else Some c)"

definition state_transition :: "u8 list \<Rightarrow> u8 \<Rightarrow> console \<Rightarrow> console option" where
  "state_transition fresh symbol c =
     (case kstate c of
        E1_WAIT1 \<Rightarrow> Some (c\<lparr>kstate := E1_WAIT2\<rparr>)
      | E1_WAIT2 \<Rightarrow> Some (c\<lparr>kstate := IDLE\<rparr>)
      | E0_WAIT \<Rightarrow>
          let up = symbol AND 0x80 \<noteq> 0; symbol = symbol AND 0x7F;
              c = (if symbol = 0x1D then rctrl up c else c)
          in Some (c\<lparr>kstate := IDLE\<rparr>)
      | IDLE \<Rightarrow>
          let up = symbol AND 0x80 \<noteq> 0 in
          if symbol = 0xE0 then Some (c\<lparr>kstate := E0_WAIT\<rparr>)
          else if symbol = 0xE1 then Some (c\<lparr>kstate := E1_WAIT1\<rparr>)
          else if 0x3B \<le> symbol \<and> symbol \<le> 0x58 then do_control_key fresh (symbol AND 0x7F) up c
          else let symbol = symbol AND 0x7F in
            if symbol = 0x2A then Some (lshift up c)
            else if symbol = 0x36 then Some (rshift up c)
            else if symbol = 0x1D then Some (lctrl up c)
            else if symbol = 0x3A then Some (caps up c)
            else if symbol = 0x0E \<or> symbol = 0x1C \<or> symbol = 0x0F \<or> symbol = 0x01 then do_control_key fresh symbol up c
            else do_key symbol up c)"

text \<open>The bytes the keyboard controller has ready, each with the block for the line it may end.\<close>

fun handle_kbd :: "(u8 \<times> u8 list) list \<Rightarrow> console \<Rightarrow> console option" where
  "handle_kbd [] c = Some c"
| "handle_kbd ((x, fresh) # xs) c = do { c \<leftarrow> state_transition fresh x c; handle_kbd xs c }"

section \<open>Requests\<close>

definition strlen_block :: "u8 list \<Rightarrow> nat option" where
  "strlen_block b = (if 0 \<in> set b then Some (length (takeWhile (\<lambda>x. x \<noteq> 0) b)) else None)"

record reply =
  to :: nat
  err :: int
  rlen :: nat
  data :: "u8 list"

text \<open>A length arrives as a \<^verbatim>\<open>size_t\<close> and is kept and passed as an \<^verbatim>\<open>int\<close>.\<close>

definition int_len :: "u64 \<Rightarrow> int" where
  "int_len n = sint (ucast n :: u32)"

text \<open>The \<^verbatim>\<open>int\<close> is compared with the length of the line as a \<^verbatim>\<open>size_t\<close>: a negative one is larger than any
  line.\<close>

definition send_result :: "nat \<Rightarrow> int \<Rightarrow> console \<Rightarrow> (console \<times> reply) option" where
  "send_result fd len c = do {
     guard (rlh c < length (readable_lines c));
     let src = drop (rl_off c) (readable_lines c ! rlh c);
     n \<leftarrow> strlen_block src;
     if len < 0 \<or> int n \<le> len then do {
       guard (rl_off c = 0);
       Some (c\<lparr>rlh := (rlh c + 1) mod 1024, rl_off := 0\<rparr>, \<lparr>to = fd, err = 0, rlen = n, data = take n src\<rparr>) }
     else Some (c\<lparr>rl_off := rl_off c + nat len\<rparr>, \<lparr>to = fd, err = 0, rlen = nat len, data = take (nat len) src\<rparr>) }"

record server =
  con :: console
  pending_read :: "nat list"
  pending_read_len :: "int list"
  ph :: nat
  pt :: nat
  control_pid :: nat

partial_function (option) serve_pending :: "server \<Rightarrow> (server \<times> reply list) option" where
  "serve_pending s =
     (if rlt (con s) \<noteq> rlh (con s) \<and> pt s \<noteq> ph s then do {
        guard (ph s < length (pending_read s) \<and> ph s < length (pending_read_len s));
        (c, r) \<leftarrow> send_result (pending_read s ! ph s) (pending_read_len s ! ph s) (con s);
        (s, rs) \<leftarrow> serve_pending (s\<lparr>con := c, ph := (ph s + 1) mod 1024\<rparr>);
        Some (s, r # rs) }
      else Some (s, []))"

declare serve_pending.simps [code]

record io_request =
  rhandle :: nat
  pid :: nat
  rtype :: nat
  qlen :: u64
  payload :: "u8 list"

definition switch_text :: "u8 list" where
  "switch_text = map of_char ''Request to switch foreground task'' @ [0]"

definition handle_request :: "io_request \<Rightarrow> server \<Rightarrow> (server \<times> reply list) option" where
  "handle_request q s =
     (if rtype q = 0 then
        (if pid q \<noteq> control_pid s then Some (s, [\<lparr>to = rhandle q, err = 5, rlen = 0, data = []\<rparr>])
         else if rlt (con s) = rlh (con s) then do {
           pr \<leftarrow> poke (pt s) (rhandle q) (pending_read s);
           pl \<leftarrow> poke (pt s) (int_len (qlen q)) (pending_read_len s);
           Some (s\<lparr>pending_read := pr, pending_read_len := pl, pt := (pt s + 1) mod 1024\<rparr>, []) }
         else do { (c, r) \<leftarrow> send_result (rhandle q) (int_len (qlen q)) (con s); Some (s\<lparr>con := c\<rparr>, [r]) })
      else if rtype q = 1 then do {
        (c, _) \<leftarrow> vga_puts (payload q) (con s);
        n \<leftarrow> strlen_block (payload q);
        Some (s\<lparr>con := c\<rparr>, [\<lparr>to = rhandle q, err = 0, rlen = n, data = []\<rparr>]) }
      else if rtype q = 3 then do {
        (c, _) \<leftarrow> vga_puts switch_text (con s);
        c \<leftarrow> line_feed c;
        Some (s\<lparr>con := c, control_pid := pid q\<rparr>, []) }
      else Some (s, []))"

text \<open>One round of the main loop: the keyboard if its interrupt is pending, then the waiting reads, then
  a request if one has arrived.\<close>

definition console_round :: "(u8 \<times> u8 list) list \<Rightarrow> io_request option \<Rightarrow> server \<Rightarrow> (server \<times> reply list) option" where
  "console_round keys q s = do {
     c \<leftarrow> handle_kbd keys (con s);
     (s, rs) \<leftarrow> serve_pending (s\<lparr>con := c\<rparr>);
     (s, rs') \<leftarrow> (case q of None \<Rightarrow> Some (s, []) | Some q \<Rightarrow> handle_request q s);
     Some (s, rs @ rs') }"

section \<open>Scan codes\<close>

definition kbd_inv :: "console \<Rightarrow> bool" where
  "kbd_inv c \<longleftrightarrow> length (line_buffer c) = 1024 \<and> lbend c \<le> 1024 \<and> length (readable_lines c) = 1024 \<and>
     rlt c < 1024 \<and> rlh c < 1024"

definition con_inv :: "console \<Rightarrow> bool" where
  "con_inv c \<longleftrightarrow> (\<exists>h. screen_inv h c) \<and> kbd_inv c"

lemma screen_inv_frame:
  assumes "screen_inv h c" and "pos_x c' = pos_x c" "pos_y c' = pos_y c" "voff c' = voff c" "vram c' = vram c" "buffer c' = buffer c" "offset c' = offset c"
  shows "screen_inv h c'"
  using assms by (simp add: screen_inv_def displays_def placed_def)

lemma kbd_inv_same: "same_kbd c c' \<Longrightarrow> kbd_inv c' = kbd_inv c"
  by (simp add: same_kbd_def kbd_inv_def)

lemma vga_puts_frame:
  assumes "con_inv c" and "0 \<notin> set xs"
  obtains c' where "vga_puts (xs @ 0 # rest) c = Some (c', length xs)" "con_inv c'" "same_kbd c c'"
proof -
  obtain h where h: "screen_inv h c" using assms(1) by (auto simp: con_inv_def)
  obtain d where d: "vga_loop (xs @ 0 # rest) 0 c = Some (d, length xs)" "screen_inv (write_text h xs) d" "same_kbd c d"
    using vga_loop_inv [OF h assms(2), of rest 0] by auto
  have "screen_inv (write_text h xs) (set_cursor d)" by (rule screen_inv_frame [OF d(2)]) (simp_all add: set_cursor_def)
  moreover have s: "same_kbd c (set_cursor d)" using d(3) by (simp add: same_kbd_def set_cursor_def)
  ultimately show thesis using d(1) assms(1) kbd_inv_same [OF s] by (intro that [OF _ _ s]) (auto simp: vga_puts_def con_inv_def)
qed

lemma line_feed_frame:
  assumes "con_inv c"
  obtains c' where "line_feed c = Some c'" "con_inv c'" "same_kbd c c'"
proof -
  obtain h where h: "screen_inv h c" using assms by (auto simp: con_inv_def)
  then obtain c' where c': "line_feed c = Some c'" "screen_inv (h @ blanks (80 - pos_y c)) c'" "same_kbd c c'"
    using line_feed_inv [of h c] by (auto simp: screen_inv_def)
  then show thesis using assms kbd_inv_same [OF c'(3)] by (intro that) (auto simp: con_inv_def)
qed

lemma con_inv_frame:
  assumes "con_inv c" and "pos_x c' = pos_x c" "pos_y c' = pos_y c" "voff c' = voff c" "vram c' = vram c" "buffer c' = buffer c" "offset c' = offset c"
    and "kbd_inv c'"
  shows "con_inv c'"
  using assms screen_inv_frame [of _ c c'] by (auto simp: con_inv_def)

lemma set_flags_inv:
  assumes "con_inv c"
  shows "con_inv (c\<lparr>state2 := f\<rparr>)" "con_inv (c\<lparr>kstate := k\<rparr>)"
  by (rule con_inv_frame [OF assms]; use assms in \<open>simp add: kbd_inv_def con_inv_def\<close>)+

lemma length_key_map [simp]: "length key_map = 97"
  by (simp add: key_map_def)

lemma key_char_Some: "unat k < 97 \<Longrightarrow> \<exists>x. key_char f k = Some x"
  by (simp add: key_char_def Let_def)

text \<open>What typing a character does to the line.\<close>

lemma do_key_types:
  assumes c: "con_inv c" and x: "key_char (state2 c) k = Some x" "x \<noteq> 0" "state2 c AND 3 = 0" "lbend c < 1023"
  obtains c' where "do_key k False c = Some c'" "con_inv c'"
    "same_kbd (c\<lparr>line_buffer := (line_buffer c)[lbend c := x, lbend c + 1 := 0], lbend := lbend c + 1\<rparr>) c'"
proof -
  let ?d = "c\<lparr>line_buffer := (line_buffer c)[lbend c := x, lbend c + 1 := 0], lbend := lbend c + 1\<rparr>"
  have l: "length (line_buffer c) = 1024" using c by (simp add: con_inv_def kbd_inv_def)
  have "con_inv ?d" by (rule con_inv_frame [OF c]) (use c x in \<open>auto simp: con_inv_def kbd_inv_def\<close>)
  then obtain c' where "vga_puts [x, 0] ?d = Some (c', 1)" "con_inv c'" "same_kbd ?d c'"
    using vga_puts_frame [of ?d "[x]" "[]"] x(2) by auto
  then show thesis using x l by (intro that [of c']) (auto simp: do_key_def poke_def)
qed

lemma do_key_inv:
  assumes c: "con_inv c" and k: "up \<or> unat k < 97"
  obtains c' where "do_key k up c = Some c'" "con_inv c'"
proof (cases "up \<or> the (key_char (state2 c) k) = 0 \<or> state2 c AND 3 \<noteq> 0 \<or> 1023 \<le> lbend c")
  case True
  then have "do_key k up c = Some c" using k key_char_Some [of k "state2 c"] by (auto simp: do_key_def)
  then show thesis using that c by blast
next
  case False
  then have "key_char (state2 c) k = Some (the (key_char (state2 c) k))" using k key_char_Some [of k "state2 c"] by auto
  from do_key_types [OF c this] False that show thesis by auto
qed

lemma put_line_inv:
  assumes "con_inv c"
  obtains c' where "put_line x c = Some c'" "con_inv c'" "rlt c' = rlt c"
proof (cases "lbend c < 1024")
  case True
  let ?d = "c\<lparr>line_buffer := (line_buffer c)[lbend c := x], lbend := lbend c + 1\<rparr>"
  have "con_inv ?d" by (rule con_inv_frame [OF assms]) (use assms True in \<open>auto simp: con_inv_def kbd_inv_def\<close>)
  then show thesis using True assms by (intro that [of ?d]) (auto simp: put_line_def poke_def con_inv_def kbd_inv_def)
qed (use assms that [of c] in \<open>simp add: put_line_def\<close>)

lemma do_control_key_inv:
  assumes c: "con_inv c" and f: "length fresh = 1024"
  obtains c' where "do_control_key fresh k up c = Some c'" "con_inv c'"
proof (cases "\<not> up \<and> k = 0x1C \<and> (rlt c + 1) mod 1024 \<noteq> rlh c")
  case True
  obtain d where d: "put_line 10 c = Some d" "con_inv d" "rlt d = rlt c" by (rule put_line_inv [OF c])
  let ?e = "d\<lparr>readable_lines := (readable_lines d)[rlt d := line_buffer d], rlt := (rlt d + 1) mod 1024, line_buffer := fresh, lbend := 0\<rparr>"
  have "con_inv ?e" by (rule con_inv_frame [OF d(2)]) (use d(2) f in \<open>auto simp: con_inv_def kbd_inv_def\<close>)
  then obtain c' where "line_feed ?e = Some c'" "con_inv c'" by (rule line_feed_frame)
  then show thesis using True d by (intro that [of c']) (auto simp: do_control_key_def poke_def con_inv_def kbd_inv_def)
next
  case False
  obtain d where "put_line 9 c = Some d" "con_inv d" by (rule put_line_inv [OF c])
  moreover have "do_control_key fresh k up c \<in> {Some c, put_line 9 c}" using False by (auto simp: do_control_key_def)
  ultimately show thesis using that c by auto
qed

lemma shift_keys_inv:
  assumes "con_inv c"
  shows "con_inv (rctrl up c)" "con_inv (lctrl up c)" "con_inv (rshift up c)" "con_inv (lshift up c)" "con_inv (caps up c)"
  using assms by (simp_all add: rctrl_def lctrl_def rshift_def lshift_def caps_def set_flag_def set_flags_inv)

text \<open>C34. Whatever the keyboard sends, no array is left: a byte faults only when the driver waits for a
  first byte and it is one of 0x61 to 0x7f, which the tables of characters do not cover. Otherwise the
  invariant of the screen, the line and the queue is kept.\<close>

theorem scan_code_safe:
  assumes c: "con_inv c" and f: "length fresh = 1024"
  shows "(state_transition fresh x c = None \<longleftrightarrow> kstate c = IDLE \<and> 0x61 \<le> x \<and> x \<le> 0x7F) \<and>
    (\<forall>c'. state_transition fresh x c = Some c' \<longrightarrow> con_inv c')"
proof (cases "kstate c")
  case IDLE
  show ?thesis
  proof (cases "0x61 \<le> x \<and> x \<le> 0x7F")
    case True
    then have u: "97 \<le> unat x" "unat x \<le> 127" by (auto simp: word_le_nat_alt)
    then have "x AND 0x7F = x" by (simp add: word_unat_eq_iff code_cases(2))
    moreover have "\<not> x AND 0x80 \<noteq> 0" using u(2) by (simp only: code_cases(1))
    moreover have "key_char (state2 c) x = None" using u by (simp add: key_char_def)
    ultimately have "state_transition fresh x c = None"
      using IDLE u by (simp add: state_transition_def Let_def word_unat_eq_iff [of x] word_le_nat_alt do_key_def)
    then show ?thesis using IDLE True by simp
  next
    case False
    obtain k where k: "do_control_key fresh (x AND 0x7F) (x AND 0x80 \<noteq> 0) c = Some k" "con_inv k" by (rule do_control_key_inv [OF c f])
    have "x AND 0x80 \<noteq> 0 \<or> unat (x AND 0x7F) < 97" using False by (auto simp: code_cases word_le_nat_alt)
    then obtain d where d: "do_key (x AND 0x7F) (x AND 0x80 \<noteq> 0) c = Some d" "con_inv d" by (rule do_key_inv [OF c])
    have "\<exists>c'. state_transition fresh x c = Some c' \<and> con_inv c'"
      using IDLE k d c unfolding state_transition_def Let_def by (auto simp: set_flags_inv shift_keys_inv)
    then show ?thesis using IDLE False by auto
  qed
qed (use c in \<open>auto simp: state_transition_def Let_def set_flags_inv shift_keys_inv\<close>)

lemma console_init_con_inv: "\<lbrakk>length vr = 4096; length fresh = 1024\<rbrakk> \<Longrightarrow> con_inv (console_init vr fresh)"
  using console_init_inv [of vr fresh] by (auto simp: con_inv_def kbd_inv_def console_init_def)

theorem scan_code_safe_witness:
  "state_transition (replicate 1024 0) 0x61 (console_init (replicate 4096 0) (replicate 1024 0)) = None"
  using scan_code_safe [of "console_init (replicate 4096 0) (replicate 1024 0)" "replicate 1024 0" "0x61"]
    console_init_con_inv [of "replicate 4096 0" "replicate 1024 0"] by (simp add: console_init_def)

section \<open>From the keys to the reader\<close>

text \<open>A key that types a character in the given state of the modifier keys.\<close>

definition typing_key :: "u32 \<Rightarrow> u8 \<Rightarrow> bool" where
  "typing_key f k \<longleftrightarrow> unat k < 0x3A \<and> k \<notin> {0x2A, 0x36, 0x1D, 0x0E, 0x1C, 0x0F, 0x01} \<and> key_char f k \<noteq> Some 0"

lemma typing_key_step:
  assumes "typing_key (state2 c) k" and "kstate c = IDLE"
  shows "state_transition fresh k c = do_key k False c"
proof -
  have u: "unat k < 0x3A" using assms(1) by (simp add: typing_key_def)
  then have "k AND 0x7F = k" by (simp add: word_unat_eq_iff code_cases(2))
  moreover have "\<not> k AND 0x80 \<noteq> 0" using u by (simp only: code_cases(1))
  moreover have "k \<noteq> 0xE0" "k \<noteq> 0xE1" "k \<noteq> 0x3A" "\<not> 0x3B \<le> k" using u by (auto simp: word_le_nat_alt)
  ultimately show ?thesis using assms by (simp add: state_transition_def Let_def typing_key_def)
qed

text \<open>The line while keys are typed: the text in front, the old contents of the block behind the
  terminator.\<close>

lemma typed_keys:
  assumes "con_inv c" and "\<forall>k\<in>set ks. typing_key f k" and "kstate c = IDLE" and "state2 c = f" and "f AND 3 = 0"
    and "take (lbend c) (line_buffer c) = tx" and "lbend c = length tx" and "length tx + length ks < 1023"
  obtains c' where "handle_kbd (map (\<lambda>k. (k, b)) ks @ rest) c = handle_kbd rest c'" "con_inv c'"
    "take (lbend c') (line_buffer c') = tx @ map (\<lambda>k. the (key_char f k)) ks" "lbend c' = length tx + length ks"
    "drop (lbend c' + 1) (line_buffer c') = drop (lbend c' + 1) (line_buffer c)"
    "kstate c' = IDLE" "state2 c' = f" "readable_lines c' = readable_lines c" "rl_off c' = rl_off c" "rlh c' = rlh c" "rlt c' = rlt c"
  using assms
proof (induction ks arbitrary: c tx thesis)
  case Nil
  then show ?case by auto
next
  case (Cons k ks)
  have k: "typing_key f k" using Cons.prems(3) by simp
  then obtain x where x: "key_char f k = Some x" "x \<noteq> 0" using key_char_Some [of k f] by (auto simp: typing_key_def)
  let ?d = "c\<lparr>line_buffer := (line_buffer c)[lbend c := x, lbend c + 1 := 0], lbend := lbend c + 1\<rparr>"
  obtain d where d: "do_key k False c = Some d" "con_inv d" "same_kbd ?d d"
    by (rule do_key_types [OF Cons.prems(2), of k x]) (use x Cons.prems in auto)
  have s: "state_transition b k c = Some d" using typing_key_step [of c k b] k Cons.prems d(1) by simp
  have l: "length (line_buffer c) = 1024" using Cons.prems(2) by (simp add: con_inv_def kbd_inv_def)
  have ld: "line_buffer d = (line_buffer c)[lbend c := x, lbend c + 1 := 0]" "lbend d = lbend c + 1" "kstate d = IDLE" "state2 d = f"
    "readable_lines d = readable_lines c" "rl_off d = rl_off c" "rlh d = rlh c" "rlt d = rlt c"
    using d(3) Cons.prems by (simp_all add: same_kbd_def)
  have t: "take (lbend d) (line_buffer d) = tx @ [x]"
    using l Cons.prems by (simp add: ld take_Suc_conv_app_nth)
  obtain c' where c': "handle_kbd (map (\<lambda>k. (k, b)) ks @ rest) d = handle_kbd rest c'" "con_inv c'"
    "take (lbend c') (line_buffer c') = (tx @ [x]) @ map (\<lambda>k. the (key_char f k)) ks" "lbend c' = length (tx @ [x]) + length ks"
    "drop (lbend c' + 1) (line_buffer c') = drop (lbend c' + 1) (line_buffer d)"
    "kstate c' = IDLE" "state2 c' = f" "readable_lines c' = readable_lines d" "rl_off c' = rl_off d" "rlh c' = rlh d" "rlt c' = rlt d"
    by (rule Cons.IH [OF _ d(2), of "tx @ [x]"]) (use Cons.prems ld t in auto)
  have "drop (lbend c' + 1) (line_buffer c') = drop (lbend c' + 1) (line_buffer c)"
    using c'(4,5) Cons.prems(8) by (simp add: ld drop_update_cancel)
  then show ?case using c' s x ld by (intro Cons.prems(1) [of c']) (simp_all)
qed

lemma enter_step:
  assumes c: "con_inv c" and f: "length fresh = 1024" and "kstate c = IDLE" and l: "lbend c < 1024" and r: "(rlt c + 1) mod 1024 \<noteq> rlh c"
  obtains c' where "state_transition fresh 0x1C c = Some c'" "con_inv c'" "readable_lines c' = (readable_lines c)[rlt c := (line_buffer c)[lbend c := 10]]"
    "rlt c' = (rlt c + 1) mod 1024" "rlh c' = rlh c" "rl_off c' = rl_off c"
proof -
  let ?e = "c\<lparr>readable_lines := (readable_lines c)[rlt c := (line_buffer c)[lbend c := 10]], rlt := (rlt c + 1) mod 1024, line_buffer := fresh, lbend := 0\<rparr>"
  have k: "length (line_buffer c) = 1024" "length (readable_lines c) = 1024" "rlt c < 1024" using c by (auto simp: con_inv_def kbd_inv_def)
  have "con_inv ?e" by (rule con_inv_frame [OF c]) (use c f in \<open>auto simp: con_inv_def kbd_inv_def\<close>)
  then obtain c' where c': "line_feed ?e = Some c'" "con_inv c'" "same_kbd ?e c'" by (rule line_feed_frame)
  have "state_transition fresh 0x1C c = do_control_key fresh 0x1C False c" using assms(3) by (simp add: state_transition_def)
  also have "\<dots> = Some c'" using c'(1) k l r by (simp add: do_control_key_def put_line_def poke_def)
  finally show thesis using c' by (intro that [of c']) (simp_all add: same_kbd_def)
qed

lemma upto_first_zero:
  fixes xs :: "u8 list"
  assumes "0 \<in> set xs"
  shows "\<exists>rest. xs = takeWhile (\<lambda>x. x \<noteq> 0) xs @ 0 # rest"
proof -
  obtain ys zs where xs: "xs = ys @ 0 # zs" "0 \<notin> set ys" using split_list_first [OF assms] by blast
  then have "takeWhile (\<lambda>x. x \<noteq> 0) xs = ys" by (simp only:) (subst takeWhile_append2, auto)
  then show ?thesis using xs(1) by auto
qed

lemma send_whole_line:
  assumes "rlh c < length (readable_lines c)" and "rl_off c = 0" and line: "readable_lines c ! rlh c = tx @ 0 # rest" and "0 \<notin> set tx" and "len < 0 \<or> int (length tx) \<le> len"
  shows "send_result fd len c = Some (c\<lparr>rlh := (rlh c + 1) mod 1024, rl_off := 0\<rparr>, \<lparr>to = fd, err = 0, rlen = length tx, data = tx\<rparr>)"
proof -
  have "takeWhile (\<lambda>x. x \<noteq> 0) (tx @ 0 # rest) = tx" using assms(4) by (subst takeWhile_append2) auto
  then have "strlen_block (tx @ 0 # rest) = Some (length tx)" by (simp add: strlen_block_def)
  then show ?thesis using assms by (simp add: send_result_def)
qed

lemma serve_one:
  assumes "rlt (con s) \<noteq> rlh (con s)" and "ph s < 1024" "length (pending_read s) = 1024" "length (pending_read_len s) = 1024"
    and "pt s = (ph s + 1) mod 1024" and "send_result (pending_read s ! ph s) (pending_read_len s ! ph s) (con s) = Some (c, r)"
  shows "serve_pending s = Some (s\<lparr>con := c, ph := (ph s + 1) mod 1024\<rparr>, [r])"
proof -
  have ne: "pt s \<noteq> ph s" using assms(2,5) by (auto simp: mod_Suc)
  have "serve_pending (s\<lparr>con := c, ph := (ph s + 1) mod 1024\<rparr>) = Some (s\<lparr>con := c, ph := (ph s + 1) mod 1024\<rparr>, [])"
    using assms(5) by (simp add: serve_pending.simps)
  then show ?thesis using assms ne by (subst serve_pending.simps) simp
qed

text \<open>The line a reader gets: the typed text, a line feed, and what was behind it in the block up to the
  first NUL.\<close>

definition typed_line :: "u32 \<Rightarrow> u8 list \<Rightarrow> u8 list \<Rightarrow> u8 list" where
  "typed_line f ks b = map (\<lambda>k. the (key_char f k)) ks @ 10 # takeWhile (\<lambda>x. x \<noteq> 0) b"

lemma typed_line_queued:
  assumes c: "con_inv c" and ks: "\<forall>k\<in>set ks. typing_key f k" and idle: "kstate c = IDLE" "state2 c = f" "f AND 3 = 0" "lbend c = 0"
    and q: "rlt c = rlh c" and len: "length ks < 1023" and fr: "length fresh = 1024" and z: "0 \<in> set (drop (length ks + 1) (line_buffer c))"
  obtains c' rest where "handle_kbd (map (\<lambda>k. (k, b)) ks @ [(0x1C, fresh)]) c = Some c'" "con_inv c'"
    "readable_lines c' ! rlh c = typed_line f ks (drop (length ks + 1) (line_buffer c)) @ 0 # rest"
    "rlt c' = (rlt c + 1) mod 1024" "rlh c' = rlh c" "rl_off c' = rl_off c"
proof -
  let ?tx = "map (\<lambda>k. the (key_char f k)) ks" and ?b = "drop (length ks + 1) (line_buffer c)"
  obtain d where d: "handle_kbd (map (\<lambda>k. (k, b)) ks @ [(0x1C, fresh)]) c = handle_kbd [(0x1C, fresh)] d" "con_inv d"
    "take (lbend d) (line_buffer d) = [] @ ?tx" "lbend d = length ([] :: u8 list) + length ks"
    "drop (lbend d + 1) (line_buffer d) = drop (lbend d + 1) (line_buffer c)"
    "kstate d = IDLE" "state2 d = f" "readable_lines d = readable_lines c" "rl_off d = rl_off c" "rlh d = rlh c" "rlt d = rlt c"
    by (rule typed_keys [OF c ks idle(1-3), of "[]" b "[(0x1C, fresh)]"]) (use idle(4) len in auto)
  have k: "length (line_buffer d) = 1024" "length (readable_lines d) = 1024" "rlt d < 1024" using d(2) by (auto simp: con_inv_def kbd_inv_def)
  have "(rlt d + 1) mod 1024 \<noteq> rlh d" using d(10,11) q k(3) by (auto simp: mod_Suc)
  then obtain c' where c': "state_transition fresh 0x1C d = Some c'" "con_inv c'" "readable_lines c' = (readable_lines d)[rlt d := (line_buffer d)[lbend d := 10]]"
    "rlt c' = (rlt d + 1) mod 1024" "rlh c' = rlh d" "rl_off c' = rl_off d"
    using enter_step [OF d(2) fr d(6)] d(4) len by auto
  have "(line_buffer d)[lbend d := 10] = ?tx @ 10 # ?b"
    using d(3-5) k(1) len by (simp add: upd_conv_take_nth_drop)
  moreover obtain rest where "?b = takeWhile (\<lambda>x. x \<noteq> 0) ?b @ 0 # rest"
    using upto_first_zero [OF z] by blast
  ultimately have "readable_lines c' ! rlh c = typed_line f ks ?b @ 0 # rest"
    using c'(3) d(10,11) q k by (simp add: typed_line_def)
  then show thesis using c' d by (intro that [of c' rest]) simp_all
qed

text \<open>C16. A read that waits is answered by the line that is typed next. A process in the foreground asks
  for a line while there is none: it gets no answer yet. When keys that type characters and then the
  return key are pressed, it gets the text and a line feed, followed by what \<^verbatim>\<open>malloc\<close> left in the block
  up to the first NUL, because the line feed overwrites the terminator (so nothing more exactly when
  the next byte of the block was 0), and both queues are empty again. The length it asks for is the
  \<^verbatim>\<open>int\<close> its \<^verbatim>\<open>size_t\<close> becomes; it must be at least the length of the line, or negative, since a negative one
  counts as larger than any line.\<close>

theorem typed_line_answers_read:
  assumes "con_inv (con s)" and "\<forall>k\<in>set ks. typing_key f k" and "kstate (con s) = IDLE" "state2 (con s) = f" "f AND 3 = 0" "lbend (con s) = 0"
    and "rlt (con s) = rlh (con s)" "rl_off (con s) = 0" "length ks < 1023" "length fresh = 1024"
    and "0 \<in> set (drop (length ks + 1) (line_buffer (con s)))"
    and "ph s = pt s" "pt s < 1024" "length (pending_read s) = 1024" "length (pending_read_len s) = 1024"
    and "rtype q = 0" "pid q = control_pid s"
    and "int_len (qlen q) < 0 \<or> int (length (typed_line f ks (drop (length ks + 1) (line_buffer (con s))))) \<le> int_len (qlen q)"
  shows "\<exists>s1 s2. console_round [] (Some q) s = Some (s1, []) \<and>
    console_round (map (\<lambda>k. (k, b)) ks @ [(0x1C, fresh)]) None s1 = Some (s2,
      [\<lparr>to = rhandle q, err = 0, rlen = length (typed_line f ks (drop (length ks + 1) (line_buffer (con s)))),
        data = typed_line f ks (drop (length ks + 1) (line_buffer (con s)))\<rparr>]) \<and>
    con_inv (con s2) \<and> rlt (con s2) = rlh (con s2) \<and> ph s2 = pt s2"
proof -
  let ?tx = "typed_line f ks (drop (length ks + 1) (line_buffer (con s)))"
  let ?s1 = "s\<lparr>pending_read := (pending_read s)[pt s := rhandle q], pending_read_len := (pending_read_len s)[pt s := int_len (qlen q)], pt := (pt s + 1) mod 1024\<rparr>"
  have r1: "console_round [] (Some q) s = Some (?s1, [])"
    using assms by (simp add: console_round_def serve_pending.simps [of s] handle_request_def poke_def)
  obtain c rest where c: "handle_kbd (map (\<lambda>k. (k, b)) ks @ [(0x1C, fresh)]) (con s) = Some c" "con_inv c" "readable_lines c ! rlh (con s) = ?tx @ 0 # rest"
    "rlt c = (rlt (con s) + 1) mod 1024" "rlh c = rlh (con s)" "rl_off c = rl_off (con s)"
    by (rule typed_line_queued [OF assms(1-7,9-11)])
  have k: "length (readable_lines c) = 1024" "rlh c < 1024" using c(2) by (auto simp: con_inv_def kbd_inv_def)
  have tx: "0 \<notin> set ?tx"
  proof -
    have "the (key_char f k) \<noteq> 0" if "k \<in> set ks" for k
      using assms(2) that key_char_Some [of k f] by (fastforce simp: typing_key_def)
    then show ?thesis by (auto simp: typed_line_def dest: set_takeWhileD)
  qed
  let ?c = "c\<lparr>rlh := (rlh c + 1) mod 1024, rl_off := 0\<rparr>"
  let ?s2 = "?s1\<lparr>con := ?c, ph := (pt s + 1) mod 1024\<rparr>"
  have "send_result (rhandle q) (int_len (qlen q)) c = Some (?c, \<lparr>to = rhandle q, err = 0, rlen = length ?tx, data = ?tx\<rparr>)"
    by (rule send_whole_line [where rest = rest]) (use c k tx assms in auto)
  then have "serve_pending (?s1\<lparr>con := c\<rparr>) = Some (?s1\<lparr>con := c, con := ?c, ph := (ph (?s1\<lparr>con := c\<rparr>) + 1) mod 1024\<rparr>,
      [\<lparr>to = rhandle q, err = 0, rlen = length ?tx, data = ?tx\<rparr>])"
    using c(4,5) k assms by (intro serve_one) (auto simp: mod_Suc)
  then have r2: "console_round (map (\<lambda>k. (k, b)) ks @ [(0x1C, fresh)]) None ?s1 = Some (?s2, [\<lparr>to = rhandle q, err = 0, rlen = length ?tx, data = ?tx\<rparr>])"
    using c(1) assms(12) by (simp add: console_round_def)
  have "con_inv ?c" by (rule con_inv_frame [OF c(2)]) (use c(2) in \<open>auto simp: con_inv_def kbd_inv_def\<close>)
  then show ?thesis using r1 r2 c(4,5) assms(7) by auto
qed

definition server_init :: "console \<Rightarrow> server" where
  "server_init c = \<lparr>con = c, pending_read = replicate 1024 0, pending_read_len = replicate 1024 0, ph = 0, pt = 0, control_pid = 1\<rparr>"

theorem typed_line_answers_read_witness:
  "\<exists>s1 s2. console_round [] (Some \<lparr>rhandle = 7, pid = 1, rtype = 0, qlen = 100, payload = []\<rparr>)
      (server_init (console_init (replicate 4096 0) (replicate 1024 0))) = Some (s1, []) \<and>
    console_round [(0x26, []), (0x1F, []), (0x1C, replicate 1024 0)] None s1 =
      Some (s2, [\<lparr>to = 7, err = 0, rlen = 3, data = map of_char ''ls'' @ [10]\<rparr>])"
proof -
  have t: "typed_line 0 [0x26, 0x1F] (drop 3 (replicate 1024 0)) = map of_char ''ls'' @ [10]"
    by (simp add: typed_line_def key_char_def key_map_def)
  have k: "\<forall>k\<in>set [0x26, 0x1F]. typing_key 0 k" by (simp add: typing_key_def key_char_def key_map_def)
  have il: "int_len 100 = 100" by code_simp
  note sel = console_init_def [of "replicate 4096 0" "replicate 1024 0"]
  show ?thesis
    using typed_line_answers_read [of "server_init (console_init (replicate 4096 0) (replicate 1024 0))", OF _ k,
        of "replicate 1024 0" "\<lparr>rhandle = 7, pid = 1, rtype = 0, qlen = 100, payload = []\<rparr>" "[]"]
      console_init_con_inv [of "replicate 4096 0" "replicate 1024 0"] t il
    by (simp add: server_init_def sel numeral_3_eq_3) blast
qed

end
