(* ===== verification/Disk.thy ===== *)
theory Disk
  imports Prelude
begin

text \<open>
  The layout of the disk of the file server, \<^verbatim>\<open>bin/fs/fs.c\<close>: the bitmaps, the tables of inodes and of
  directory entries and the data sectors, all reached through one buffer page, \<^verbatim>\<open>common_buf\<close>. A
  transfer (\<^verbatim>\<open>read_sata\<close>, \<^verbatim>\<open>write_sata\<close> with a count of one) moves the 512 bytes of a sector to
  or from the front of the buffer and succeeds; the rest of the buffer keeps what it held. The
  structures have the layout of the x86-64 compiler: an inode takes 144 bytes and a directory entry
  304, so four inodes or two entries are longer than a sector.
\<close>

section \<open>Transfers\<close>

record disk =
  sectors :: "nat \<Rightarrow> u8 list"
  common_buf :: "u8 list"

definition read_sata :: "nat \<Rightarrow> disk \<Rightarrow> disk" where
  "read_sata i d = d\<lparr>common_buf := sectors d i @ drop 512 (common_buf d)\<rparr>"

definition write_sata :: "nat \<Rightarrow> disk \<Rightarrow> disk" where
  "write_sata i d = d\<lparr>sectors := (sectors d)(i := take 512 (common_buf d))\<rparr>"

text \<open>\<^verbatim>\<open>memcpy\<close> to and from the buffer.\<close>

definition get_buf :: "nat \<Rightarrow> nat \<Rightarrow> disk \<Rightarrow> u8 list" where
  "get_buf off n d = take n (drop off (common_buf d))"

definition put_buf :: "nat \<Rightarrow> u8 list \<Rightarrow> disk \<Rightarrow> disk" where
  "put_buf off bs d = d\<lparr>common_buf := take off (common_buf d) @ bs @ drop (off + length bs) (common_buf d)\<rparr>"

section \<open>Structures\<close>

record inode =
  inode_id :: u32
  file_len :: u32
  block_count :: u32
  i_data :: "u64 list"
  i_flags :: u16

definition inode_bytes :: "inode \<Rightarrow> u8 list" where
  "inode_bytes x = le 4 (inode_id x) @ le 4 (file_len x) @ le 4 (block_count x) @ replicate 4 0 @
     concat (map (le 8) (i_data x)) @ le 2 (i_flags x) @ replicate 6 0"

definition bytes_inode :: "u8 list \<Rightarrow> inode" where
  "bytes_inode b = \<lparr>inode_id = unle (take 4 b), file_len = unle (take 4 (drop 4 b)), block_count = unle (take 4 (drop 8 b)),
     i_data = map (\<lambda>k. unle (take 8 (drop (16 + 8 * k) b))) [0..<15], i_flags = unle (take 2 (drop 136 b))\<rparr>"

record dentry =
  d_sb :: u64
  d_parent :: u64
  d_subdirs :: "u64 list"
  d_iname :: "u8 list"
  dentry_id :: u32
  d_inode :: u64

definition dentry_bytes :: "dentry \<Rightarrow> u8 list" where
  "dentry_bytes x = le 8 (d_sb x) @ le 8 (d_parent x) @ concat (map (le 8) (d_subdirs x)) @ d_iname x @ replicate 2 0 @
     le 4 (dentry_id x) @ replicate 4 0 @ le 8 (d_inode x)"

definition bytes_dentry :: "u8 list \<Rightarrow> dentry" where
  "bytes_dentry b = \<lparr>d_sb = unle (take 8 b), d_parent = unle (take 8 (drop 8 b)),
     d_subdirs = map (\<lambda>k. unle (take 8 (drop (16 + 8 * k) b))) [0..<30], d_iname = take 30 (drop 256 b),
     dentry_id = unle (take 4 (drop 288 b)), d_inode = unle (take 8 (drop 296 b))\<rparr>"

section \<open>Bitmaps\<close>

definition read_bitmap :: "nat \<Rightarrow> disk \<Rightarrow> u8 list \<times> disk" where
  "read_bitmap start d = (let d = read_sata start d in (get_buf 0 512 d, d))"

definition read_inode_bitmap :: "disk \<Rightarrow> u8 list \<times> disk" where "read_inode_bitmap = read_bitmap 1"
definition read_data_bitmap :: "disk \<Rightarrow> u8 list \<times> disk" where "read_data_bitmap = read_bitmap 2"
definition read_dentry_bitmap :: "disk \<Rightarrow> u8 list \<times> disk" where "read_dentry_bitmap = read_bitmap 3"

text \<open>The first free entry from \<open>i\<close> on; \<open>None\<close> is the answer \<^verbatim>\<open>-1\<close>.\<close>

fun first_free :: "nat \<Rightarrow> u8 list \<Rightarrow> nat option" where
  "first_free i [] = None"
| "first_free i (b # bs) = (if b = 0 then Some i else first_free (i + 1) bs)"

definition get_free_inode :: "disk \<Rightarrow> nat option \<times> disk" where
  "get_free_inode d = (let (b, d) = read_inode_bitmap d in (first_free 0 b, d))"

definition get_free_dentry :: "disk \<Rightarrow> nat option \<times> disk" where
  "get_free_dentry d = (let (b, d) = read_dentry_bitmap d in (first_free 0 b, d))"

definition get_free_data :: "disk \<Rightarrow> nat option \<times> disk" where
  "get_free_data d = (let (b, d) = read_data_bitmap d in (first_free 0 b, d))"

definition set_bitmap :: "nat \<Rightarrow> nat \<Rightarrow> disk \<Rightarrow> disk option" where
  "set_bitmap start i d = (let (b, d) = read_bitmap start d in do {
     b \<leftarrow> poke i 1 b;
     Some (write_sata start (put_buf 0 b d)) })"

definition set_inode_bitmap :: "nat \<Rightarrow> disk \<Rightarrow> disk option" where "set_inode_bitmap = set_bitmap 1"
definition set_data_bitmap :: "nat \<Rightarrow> disk \<Rightarrow> disk option" where "set_data_bitmap = set_bitmap 2"
definition set_dentry_bitmap :: "nat \<Rightarrow> disk \<Rightarrow> disk option" where "set_dentry_bitmap = set_bitmap 3"

section \<open>Tables\<close>

definition get_inode :: "nat \<Rightarrow> disk \<Rightarrow> inode \<times> disk" where
  "get_inode i d = (let d = read_sata (4 + i div 4) d in (bytes_inode (get_buf (144 * (i mod 4)) 144 d), d))"

definition write_inode :: "nat \<Rightarrow> inode \<Rightarrow> disk \<Rightarrow> disk" where
  "write_inode i x d = (let d = read_sata (4 + i div 4) d;
     d = put_buf (144 * (i mod 4)) (inode_bytes x) d in write_sata (4 + i div 4) d)"

definition build_inode :: "nat \<Rightarrow> u16 \<Rightarrow> disk \<Rightarrow> disk option" where
  "build_inode i flags d = do {
     d \<leftarrow> set_inode_bitmap i d;
     let d = read_sata (4 + i div 4) d;
     let x = bytes_inode (get_buf (144 * (i mod 4)) 144 d);
     let x = x\<lparr>inode_id := of_nat i, file_len := 0, block_count := 0, i_data := replicate 13 0 @ drop 13 (i_data x), i_flags := flags\<rparr>;
     Some (write_sata (4 + i div 4) (put_buf (144 * (i mod 4)) (inode_bytes x) d)) }"

definition get_dentry :: "nat \<Rightarrow> disk \<Rightarrow> dentry \<times> disk" where
  "get_dentry i d = (let d = read_sata (14 + i div 2) d in (bytes_dentry (get_buf (304 * (i mod 2)) 304 d), d))"

definition write_dentry :: "nat \<Rightarrow> dentry \<Rightarrow> disk \<Rightarrow> disk" where
  "write_dentry i x d = (let d = read_sata (14 + i div 2) d;
     d = put_buf (304 * (i mod 2)) (dentry_bytes x) d in write_sata (14 + i div 2) d)"

text \<open>
  The new entry is built in a block of its own; \<open>old\<close> is what \<^verbatim>\<open>malloc\<close> left in it. The code adds the
  position in the sector to the pointer to the block, so an entry with an odd number is written
  behind the block. A name does not fit when it has 30 characters or more.
\<close>

definition build_dentry :: "dentry \<Rightarrow> u64 \<Rightarrow> nat \<Rightarrow> u64 \<Rightarrow> u8 list \<Rightarrow> disk \<Rightarrow> disk option" where
  "build_dentry old ino i par name d = do {
     d \<leftarrow> set_dentry_bitmap i d;
     let d = read_sata (14 + i div 2) d;
     guard (i mod 2 = 0);
     guard (length name < 30);
     let x = old\<lparr>d_parent := par, d_subdirs := replicate 24 0 @ drop 24 (d_subdirs old),
       d_iname := name @ 0 # drop (length name + 1) (d_iname old), d_inode := ino, dentry_id := of_nat i\<rparr>;
     Some (write_dentry i x d) }"

section \<open>Data\<close>

text \<open>A negative count is an enormous \<^verbatim>\<open>size_t\<close> for \<^verbatim>\<open>memcpy\<close>; the buffer is a page.\<close>

text \<open>The driver takes the number of the sector in 32 bits.\<close>

definition data_sector :: "u64 \<Rightarrow> nat" where
  "data_sector i = unat (34 + ucast i :: u32)"

lemma data_sector_small: "unat i < 512 \<Longrightarrow> data_sector i = 34 + unat i"
  by (simp add: data_sector_def unat_word_ariths unsigned_ucast_eq take_bit_nat_eq_self)

definition get_data :: "u64 \<Rightarrow> nat \<Rightarrow> int \<Rightarrow> disk \<Rightarrow> (u8 list \<times> disk) option" where
  "get_data i off count d = do {
     let d = read_sata (data_sector i) d;
     guard (0 \<le> count \<and> int off + count \<le> 4096);
     Some (get_buf off (nat count) d, d) }"

definition write_data :: "u64 \<Rightarrow> u8 list \<Rightarrow> nat \<Rightarrow> int \<Rightarrow> disk \<Rightarrow> disk option" where
  "write_data i bs off count d = do {
     let d = read_sata (data_sector i) d;
     guard (0 \<le> count \<and> int off + count \<le> 4096 \<and> count \<le> int (length bs));
     Some (write_sata (data_sector i) (put_buf off (take (nat count) bs) d)) }"

section \<open>What is on the disk\<close>

definition disk_ok :: "disk \<Rightarrow> bool" where
  "disk_ok d \<longleftrightarrow> length (common_buf d) = 4096 \<and> (\<forall>i. length (sectors d i) = 512)"

lemma disk_okD: "disk_ok d \<Longrightarrow> length (common_buf d) = 4096" "disk_ok d \<Longrightarrow> length (sectors d i) = 512"
  by (simp_all add: disk_ok_def)

lemma read_sata_simps [simp]:
  "sectors (read_sata i d) = sectors d" "disk_ok d \<Longrightarrow> disk_ok (read_sata i d)"
  "disk_ok d \<Longrightarrow> take 512 (common_buf (read_sata i d)) = sectors d i"
  by (auto simp: read_sata_def disk_ok_def)

lemma get_buf_read: "\<lbrakk>disk_ok d; off + n \<le> 512\<rbrakk> \<Longrightarrow> get_buf off n (read_sata i d) = take n (drop off (sectors d i))"
  by (simp add: get_buf_def read_sata_def disk_okD)

lemma put_buf_simps [simp]:
  "sectors (put_buf off bs d) = sectors d" "\<lbrakk>disk_ok d; off + length bs \<le> 4096\<rbrakk> \<Longrightarrow> disk_ok (put_buf off bs d)"
  by (simp_all add: put_buf_def disk_ok_def)

lemma write_sata_simps [simp]:
  "disk_ok d \<Longrightarrow> disk_ok (write_sata i d)" "sectors (write_sata i d) = (sectors d)(i := take 512 (common_buf d))"
  by (simp_all add: write_sata_def disk_ok_def)

text \<open>Replacing bytes in a sector: read it, overwrite, write it back.\<close>

lemma write_back:
  assumes "disk_ok d" and "off + length bs \<le> 512"
  shows "take 512 (common_buf (put_buf off bs (read_sata i d))) = patch off bs (sectors d i)"
  using assms by (auto simp: put_buf_def read_sata_def patch_def disk_okD)

lemma write_back_ok:
  "\<lbrakk>disk_ok d; off + length bs \<le> 4096\<rbrakk> \<Longrightarrow> disk_ok (write_sata i (put_buf off bs (read_sata i d)))"
  by simp

lemma take_drop_words:
  assumes "k < length xs"
  shows "take 8 (drop (8 * k) (concat (map (le 8) xs) @ rest)) = le 8 (xs ! k)"
  using assms by (induction xs arbitrary: k) (auto simp: nth_Cons drop_append split: nat.split)

lemma length_words [simp]: "length (concat (map (le n) xs)) = n * length xs"
  by (induction xs) auto

lemma word_table:
  assumes "drop off b = concat (map (le 8) xs) @ rest"
  shows "map (\<lambda>k. unle (take 8 (drop (off + 8 * k) b))) [0..<length xs] = (xs :: u64 list)"
proof (rule nth_equalityI)
  fix k assume "k < length (map (\<lambda>k. unle (take 8 (drop (off + 8 * k) b)) :: u64) [0..<length xs])"
  then have k: "k < length xs" by simp
  have "drop (off + 8 * k) b = drop (8 * k) (drop off b)" by (simp add: add.commute)
  then have "take 8 (drop (off + 8 * k) b) = le 8 (xs ! k)" using take_drop_words [OF k, of rest] assms by simp
  then show "map (\<lambda>k. unle (take 8 (drop (off + 8 * k) b))) [0..<length xs] ! k = xs ! k" using k by (simp add: unle_le_full)
qed simp

lemma inode_bytes_inverse:
  assumes "length (i_data x) = 15"
  shows "length (inode_bytes x) = 144" "bytes_inode (inode_bytes x) = x"
proof -
  have "drop 16 (inode_bytes x) = concat (map (le 8) (i_data x)) @ le 2 (i_flags x) @ replicate 6 0" by (simp add: inode_bytes_def)
  from word_table [OF this] show "bytes_inode (inode_bytes x) = x" using assms
    by (simp add: bytes_inode_def) (simp add: inode_bytes_def unle_le_full)
qed (simp add: inode_bytes_def assms)

lemma dentry_bytes_inverse:
  assumes "length (d_subdirs x) = 30" and "length (d_iname x) = 30"
  shows "length (dentry_bytes x) = 304" "bytes_dentry (dentry_bytes x) = x"
proof -
  have "drop 16 (dentry_bytes x) = concat (map (le 8) (d_subdirs x)) @ d_iname x @ replicate 2 0 @ le 4 (dentry_id x) @ replicate 4 0 @ le 8 (d_inode x)"
    by (simp add: dentry_bytes_def)
  from word_table [OF this] show "bytes_dentry (dentry_bytes x) = x" using assms
    by (simp add: bytes_dentry_def) (simp add: dentry_bytes_def unle_le_full)
qed (simp add: dentry_bytes_def assms)

text \<open>The inodes and entries that lie in a sector as a whole: three of four, one of two.\<close>

definition inode_at :: "disk \<Rightarrow> nat \<Rightarrow> inode" where
  "inode_at d i = bytes_inode (take 144 (drop (144 * (i mod 4)) (sectors d (4 + i div 4))))"

definition dentry_at :: "disk \<Rightarrow> nat \<Rightarrow> dentry" where
  "dentry_at d i = bytes_dentry (take 304 (drop (304 * (i mod 2)) (sectors d (14 + i div 2))))"

lemma length_i_data_at [simp]: "length (i_data (inode_at d i)) = 15"
  by (simp add: inode_at_def bytes_inode_def)

lemma get_inode_at:
  "\<lbrakk>disk_ok d; i mod 4 \<noteq> 3\<rbrakk> \<Longrightarrow> get_inode i d = (inode_at d i, read_sata (4 + i div 4) d)"
  using mod_less_divisor [of 4 i] by (simp add: get_inode_def inode_at_def Let_def get_buf_read)

lemma get_dentry_at:
  "\<lbrakk>disk_ok d; i mod 2 = 0\<rbrakk> \<Longrightarrow> get_dentry i d = (dentry_at d i, read_sata (14 + i div 2) d)"
  by (simp add: get_dentry_def dentry_at_def Let_def get_buf_read)

lemma write_inode_sectors:
  assumes "disk_ok d" and "i mod 4 \<noteq> 3" and "length (i_data x) = 15"
  shows "sectors (write_inode i x d) = (sectors d)(4 + i div 4 := patch (144 * (i mod 4)) (inode_bytes x) (sectors d (4 + i div 4)))"
    and "disk_ok (write_inode i x d)"
proof -
  have "144 * (i mod 4) + length (inode_bytes x) \<le> 512"
    using assms(2) mod_less_divisor [of 4 i] by (simp add: inode_bytes_inverse(1) [OF assms(3)])
  then show "sectors (write_inode i x d) = (sectors d)(4 + i div 4 := patch (144 * (i mod 4)) (inode_bytes x) (sectors d (4 + i div 4)))"
    and "disk_ok (write_inode i x d)"
    using assms by (simp_all add: write_inode_def Let_def write_back)
qed

lemma inode_at_write:
  assumes d: "disk_ok d" and i: "i mod 4 \<noteq> 3" and j: "j mod 4 \<noteq> 3" and x: "length (i_data x) = 15"
  shows "inode_at (write_inode i x d) j = (if j = i then x else inode_at d j)"
proof -
  have b: "144 * (i mod 4) + length (inode_bytes x) \<le> length (sectors d (4 + i div 4))"
    using i mod_less_divisor [of 4 i] d by (simp add: inode_bytes_inverse(1) [OF x] disk_okD)
  consider "j = i" | "j div 4 \<noteq> i div 4" | "j div 4 = i div 4" "j mod 4 < i mod 4" | "j div 4 = i div 4" "i mod 4 < j mod 4"
    by (metis div_mod_decomp linorder_neqE_nat)
  then show ?thesis
  proof cases
    case 1
    then show ?thesis using take_drop_patch(1) [OF b] x
      by (simp add: inode_at_def write_inode_sectors(1) [OF d i x] inode_bytes_inverse)
  next
    case 2
    then show ?thesis by (auto simp: inode_at_def write_inode_sectors(1) [OF d i x])
  next
    case 3
    then have "j \<noteq> i" by auto
    moreover have "144 * (j mod 4) + 144 \<le> 144 * (i mod 4)" using 3(2) by simp
    ultimately show ?thesis using 3(1) take_drop_patch(2) [OF b, of "144 * (j mod 4)" 144]
      by (simp add: inode_at_def write_inode_sectors(1) [OF d i x])
  next
    case 4
    then have "j \<noteq> i" by auto
    moreover have "144 * (i mod 4) + length (inode_bytes x) \<le> 144 * (j mod 4)" using 4(2) by (simp add: inode_bytes_inverse(1) [OF x])
    ultimately show ?thesis using 4(1) take_drop_patch(3) [OF b, of "144 * (j mod 4)" 144]
      by (simp add: inode_at_def write_inode_sectors(1) [OF d i x])
  qed
qed

lemma set_bitmap_ok:
  assumes d: "disk_ok d" and i: "i < 512"
  obtains d' where "set_bitmap s i d = Some d'" "sectors d' = (sectors d)(s := (sectors d s)[i := 1])" "disk_ok d'"
proof -
  let ?b = "(sectors d s)[i := 1]"
  have b: "get_buf 0 512 (read_sata s d) = sectors d s" using d by (simp add: get_buf_read disk_okD)
  have l: "0 + length ?b \<le> 512" using d by (simp add: disk_okD)
  have e: "set_bitmap s i d = Some (write_sata s (put_buf 0 ?b (read_sata s d)))"
    using i d b by (simp add: set_bitmap_def read_bitmap_def Let_def poke_def disk_okD)
  have "patch 0 ?b (sectors d s) = ?b" using d by (simp add: patch_def disk_okD)
  then show thesis by (intro that [OF e]) (use d l write_back [OF d l, of s] in simp_all)
qed

lemma read_bitmap_ok: "disk_ok d \<Longrightarrow> read_bitmap s d = (sectors d s, read_sata s d)"
  by (simp add: read_bitmap_def Let_def get_buf_read disk_okD)

end
