(* ===== verification/SataFs.thy ===== *)
theory SataFs
  imports Disk
begin

text \<open>
  Reading and writing files on the disk, the file operations of \<^verbatim>\<open>bin/fs/fs.c\<close>. Positions and counts
  are C \<^verbatim>\<open>int\<close>s; \<open>None\<close> is an access outside \<^verbatim>\<open>i_data\<close>, a bitmap or the buffer, or a sum that overflows.
  The buffer of the caller is the list of the bytes that are written to it, in order.
\<close>

section \<open>Operations\<close>

record sata_file =
  f_inode :: nat
  f_flags :: u32
  f_pos :: int
  fs_type :: nat

definition idx :: "int \<Rightarrow> 'a list \<Rightarrow> 'a option" where
  "idx k xs = (if 0 \<le> k \<and> k < int (length xs) then Some (xs ! nat k) else None)"

fun read_blocks :: "nat \<Rightarrow> int \<Rightarrow> inode \<Rightarrow> disk \<Rightarrow> (u8 list \<times> disk) option" where
  "read_blocks 0 i ino d = Some ([], d)"
| "read_blocks (Suc n) i ino d = do {
     p \<leftarrow> idx i (i_data ino);
     (b, d) \<leftarrow> get_data p 0 512 d;
     (bs, d) \<leftarrow> read_blocks n (i + 1) ino d;
     Some (b @ bs, d) }"

definition read_sata_wrapper :: "sata_file \<Rightarrow> int \<Rightarrow> disk \<Rightarrow> (int \<times> u8 list \<times> sata_file \<times> disk) option" where
  "read_sata_wrapper fd count d =
     (let (ino, d) = get_inode (f_inode fd) d; len = sint (file_len ino) in
      if f_pos fd = len then Some (0, [], fd, d)
      else
        let sum = f_pos fd + count;
            count = (if len \<le> sum then len - f_pos fd else count);
            first = f_pos fd div 512; last = (f_pos fd + count) div 512
        in do {
          guard (sum < 2 ^ 31 \<and> 0 \<le> f_pos fd \<and> 0 \<le> f_pos fd + count);
          if first = last then do {
            p \<leftarrow> idx first (i_data ino);
            (bs, d) \<leftarrow> get_data p (nat (f_pos fd mod 512)) count d;
            Some (count, bs, fd\<lparr>f_pos := f_pos fd + count\<rparr>, d) }
          else do {
            p \<leftarrow> idx first (i_data ino);
            (b0, d) \<leftarrow> get_data p (nat (f_pos fd mod 512)) (512 - f_pos fd mod 512) d;
            (b1, d) \<leftarrow> read_blocks (nat (last - 1 - first)) (first + 1) ino d;
            p \<leftarrow> idx last (i_data ino);
            (b2, d) \<leftarrow> get_data p 0 ((f_pos fd + count) mod 512) d;
            Some (count, b0 @ b1 @ b2, fd\<lparr>f_pos := f_pos fd + count\<rparr>, d) } })"

text \<open>When the disk is full the code writes \<^verbatim>\<open>data_bitmap[-1]\<close> before it tests for \<^verbatim>\<open>-1\<close>.\<close>

fun alloc_blocks :: "nat \<Rightarrow> inode \<Rightarrow> disk \<Rightarrow> (inode \<times> disk) option" where
  "alloc_blocks 0 ino d = Some (ino, d)"
| "alloc_blocks (Suc n) ino d = (let (f, d) = get_free_data d in do {
     i \<leftarrow> f;
     d \<leftarrow> set_data_bitmap i d;
     ps \<leftarrow> poke (unat (block_count ino)) (of_nat i) (i_data ino);
     alloc_blocks n (ino\<lparr>i_data := ps, block_count := block_count ino + 1\<rparr>) d })"

fun write_blocks :: "nat \<Rightarrow> int \<Rightarrow> inode \<Rightarrow> u8 list \<Rightarrow> disk \<Rightarrow> (u8 list \<times> disk) option" where
  "write_blocks 0 i ino buf d = Some (buf, d)"
| "write_blocks (Suc n) i ino buf d = do {
     p \<leftarrow> idx i (i_data ino);
     d \<leftarrow> write_data p buf 0 512 d;
     write_blocks n (i + 1) ino (drop 512 buf) d }"

definition write_span :: "int \<Rightarrow> int \<Rightarrow> inode \<Rightarrow> u8 list \<Rightarrow> disk \<Rightarrow> disk option" where
  "write_span pos count ino buf d =
     (let first = pos div 512; last = (pos + count) div 512 in
      if first = last then do {
        p \<leftarrow> idx first (i_data ino);
        write_data p buf (nat (pos mod 512)) count d }
      else do {
        p \<leftarrow> idx first (i_data ino);
        d \<leftarrow> write_data p buf (nat (pos mod 512)) (512 - pos mod 512) d;
        (buf, d) \<leftarrow> write_blocks (nat (last - 1 - first)) (first + 1) ino (drop (nat (512 - pos mod 512)) buf) d;
        p \<leftarrow> idx last (i_data ino);
        write_data p buf 0 ((pos + count) mod 512) d })"

definition write_sata_wrapper :: "sata_file \<Rightarrow> u8 list \<Rightarrow> int \<Rightarrow> disk \<Rightarrow> (int \<times> sata_file \<times> disk) option" where
  "write_sata_wrapper fd buf count d =
     (let (ino, d) = get_inode (f_inode fd) d;
          cur_last = sint (block_count ino) - 1;
          last = (f_pos fd + count) div 512
      in do {
        guard (0 \<le> f_pos fd \<and> 0 \<le> f_pos fd + count \<and> f_pos fd + count < 2 ^ 31);
        (ino, d) \<leftarrow> alloc_blocks (nat (last - cur_last)) ino d;
        d \<leftarrow> write_span (f_pos fd) count ino buf d;
        let fd = fd\<lparr>f_pos := f_pos fd + count\<rparr>;
        let ino = (if sint (file_len ino) \<le> f_pos fd then ino\<lparr>file_len := word_of_int (f_pos fd)\<rparr> else ino);
        let d = write_inode (f_inode fd) ino d;
        let (ino, d) = get_inode (f_inode fd) d;
        Some (count, fd, d) })"

section \<open>The contents of a file\<close>

definition ptrs :: "inode \<Rightarrow> u64 list" where
  "ptrs ino = take (unat (block_count ino)) (i_data ino)"

definition area :: "disk \<Rightarrow> inode \<Rightarrow> u8 list" where
  "area d ino = concat (map (\<lambda>p. sectors d (34 + unat p)) (ptrs ino))"

definition content :: "disk \<Rightarrow> nat \<Rightarrow> u8 list" where
  "content d i = take (unat (file_len (inode_at d i))) (area d (inode_at d i))"

definition inode_ok :: "disk \<Rightarrow> inode \<Rightarrow> bool" where
  "inode_ok d ino \<longleftrightarrow> length (i_data ino) = 15 \<and> unat (block_count ino) \<le> 15 \<and> unat (file_len ino) \<le> 512 * unat (block_count ino) \<and>
     distinct (ptrs ino) \<and> (\<forall>p\<in>set (ptrs ino). unat p < 512 \<and> sectors d 2 ! unat p \<noteq> 0)"

lemma length_concat_512: "(\<forall>b\<in>set B. length b = 512) \<Longrightarrow> length (concat B) = 512 * length B"
  by (induction B) auto

lemma block_slice:
  assumes "\<forall>b\<in>set B. length b = 512" and "k < length B" and "off + n \<le> 512"
  shows "take n (drop (512 * k + off) (concat B)) = take n (drop off (B ! k))"
  using assms
proof (induction B arbitrary: k)
  case (Cons b B)
  show ?case
  proof (cases k)
    case 0
    then show ?thesis using Cons.prems by simp
  next
    case (Suc m)
    then show ?thesis using Cons.IH [of m] Cons.prems by simp
  qed
qed simp

lemma length_area: "disk_ok d \<Longrightarrow> length (i_data ino) = 15 \<Longrightarrow> unat (block_count ino) \<le> 15 \<Longrightarrow> length (area d ino) = 512 * unat (block_count ino)"
  unfolding area_def by (subst length_concat_512) (auto simp: disk_okD ptrs_def)

lemma ptr_small:
  assumes "inode_ok d ino" and "k < unat (block_count ino)"
  shows "i_data ino ! k \<in> set (ptrs ino)" "unat (i_data ino ! k) < 512"
proof -
  have "k < length (ptrs ino)" "ptrs ino ! k = i_data ino ! k" using assms by (auto simp: inode_ok_def ptrs_def)
  then show m: "i_data ino ! k \<in> set (ptrs ino)" by (metis nth_mem)
  show "unat (i_data ino ! k) < 512" using m assms(1) by (auto simp: inode_ok_def)
qed

lemma get_data_area:
  assumes "disk_ok d" and "inode_ok d ino" and "k < 15" and "off + n \<le> 512" and "n = 0 \<or> k < unat (block_count ino)"
  shows "get_data (i_data ino ! k) off (int n) d =
    Some (take n (drop (512 * k + off) (area d ino)), read_sata (data_sector (i_data ino ! k)) d)"
proof -
  have *: "take n (drop (512 * k + off) (area d ino)) = take n (drop off (sectors d (34 + unat (i_data ino ! k))))" if "k < unat (block_count ino)"
    unfolding area_def
    by (subst block_slice) (use assms that in \<open>auto simp: disk_okD ptrs_def inode_ok_def\<close>)
  have "data_sector (i_data ino ! k) = 34 + unat (i_data ino ! k)" if "k < unat (block_count ino)"
    using ptr_small(2) [OF assms(2) that] by (rule data_sector_small)
  with * show ?thesis using assms by (auto simp: get_data_def get_buf_read Let_def)
qed

lemma same_sectors:
  assumes "sectors d' = sectors d"
  shows "area d' ino = area d ino" "inode_ok d' ino = inode_ok d ino" "inode_at d' i = inode_at d i" "content d' i = content d i"
  using assms by (simp_all add: area_def inode_ok_def inode_at_def content_def)

lemma area_read_sata [simp]: "area (read_sata i d) ino = area d ino"
  by (rule same_sectors) simp

lemma read_blocks_area:
  assumes "disk_ok d" and "inode_ok d ino" and "k + n \<le> unat (block_count ino)"
  obtains d' where "read_blocks n (int k) ino d = Some (take (512 * n) (drop (512 * k) (area d ino)), d')" "sectors d' = sectors d" "disk_ok d'"
  using assms
proof (induction n arbitrary: k d thesis)
  case (Suc n)
  have k: "k < 15" "k < unat (block_count ino)" "length (i_data ino) = 15" using Suc.prems by (auto simp: inode_ok_def)
  let ?d = "read_sata (data_sector (i_data ino ! k)) d"
  have g: "get_data (i_data ino ! k) 0 512 d = Some (take 512 (drop (512 * k) (area d ino)), ?d)"
    using get_data_area [OF Suc.prems(2,3) k(1), of 0 512] k(2) by simp
  obtain d' where d': "read_blocks n (int (Suc k)) ino ?d = Some (take (512 * n) (drop (512 * Suc k) (area ?d ino)), d')" "sectors d' = sectors ?d" "disk_ok d'"
    using Suc.IH [of "Suc k" ?d] Suc.prems same_sectors(2) [of ?d d ino] by auto
  have "take 512 (drop (512 * k) (area d ino)) @ take (512 * n) (drop (512 * Suc k) (area d ino)) = take (512 * Suc n) (drop (512 * k) (area d ino))"
    using take_add [of 512 "512 * n" "drop (512 * k) (area d ino)"] by (simp add: add.commute)
  then show ?case using d' g k by (intro Suc.prems(1) [of d']) (simp_all add: idx_def add.commute)
qed auto

lemma sint_u32:
  assumes "unat w < 2 ^ 31"
  shows "sint (w :: u32) = int (unat w)"
proof -
  have "signed_take_bit 31 (int k) = int k" if "k < 2 ^ 31" for k
    using that by (intro signed_take_bit_int_eq_self) auto
  from this [OF assms] have "sint (word_of_int (int (unat w)) :: u32) = int (unat w)" by (simp only: sint_sbintrunc') simp
  then show ?thesis by simp
qed

lemma length_content: "\<lbrakk>disk_ok d; inode_ok d (inode_at d i)\<rbrakk> \<Longrightarrow> length (content d i) = unat (file_len (inode_at d i))"
  by (simp add: content_def length_area inode_ok_def)

lemma content_slice: "p + n \<le> unat (file_len (inode_at d i)) \<Longrightarrow> take n (drop p (content d i)) = take n (drop p (area d (inode_at d i)))"
  by (simp add: content_def drop_take min_def)

text \<open>The three pieces of a transfer over several blocks.\<close>

lemma slice_append: "take a (drop p xs) @ take b (drop (p + a) xs) = take (a + b) (drop p xs)"
  by (simp add: take_add add.commute)

lemma same_block:
  fixes p n :: nat
  assumes "p div 512 = (p + n) div 512"
  shows "p mod 512 + n < 512"
proof -
  have "p = 512 * (p div 512) + p mod 512" "p + n = 512 * ((p + n) div 512) + (p + n) mod 512" by simp_all
  then have "p mod 512 + n = (p + n) mod 512" using assms by linarith
  then show ?thesis by simp
qed

lemma split_range:
  fixes p e :: nat
  assumes "p \<le> e" and "p div 512 \<noteq> e div 512"
  shows "p + (512 - p mod 512) = 512 * (p div 512 + 1)" and "512 * (p div 512 + 1) + 512 * (e div 512 - 1 - p div 512) = 512 * (e div 512)"
    and "e = 512 * (e div 512) + e mod 512" and "p div 512 < e div 512"
proof -
  show lt: "p div 512 < e div 512" using assms div_le_mono [of p e 512] by linarith
  have aux: "p = 512 * q + r \<Longrightarrow> r < 512 \<Longrightarrow> p + (512 - r) = 512 * (q + 1)" for q r :: nat by simp
  show "p + (512 - p mod 512) = 512 * (p div 512 + 1)" by (rule aux) simp_all
  show "512 * (p div 512 + 1) + 512 * (e div 512 - 1 - p div 512) = 512 * (e div 512)" using lt by (simp add: diff_mult_distrib2)
qed simp

lemma read_sata_area:
  assumes d: "disk_ok d" and m: "f_inode fd mod 4 \<noteq> 3" and ok: "inode_ok d (inode_at d (f_inode fd))"
    and len: "unat (file_len (inode_at d (f_inode fd))) < 7680" and p: "f_pos fd = int p" and e: "p + n \<le> unat (file_len (inode_at d (f_inode fd)))"
    and ne: "p \<noteq> unat (file_len (inode_at d (f_inode fd)))"
    and n: "int n = (if int (unat (file_len (inode_at d (f_inode fd)))) \<le> int p + count then int (unat (file_len (inode_at d (f_inode fd)))) - int p else count)"
    and sum: "int p + count < 2 ^ 31"
  obtains d' where "read_sata_wrapper fd count d = Some (int n, take n (drop p (area d (inode_at d (f_inode fd)))), fd\<lparr>f_pos := int (p + n)\<rparr>, d')"
    "sectors d' = sectors d" "disk_ok d'"
proof -
  define ino where "ino = inode_at d (f_inode fd)"
  let ?d = "read_sata (4 + f_inode fd div 4) d"
  let ?f = "p div 512" and ?l = "(p + n) div 512"
  note ok = ok [folded ino_def] and len = len [folded ino_def] and e = e [folded ino_def] and ne = ne [folded ino_def] and n = n [folded ino_def]
  have di: "disk_ok ?d" "inode_ok ?d ino" using d ok same_sectors(2) [of ?d d] by auto
  have s: "sint (file_len ino) = int (unat (file_len ino))" using len by (intro sint_u32) simp
  have bc: "unat (file_len ino) \<le> 512 * unat (block_count ino)" "length (i_data ino) = 15" "unat (block_count ino) \<le> 15" using ok by (auto simp: inode_ok_def)
  have l: "?l < 15" "?f \<le> ?l" using e len div_le_mono [of p "p + n" 512] by (auto simp: div_less_iff_less_mult)
  have lb: "?f < unat (block_count ino)" "\<not> (p + n) mod 512 = 0 \<longrightarrow> ?l < unat (block_count ino)" "?l \<le> unat (block_count ino)"
  proof -
    show "?f < unat (block_count ino)" using e ne bc(1) by (simp add: div_less_iff_less_mult)
    have "p + n \<le> unat (block_count ino) * 512" using e bc(1) by simp
    then show "?l \<le> unat (block_count ino)" using div_le_mono [of "p + n" "unat (block_count ino) * 512" 512] by simp
    show "\<not> (p + n) mod 512 = 0 \<longrightarrow> ?l < unat (block_count ino)"
    proof
      assume "\<not> (p + n) mod 512 = 0"
      then have "p + n \<noteq> unat (block_count ino) * 512" by auto
      then show "?l < unat (block_count ino)" using \<open>p + n \<le> unat (block_count ino) * 512\<close> by (simp add: div_less_iff_less_mult)
    qed
  qed
  have conv: "int p div 512 = int ?f" "(int p + int n) div 512 = int ?l" "int p mod 512 = int (p mod 512)" "(int p + int n) mod 512 = int ((p + n) mod 512)"
    by (simp_all add: zdiv_int zmod_int)
  have ix: "idx (int ?f) (i_data ino) = Some (i_data ino ! ?f)" "idx (int ?l) (i_data ino) = Some (i_data ino ! ?l)" using l bc(2) by (auto simp: idx_def)
  have nn: "int (unat (file_len ino)) \<noteq> int p" "nat (int ?l - 1 - int ?f) = ?l - 1 - ?f" "int ?f + 1 = int (?f + 1)" "512 - int (p mod 512) = int (512 - p mod 512)"
    using mod_less_divisor [of 512 p] by (metis ne of_nat_eq_iff, auto)
  have unf: "read_sata_wrapper fd count d = (if ?f = ?l then do {
      (bs, d) \<leftarrow> get_data (i_data ino ! ?f) (p mod 512) (int n) ?d; Some (int n, bs, fd\<lparr>f_pos := int (p + n)\<rparr>, d) }
    else do {
      (b0, d) \<leftarrow> get_data (i_data ino ! ?f) (p mod 512) (int (512 - p mod 512)) ?d;
      (b1, d) \<leftarrow> read_blocks (?l - 1 - ?f) (int (?f + 1)) ino d;
      (b2, d) \<leftarrow> get_data (i_data ino ! ?l) 0 (int ((p + n) mod 512)) d;
      Some (int n, b0 @ b1 @ b2, fd\<lparr>f_pos := int (p + n)\<rparr>, d) })"
    using nn(1) sum unfolding read_sata_wrapper_def get_inode_at [OF d m] Let_def split ino_def [symmetric] s p n [symmetric] conv nn(2-) ix
    by (simp add: eq_commute)
  show thesis
  proof (cases "?f = ?l")
    case True
    have "p mod 512 + n \<le> 512" using same_block [OF True] by simp
    then have "get_data (i_data ino ! ?f) (p mod 512) (int n) ?d = Some (take n (drop (512 * ?f + p mod 512) (area ?d ino)), read_sata (data_sector (i_data ino ! ?f)) ?d)"
      by (intro get_data_area [OF di]) (use l lb in auto)
    then have g: "get_data (i_data ino ! ?f) (p mod 512) (int n) ?d = Some (take n (drop p (area d ino)), read_sata (data_sector (i_data ino ! ?f)) ?d)" by simp
    have "read_sata_wrapper fd count d = Some (int n, take n (drop p (area d ino)), fd\<lparr>f_pos := int (p + n)\<rparr>, read_sata (data_sector (i_data ino ! ?f)) ?d)"
      unfolding unf if_P [OF True] g by simp
    from that [folded ino_def, OF this] show thesis using di(1) by simp
  next
    case False
    let ?a = "512 - p mod 512" and ?k = "?l - 1 - ?f" and ?c = "(p + n) mod 512"
    note sr = split_range [OF le_add1 False]
    let ?d1 = "read_sata (data_sector (i_data ino ! ?f)) ?d"
    have g0: "get_data (i_data ino ! ?f) (p mod 512) (int ?a) ?d = Some (take ?a (drop (512 * ?f + p mod 512) (area ?d ino)), ?d1)"
      by (intro get_data_area [OF di]) (use l lb in auto)
    have d1: "disk_ok ?d1" "inode_ok ?d1 ino" using di same_sectors(2) [of ?d1 ?d] by auto
    have kb: "?f + 1 + ?k \<le> unat (block_count ino)" using sr(4) lb(3) by linarith
    obtain d2 where d2: "read_blocks ?k (int (?f + 1)) ino ?d1 = Some (take (512 * ?k) (drop (512 * (?f + 1)) (area ?d1 ino)), d2)" "sectors d2 = sectors ?d1" "disk_ok d2"
      using read_blocks_area [OF d1 kb] by blast
    have i2: "inode_ok d2 ino" "area d2 ino = area d ino" using d1(2) d2(2) same_sectors [of d2 ?d1] by auto
    have g2: "get_data (i_data ino ! ?l) 0 (int ?c) d2 = Some (take ?c (drop (512 * ?l + 0) (area d2 ino)), read_sata (data_sector (i_data ino ! ?l)) d2)"
      by (intro get_data_area [OF d2(3) i2(1) l(1)]) (use lb(2) in auto)
    have ends: "?a + (512 * ?k + ?c) = n" "p + ?a = 512 * (?f + 1)" "512 * (?f + 1) + 512 * ?k = 512 * ?l" using sr(1-3) by linarith+
    have "take ?a (drop p (area d ino)) @ take (512 * ?k) (drop (512 * (?f + 1)) (area d ino)) @ take ?c (drop (512 * ?l) (area d ino)) = take n (drop p (area d ino))"
      using slice_append [of "512 * ?k" "512 * (?f + 1)" "area d ino" ?c] slice_append [of ?a p "area d ino" "512 * ?k + ?c"] unfolding ends by (simp only:)
    then have "read_sata_wrapper fd count d = Some (int n, take n (drop p (area d ino)), fd\<lparr>f_pos := int (p + n)\<rparr>, read_sata (data_sector (i_data ino ! ?l)) d2)"
      unfolding unf if_not_P [OF False] g0 using d2(1) g2 i2(2) by simp
    from that [folded ino_def, OF this] show thesis using d2 by simp
  qed
qed

lemma int_min_count: "p \<le> l \<Longrightarrow> int (min c (l - p)) = (if int l \<le> int p + int c then int l - int p else int c)"
  by auto

lemma read_sata_slice:
  assumes d: "disk_ok d" and m: "f_inode fd mod 4 \<noteq> 3" and ok: "inode_ok d (inode_at d (f_inode fd))"
    and len: "length (content d (f_inode fd)) < 7680" and p: "f_pos fd = int p" "p \<le> length (content d (f_inode fd))" "p + count < 2 ^ 31"
  shows "\<exists>d'. read_sata_wrapper fd (int count) d =
      Some (int (min count (length (content d (f_inode fd)) - p)), take count (drop p (content d (f_inode fd))),
        fd\<lparr>f_pos := int (p + min count (length (content d (f_inode fd)) - p))\<rparr>, d') \<and> sectors d' = sectors d \<and> disk_ok d'"
proof -
  let ?L = "unat (file_len (inode_at d (f_inode fd)))"
  let ?n = "min count (?L - p)"
  have L: "length (content d (f_inode fd)) = ?L" using length_content [OF d ok] .
  show ?thesis
  proof (cases "p = ?L")
    case True
    have "sint (file_len (inode_at d (f_inode fd))) = int ?L" using len L by (intro sint_u32) simp
    then have "read_sata_wrapper fd (int count) d = Some (0, [], fd, read_sata (4 + f_inode fd div 4) d)"
      using True p(1) get_inode_at [OF d m] by (simp add: read_sata_wrapper_def Let_def)
    then show ?thesis using True L p(1) d by simp
  next
    case False
    have n: "int ?n = (if int ?L \<le> int p + int count then int ?L - int p else int count)"
      by (rule int_min_count) (use p(2) L in simp)
    have e: "p + ?n \<le> ?L" using p(2) L by simp
    obtain d' where d': "read_sata_wrapper fd (int count) d = Some (int ?n, take ?n (drop p (area d (inode_at d (f_inode fd)))), fd\<lparr>f_pos := int (p + ?n)\<rparr>, d')"
      "sectors d' = sectors d" "disk_ok d'"
      by (rule read_sata_area [OF d m ok _ p(1) e False n]) (use len L p(3) in auto)
    have "take ?n (drop p (area d (inode_at d (f_inode fd)))) = take count (drop p (content d (f_inode fd)))"
    proof -
      have "take ?n (drop p (content d (f_inode fd))) = take count (drop p (content d (f_inode fd)))"
        using L by (cases "count \<le> ?L - p") simp_all
      then show ?thesis using content_slice [OF e] by simp
    qed
    then show ?thesis using d' L by auto
  qed
qed

text \<open>C4. Reading a file: from a position inside it the bytes of its contents are returned, at most \<open>count\<close>
  and not beyond the end, the position moves behind them, and the disk is not changed. (The inode
  must lie in its sector as a whole, the file must leave the last pointer of its inode unused, and
  the sum of position and count must be an \<^verbatim>\<open>int\<close>.)\<close>

theorem read_sata_correct:
  assumes d: "disk_ok d" and m: "f_inode fd mod 4 \<noteq> 3" and ok: "inode_ok d (inode_at d (f_inode fd))"
    and len: "length (content d (f_inode fd)) < 7680" and p: "f_pos fd = int p" "p \<le> length (content d (f_inode fd))" "p + count < 2 ^ 31"
  shows "\<exists>d'. read_sata_wrapper fd (int count) d =
      Some (int (min count (length (content d (f_inode fd)) - p)), take count (drop p (content d (f_inode fd))),
        fd\<lparr>f_pos := int (p + min count (length (content d (f_inode fd)) - p))\<rparr>, d') \<and> sectors d' = sectors d \<and> disk_ok d'"
  by (rule read_sata_slice [OF assms])

text \<open>A disk with one file of two bytes.\<close>

definition sample_inode :: inode where
  "sample_inode = \<lparr>inode_id = 0, file_len = 2, block_count = 1, i_data = replicate 15 0, i_flags = 0\<rparr>"

definition sample_disk :: disk where
  "sample_disk = \<lparr>sectors = (\<lambda>k. if k = 2 then 1 # replicate 511 0 else if k = 4 then inode_bytes sample_inode @ replicate 368 0
     else if k = 34 then [104, 105] @ replicate 510 0 else replicate 512 0), common_buf = replicate 4096 0\<rparr>"

lemma sample_disk_props:
  "disk_ok sample_disk" "inode_at sample_disk 0 = sample_inode" "inode_ok sample_disk sample_inode" "content sample_disk 0 = [104, 105]"
proof -
  have x: "length (inode_bytes sample_inode) = 144" "bytes_inode (inode_bytes sample_inode) = sample_inode"
    by (simp_all add: inode_bytes_inverse sample_inode_def)
  show "disk_ok sample_disk" by (simp add: disk_ok_def sample_disk_def x)
  show i: "inode_at sample_disk 0 = sample_inode" by (simp add: inode_at_def sample_disk_def x)
  have p: "ptrs sample_inode = [0]" by (simp add: ptrs_def sample_inode_def numeral_eq_Suc)
  show "inode_ok sample_disk sample_inode" unfolding inode_ok_def p by (simp add: sample_inode_def sample_disk_def)
  show "content sample_disk 0 = [104, 105]" unfolding content_def i area_def p by (simp add: sample_inode_def sample_disk_def)
qed

theorem read_sata_correct_witness:
  "\<exists>d'. read_sata_wrapper \<lparr>f_inode = 0, f_flags = 0, f_pos = 1, fs_type = 1\<rparr> 5 sample_disk =
    Some (1, [105], \<lparr>f_inode = 0, f_flags = 0, f_pos = 2, fs_type = 1\<rparr>, d')"
  using read_sata_correct [of sample_disk "\<lparr>f_inode = 0, f_flags = 0, f_pos = 1, fs_type = 1\<rparr>" 1 5] sample_disk_props by auto

section \<open>Reading in pieces\<close>

text \<open>
  The contract of a read operation of a file system: from a position in the file it returns the next
  bytes, and the number 0 exactly at the end. A client that reads in pieces until it gets 0 relies
  on nothing else.
\<close>

partial_function (option) read_all ::
  "(sata_file \<Rightarrow> int \<Rightarrow> 's \<Rightarrow> (int \<times> u8 list \<times> sata_file \<times> 's) option) \<Rightarrow> int \<Rightarrow> sata_file \<Rightarrow> 's \<Rightarrow> (u8 list \<times> sata_file \<times> 's) option" where
  "read_all rd n fd s = do {
     (c, bs, fd, s) \<leftarrow> rd fd n s;
     if c = 0 then Some ([], fd, s)
     else do { (cs, fd, s) \<leftarrow> read_all rd n fd s; Some (bs @ cs, fd, s) } }"

locale file_reader =
  fixes rd :: "sata_file \<Rightarrow> int \<Rightarrow> 's \<Rightarrow> (int \<times> u8 list \<times> sata_file \<times> 's) option"
    and bytes :: "'s \<Rightarrow> sata_file \<Rightarrow> u8 list"
    and ready :: "'s \<Rightarrow> sata_file \<Rightarrow> bool"
  assumes rd_slice: "\<lbrakk>ready s fd; f_pos fd = int p; p \<le> length (bytes s fd); p + n < 2 ^ 31\<rbrakk> \<Longrightarrow>
      \<exists>s'. rd fd (int n) s = Some (int (min n (length (bytes s fd) - p)), take n (drop p (bytes s fd)),
          fd\<lparr>f_pos := int (p + min n (length (bytes s fd) - p))\<rparr>, s') \<and> ready s' fd \<and> bytes s' fd = bytes s fd"
    and pos_indep: "bytes s (fd\<lparr>f_pos := q\<rparr>) = bytes s fd" "ready s (fd\<lparr>f_pos := q\<rparr>) = ready s fd"
begin

lemma read_all_bytes:
  assumes "0 < n" and "ready s fd" and "f_pos fd = int p" and "p \<le> length (bytes s fd)" and "length (bytes s fd) + n < 2 ^ 31"
  shows "\<exists>s'. read_all rd (int n) fd s = Some (drop p (bytes s fd), fd\<lparr>f_pos := int (length (bytes s fd))\<rparr>, s')"
  using assms(2-)
proof (induction "length (bytes s fd) - p" arbitrary: s fd p rule: less_induct)
  case less
  let ?L = "length (bytes s fd)" and ?k = "min n (length (bytes s fd) - p)"
  let ?fd = "fd\<lparr>f_pos := int (p + ?k)\<rparr>"
  obtain s1 where s1: "rd fd (int n) s = Some (int ?k, take n (drop p (bytes s fd)), ?fd, s1)" "ready s1 fd" "bytes s1 fd = bytes s fd"
    using rd_slice [OF less.prems(1-3), of n] less.prems(3,4) by fastforce
  show ?case
  proof (cases "p = ?L")
    case True
    then show ?thesis using s1 less.prems(2) by (subst read_all.simps) simp
  next
    case False
    then have k: "0 < ?k" "p + ?k \<le> ?L" using assms(1) less.prems(3) by auto
    have lt: "?L - (p + ?k) < ?L - p" using k by (intro diff_less_mono2) auto
    have b: "bytes s1 ?fd = bytes s fd" "ready s1 ?fd" using s1 pos_indep by auto
    obtain s2 where s2: "read_all rd (int n) ?fd s1 = Some (drop (p + ?k) (bytes s fd), ?fd\<lparr>f_pos := int ?L\<rparr>, s2)"
      using less.hyps [of s1 ?fd "p + ?k"] b k lt less.prems(4) by auto
    have "take n (drop p (bytes s fd)) @ drop (p + ?k) (bytes s fd) = drop p (bytes s fd)"
    proof (cases "n \<le> ?L - p")
      case True
      then show ?thesis using append_take_drop_id [of n "drop p (bytes s fd)"] by (simp add: add.commute)
    qed (use less.prems(3) in simp)
    then show ?thesis using s1(1) s2 k(1) by (subst read_all.simps) simp
  qed
qed

end

definition sata_ready :: "disk \<Rightarrow> sata_file \<Rightarrow> bool" where
  "sata_ready d fd \<longleftrightarrow> disk_ok d \<and> f_inode fd mod 4 \<noteq> 3 \<and> inode_ok d (inode_at d (f_inode fd)) \<and> length (content d (f_inode fd)) < 7680"

interpretation sata: file_reader read_sata_wrapper "\<lambda>d fd. content d (f_inode fd)" sata_ready
proof unfold_locales
  fix d fd p n
  assume r: "sata_ready d fd" and p: "f_pos fd = int p" "p \<le> length (content d (f_inode fd))" "p + n < 2 ^ 31"
  have D: "disk_ok d" "f_inode fd mod 4 \<noteq> 3" "inode_ok d (inode_at d (f_inode fd))" "length (content d (f_inode fd)) < 7680"
    using r by (auto simp: sata_ready_def)
  obtain s' where s': "read_sata_wrapper fd (int n) d = Some (int (min n (length (content d (f_inode fd)) - p)), take n (drop p (content d (f_inode fd))),
      fd\<lparr>f_pos := int (p + min n (length (content d (f_inode fd)) - p))\<rparr>, s')" "sectors s' = sectors d" "disk_ok s'"
    using read_sata_slice [OF D p] by blast
  have "sata_ready s' fd" "content s' (f_inode fd) = content d (f_inode fd)"
    using D s'(3) by (simp_all add: sata_ready_def same_sectors [OF s'(2)])
  then show "\<exists>s'. read_sata_wrapper fd (int n) d = Some (int (min n (length (content d (f_inode fd)) - p)), take n (drop p (content d (f_inode fd))),
      fd\<lparr>f_pos := int (p + min n (length (content d (f_inode fd)) - p))\<rparr>, s') \<and> sata_ready s' fd \<and> content s' (f_inode fd) = content d (f_inode fd)"
    using s'(1) by blast
qed (simp_all add: sata_ready_def)

end
