(* ===== verification/SataWrite.thy ===== *)
theory SataWrite
  imports SataFs
begin

text \<open>
  Writing files on the disk refines updating their contents: the proof of \<^verbatim>\<open>write_sata_wrapper\<close> of
  \<^verbatim>\<open>bin/fs/fs.c\<close>, from the data bitmap over the sectors to the contents of all files.
\<close>

section \<open>The data bitmap\<close>

definition zeros :: "disk \<Rightarrow> nat" where
  "zeros d = length (filter (\<lambda>b. b = 0) (sectors d 2))"

lemma first_free_Some: "first_free i bs = Some k \<Longrightarrow> i \<le> k \<and> k < i + length bs \<and> bs ! (k - i) = 0"
proof (induction bs arbitrary: i)
  case (Cons b bs)
  show ?case
  proof (cases "b = 0")
    case False
    then show ?thesis using Cons.IH [of "i + 1"] Cons.prems by (auto simp: nth_Cons')
  qed (use Cons.prems in auto)
qed simp

lemma first_free_exists: "filter (\<lambda>b. b = 0) bs \<noteq> [] \<Longrightarrow> \<exists>k. first_free i bs = Some k"
  by (induction bs arbitrary: i) auto

lemma zeros_update: "\<lbrakk>i < length xs; xs ! i = 0\<rbrakk> \<Longrightarrow> length (filter (\<lambda>b. b = 0) xs) = Suc (length (filter (\<lambda>b. b = 0) (xs[i := 1 :: u8])))"
  by (induction xs arbitrary: i) (auto simp: nth_Cons split: nat.splits)

lemma set_data_bitmap_ok:
  assumes d: "disk_ok d" and i: "i < 512"
  obtains d' where "set_data_bitmap i d = Some d'" "sectors d' = (sectors d)(2 := (sectors d 2)[i := 1])" "disk_ok d'"
  using set_bitmap_ok [OF assms, of 2] that unfolding set_data_bitmap_def by blast

lemma get_free_data_ok:
  assumes d: "disk_ok d" and "0 < zeros d"
  obtains i where "get_free_data d = (Some i, read_sata 2 d)" "i < 512" "sectors d 2 ! i = 0"
proof -
  have b: "get_buf 0 512 (read_sata 2 d) = sectors d 2" using d by (simp add: get_buf_read disk_okD)
  obtain i where i: "first_free 0 (sectors d 2) = Some i" using first_free_exists [of "sectors d 2" 0] assms(2) by (auto simp: zeros_def)
  then show thesis using b first_free_Some [OF i] d
    by (intro that) (auto simp: get_free_data_def read_data_bitmap_def read_bitmap_def Let_def disk_okD)
qed

text \<open>Allocation appends pointers to sectors that were free and marks them; no other sector changes.\<close>

lemma alloc_blocks_ok:
  assumes "disk_ok d" and "length (i_data ino) = 15" and "unat (block_count ino) + n \<le> 15" and "n \<le> zeros d"
  obtains ino' d' ps where "alloc_blocks n ino d = Some (ino', d')" "disk_ok d'" "ptrs ino' = ptrs ino @ ps" "length ps = n"
    "length (i_data ino') = 15" "unat (block_count ino') = unat (block_count ino) + n" "file_len ino' = file_len ino"
    "distinct ps" "\<forall>p\<in>set ps. unat p < 512 \<and> sectors d 2 ! unat p = 0 \<and> sectors d' 2 ! unat p \<noteq> 0"
    "\<forall>k<512. sectors d 2 ! k \<noteq> 0 \<longrightarrow> sectors d' 2 ! k \<noteq> 0" "\<forall>k. k \<noteq> 2 \<longrightarrow> sectors d' k = sectors d k"
  using assms
proof (induction n arbitrary: ino d thesis)
  case 0
  show ?case by (rule 0(1) [of ino d "[]"]) (use 0(2-) in simp_all)
next
  case (Suc n)
  obtain i where i: "get_free_data d = (Some i, read_sata 2 d)" "i < 512" "sectors d 2 ! i = 0"
    using get_free_data_ok [OF Suc.prems(2)] Suc.prems(5) by auto
  have dr: "disk_ok (read_sata 2 d)" using Suc.prems(2) by simp
  obtain e where e: "set_data_bitmap i (read_sata 2 d) = Some e" "sectors e = (sectors d)(2 := (sectors d 2)[i := 1])" "disk_ok e"
    using set_data_bitmap_ok [OF dr i(2)] by auto
  let ?bc = "unat (block_count ino)"
  let ?ino = "ino\<lparr>i_data := (i_data ino)[?bc := of_nat i], block_count := block_count ino + 1\<rparr>"
  have bc1: "unat (block_count ino + 1) = Suc ?bc" using Suc.prems(4) by (subst unat_add_lt) auto
  have l: "length (sectors d 2) = 512" using Suc.prems(2) by (simp add: disk_okD)
  have z: "n \<le> zeros e" using zeros_update [of i "sectors d 2"] i l Suc.prems(5) by (simp add: zeros_def e(2))
  obtain ino' d' ps where r: "alloc_blocks n ?ino e = Some (ino', d')" "disk_ok d'" "ptrs ino' = ptrs ?ino @ ps" "length ps = n"
    "length (i_data ino') = 15" "unat (block_count ino') = unat (block_count ?ino) + n" "file_len ino' = file_len ?ino"
    "distinct ps" "\<forall>p\<in>set ps. unat p < 512 \<and> sectors e 2 ! unat p = 0 \<and> sectors d' 2 ! unat p \<noteq> 0"
    "\<forall>k<512. sectors e 2 ! k \<noteq> 0 \<longrightarrow> sectors d' 2 ! k \<noteq> 0" "\<forall>k. k \<noteq> 2 \<longrightarrow> sectors d' k = sectors e k"
    using Suc.IH [of ?ino e, OF _ e(3) _ _ z] Suc.prems(3,4) bc1 by (simp, blast)
  have u: "unat (of_nat i :: u64) = i" using i(2) by (simp add: unat_of_nat_lt)
  have p: "ptrs ?ino = ptrs ino @ [of_nat i]" using Suc.prems bc1 by (simp add: ptrs_def take_Suc_conv_app_nth)
  have old: "sectors d 2 ! k = 0 \<and> k \<noteq> i" if "sectors e 2 ! k = 0" "k < 512" for k using that l i by (auto simp: e(2) nth_list_update split: if_splits)
  have keep: "sectors e 2 ! k \<noteq> 0" if "sectors d 2 ! k \<noteq> 0" "k < 512" for k using that l by (cases "k = i") (simp_all add: e(2))
  have mark: "sectors d' 2 ! i \<noteq> 0" using r(10) i l by (simp add: e(2))
  have step: "alloc_blocks (Suc n) ino d = Some (ino', d')"
    using i(1) e(1) r(1) Suc.prems by (simp add: poke_def)
  show ?case
  proof (rule Suc.prems(1) [OF step r(2), of "of_nat i # ps"])
    show "distinct (of_nat i # ps)" using r(8,9) old u by auto
    show "\<forall>q\<in>set (of_nat i # ps). unat q < 512 \<and> sectors d 2 ! unat q = 0 \<and> sectors d' 2 ! unat q \<noteq> 0"
      using r(9) old i mark u by auto
    show "\<forall>k<512. sectors d 2 ! k \<noteq> 0 \<longrightarrow> sectors d' 2 ! k \<noteq> 0" using r(10) keep by blast
    show "\<forall>k. k \<noteq> 2 \<longrightarrow> sectors d' k = sectors d k" using r(11) e(2) by simp
  qed (use r p bc1 in auto)
qed

section \<open>Data sectors\<close>

lemma patch_append:
  assumes "p + length x + length y \<le> length c"
  shows "patch (p + length x) y (patch p x c) = patch p (x @ y) c"
proof -
  have t: "take (p + length x) (patch p x c) = take p c @ x" using assms by (simp add: patch_def)
  have "drop (p + length x + length y) (patch p x c) = drop (p + length x + length y) c"
    using assms by (cases x) (auto simp: patch_def min_def ac_simps)
  then show ?thesis unfolding patch_def [of "p + length x"] t by (simp add: patch_def add.assoc)
qed

lemma patch_append3:
  assumes "p + length x + length y + length z \<le> length c"
  shows "patch (p + length x + length y) z (patch (p + length x) y (patch p x c)) = patch p (x @ y @ z) c"
  using patch_append [of p x y c] patch_append [of p "x @ y" z c] assms by (simp add: add.assoc)

lemma three_pieces:
  fixes a b c n :: nat
  assumes "a + (b + c) = n" and "n \<le> length xs"
  shows "a \<le> length xs" "b \<le> length (drop a xs)" "c \<le> length (drop b (drop a xs))"
    "take a xs @ take b (drop a xs) @ take c (drop b (drop a xs)) = take n xs"
  using assms by (auto simp: take_add add.commute simp flip: assms(1))

lemma concat_patch:
  assumes "\<forall>b\<in>set B. length b = 512" and "k < length B" and "off + length x \<le> 512"
  shows "concat (B[k := patch off x (B ! k)]) = patch (512 * k + off) x (concat B)"
  using assms
proof (induction B arbitrary: k)
  case (Cons b B)
  show ?case
  proof (cases k)
    case 0
    then show ?thesis using Cons.prems by (simp add: patch_def)
  next
    case (Suc m)
    then show ?thesis using Cons.IH [of m] Cons.prems by (simp add: patch_def add.assoc)
  qed
qed simp

lemma write_data_ok:
  assumes d: "disk_ok d" and "off + n \<le> 512" and "n \<le> length bs" and p: "unat p < 512"
  obtains d' where "write_data p bs off (int n) d = Some d'" "disk_ok d'"
    "sectors d' = (sectors d)(34 + unat p := patch off (take n bs) (sectors d (34 + unat p)))"
proof -
  have l: "off + length (take n bs) \<le> 512" using assms by simp
  have s: "write_data p bs off (int n) d = Some (write_sata (34 + unat p) (put_buf off (take n bs) (read_sata (34 + unat p) d)))"
    using assms by (simp add: write_data_def Let_def data_sector_small [OF p])
  show thesis by (rule that [OF s]) (use d l write_back [OF d l, of "34 + unat p"] in simp_all)
qed

lemma area_other:
  assumes "\<forall>q\<in>set (ptrs ino). sectors d' (34 + unat q) = sectors d (34 + unat q)"
  shows "area d' ino = area d ino"
  using assms by (simp add: area_def cong: map_cong)

lemma area_patch:
  assumes d: "disk_ok d" and ok: "inode_ok d ino" and k: "k < unat (block_count ino)" and "off + length x \<le> 512"
    and d': "sectors d' = (sectors d)(34 + unat (i_data ino ! k) := patch off x (sectors d (34 + unat (i_data ino ! k))))"
  shows "area d' ino = patch (512 * k + off) x (area d ino)"
proof -
  let ?B = "map (\<lambda>p. sectors d (34 + unat p)) (ptrs ino)"
  have n: "k < length (ptrs ino)" "ptrs ino ! k = i_data ino ! k" "distinct (ptrs ino)" using ok k by (auto simp: ptrs_def inode_ok_def)
  have "map (\<lambda>p. sectors d' (34 + unat p)) (ptrs ino) = ?B[k := patch off x (?B ! k)]"
  proof (rule nth_equalityI)
    fix j assume "j < length (map (\<lambda>p. sectors d' (34 + unat p)) (ptrs ino))"
    then show "map (\<lambda>p. sectors d' (34 + unat p)) (ptrs ino) ! j = ?B[k := patch off x (?B ! k)] ! j"
      using n nth_eq_iff_index_eq [OF n(3), of j k] by (auto simp: d' nth_list_update simp flip: word_unat_eq_iff)
  qed simp
  then show ?thesis unfolding area_def using concat_patch [of ?B k off x] n assms(4) d by (simp add: disk_okD)
qed

text \<open>A change of data sectors only.\<close>

definition only_data :: "disk \<Rightarrow> disk \<Rightarrow> u64 set \<Rightarrow> bool" where
  "only_data d d' P \<longleftrightarrow> (\<forall>k. (\<forall>p\<in>P. k \<noteq> 34 + unat p) \<longrightarrow> sectors d' k = sectors d k)"

lemma only_data_trans: "\<lbrakk>only_data d d' P; only_data d' d'' P\<rbrakk> \<Longrightarrow> only_data d d'' P"
  by (simp add: only_data_def)

lemma only_data_inode_ok: "only_data d d' P \<Longrightarrow> inode_ok d' ino = inode_ok d ino"
  by (simp add: only_data_def inode_ok_def)

lemma write_block_ok:
  assumes d: "disk_ok d" and ok: "inode_ok d ino" and k: "k < unat (block_count ino)" and n: "off + n \<le> 512" "n \<le> length bs"
  obtains d' where "idx (int k) (i_data ino) = Some (i_data ino ! k)" "write_data (i_data ino ! k) bs off (int n) d = Some d'" "disk_ok d'"
    "area d' ino = patch (512 * k + off) (take n bs) (area d ino)" "only_data d d' (set (ptrs ino))" "inode_ok d' ino"
proof -
  have i: "k < length (i_data ino)" "i_data ino ! k \<in> set (ptrs ino)" "unat (i_data ino ! k) < 512"
    using ok k ptr_small [OF ok k] by (auto simp: inode_ok_def)
  obtain d' where w: "write_data (i_data ino ! k) bs off (int n) d = Some d'" "disk_ok d'"
    "sectors d' = (sectors d)(34 + unat (i_data ino ! k) := patch off (take n bs) (sectors d (34 + unat (i_data ino ! k))))"
    by (rule write_data_ok [OF d n]) (use i(3) in blast)
  have o: "only_data d d' (set (ptrs ino))" using i(2) by (auto simp: only_data_def w(3))
  show thesis using i(1) area_patch [OF d ok k _ w(3)] n only_data_inode_ok [OF o] ok
    by (intro that [OF _ w(1,2) _ o]) (auto simp: idx_def)
qed

lemma write_blocks_ok:
  assumes "disk_ok d" and "inode_ok d ino" and "k + n \<le> unat (block_count ino)" and "512 * n \<le> length bs"
  obtains d' where "write_blocks n (int k) ino bs d = Some (drop (512 * n) bs, d')" "disk_ok d'"
    "area d' ino = patch (512 * k) (take (512 * n) bs) (area d ino)" "only_data d d' (set (ptrs ino))" "inode_ok d' ino"
  using assms
proof (induction n arbitrary: k d bs thesis)
  case 0
  show ?case by (rule 0(1) [of d]) (use 0(2-) in \<open>simp_all add: patch_def only_data_def\<close>)
next
  case (Suc n)
  have k: "k < unat (block_count ino)" "0 + 512 \<le> (512 :: nat)" "512 \<le> length bs" using Suc.prems by auto
  obtain e where e: "idx (int k) (i_data ino) = Some (i_data ino ! k)" "write_data (i_data ino ! k) bs 0 (int 512) d = Some e" "disk_ok e"
    "area e ino = patch (512 * k + 0) (take 512 bs) (area d ino)" "only_data d e (set (ptrs ino))" "inode_ok e ino"
    by (rule write_block_ok [OF Suc.prems(2,3) k])
  obtain d' where d': "write_blocks n (int (Suc k)) ino (drop 512 bs) e = Some (drop (512 * n) (drop 512 bs), d')" "disk_ok d'"
    "area d' ino = patch (512 * Suc k) (take (512 * n) (drop 512 bs)) (area e ino)" "only_data e d' (set (ptrs ino))" "inode_ok d' ino"
    by (rule Suc.IH [OF _ e(3,6), of "Suc k" "drop 512 bs"]) (use Suc.prems(4,5) in auto)
  have la: "length (area d ino) = 512 * unat (block_count ino)" using Suc.prems by (simp add: length_area inode_ok_def)
  have len: "length (take 512 bs) = 512" "length (take (512 * n) (drop 512 bs)) = 512 * n" using Suc.prems(5) by auto
  have bound: "512 * k + length (take 512 bs) + length (take (512 * n) (drop 512 bs)) \<le> length (area d ino)"
    using Suc.prems(4) unfolding len la by simp
  have "area d' ino = patch (512 * k + length (take 512 bs)) (take (512 * n) (drop 512 bs)) (patch (512 * k) (take 512 bs) (area d ino))"
    unfolding len(1) using d'(3) e(4) by (simp add: add.commute)
  then have "area d' ino = patch (512 * k) (take 512 bs @ take (512 * n) (drop 512 bs)) (area d ino)"
    unfolding patch_append [OF bound] .
  moreover have "take 512 bs @ take (512 * n) (drop 512 bs) = take (512 * Suc n) bs" using take_add [of 512 "512 * n" bs] by simp
  moreover have "write_blocks (Suc n) (int k) ino bs d = Some (drop (512 * Suc n) bs, d')" using e(1,2) d'(1) by (simp add: add.commute)
  ultimately show ?case using d' only_data_trans [OF e(5) d'(4)] by (intro Suc.prems(1) [of d']) simp_all
qed

lemma write_span_ok:
  assumes d: "disk_ok d" and ok: "inode_ok d ino" and l: "(p + n) div 512 < unat (block_count ino)" and n: "n \<le> length bs"
  obtains d' where "write_span (int p) (int n) ino bs d = Some d'" "disk_ok d'"
    "area d' ino = patch p (take n bs) (area d ino)" "only_data d d' (set (ptrs ino))" "inode_ok d' ino"
proof -
  let ?f = "p div 512" and ?l = "(p + n) div 512"
  have conv: "int p div 512 = int ?f" "(int p + int n) div 512 = int ?l" "int p mod 512 = int (p mod 512)" "(int p + int n) mod 512 = int ((p + n) mod 512)"
    by (simp_all add: zdiv_int zmod_int)
  have f: "?f < unat (block_count ino)" using l div_le_mono [of p "p + n" 512] by simp
  have la: "length (area d ino) = 512 * unat (block_count ino)" using d ok by (simp add: length_area inode_ok_def)
  have pm: "512 * ?f + p mod 512 = p" by simp
  show thesis
  proof (cases "?f = ?l")
    case True
    have o: "p mod 512 + n \<le> 512" using same_block [OF True] by simp
    obtain d' where w: "idx (int ?f) (i_data ino) = Some (i_data ino ! ?f)" "write_data (i_data ino ! ?f) bs (p mod 512) (int n) d = Some d'" "disk_ok d'"
      "area d' ino = patch (512 * ?f + p mod 512) (take n bs) (area d ino)" "only_data d d' (set (ptrs ino))" "inode_ok d' ino"
      by (rule write_block_ok [OF d ok f o n])
    have "write_span (int p) (int n) ino bs d = Some d'"
      unfolding write_span_def Let_def conv using w(1,2) arg_cong [OF True, of int] by (simp only: if_True if_P nat_int Option.bind.simps)
    then show thesis using w(3-) unfolding pm by (rule that)
  next
    case False
    let ?a = "512 - p mod 512" and ?k = "?l - 1 - ?f" and ?c = "(p + n) mod 512"
    note sr = split_range [OF le_add1 False]
    have n3: "?a + (512 * ?k + ?c) = n" using sr(1-3) by linarith
    have a: "p mod 512 + ?a \<le> 512" "?a \<le> length bs" using three_pieces(1) [OF n3 n] by auto
    obtain d1 where w1: "idx (int ?f) (i_data ino) = Some (i_data ino ! ?f)" "write_data (i_data ino ! ?f) bs (p mod 512) (int ?a) d = Some d1" "disk_ok d1"
      "area d1 ino = patch (512 * ?f + p mod 512) (take ?a bs) (area d ino)" "only_data d d1 (set (ptrs ino))" "inode_ok d1 ino"
      by (rule write_block_ok [OF d ok f a])
    have b: "?f + 1 + ?k \<le> unat (block_count ino)" "512 * ?k \<le> length (drop ?a bs)" using sr(4) l three_pieces(2) [OF n3 n] by auto
    obtain d2 where w2: "write_blocks ?k (int (?f + 1)) ino (drop ?a bs) d1 = Some (drop (512 * ?k) (drop ?a bs), d2)" "disk_ok d2"
      "area d2 ino = patch (512 * (?f + 1)) (take (512 * ?k) (drop ?a bs)) (area d1 ino)" "only_data d1 d2 (set (ptrs ino))" "inode_ok d2 ino"
      by (rule write_blocks_ok [OF w1(3,6) b])
    note c = three_pieces(3) [OF n3 n]
    have z: "0 + ?c \<le> 512" using mod_less_divisor [of 512 "p + n"] by linarith
    obtain d3 where w3: "idx (int ?l) (i_data ino) = Some (i_data ino ! ?l)" "write_data (i_data ino ! ?l) (drop (512 * ?k) (drop ?a bs)) 0 (int ?c) d2 = Some d3" "disk_ok d3"
      "area d3 ino = patch (512 * ?l + 0) (take ?c (drop (512 * ?k) (drop ?a bs))) (area d2 ino)" "only_data d2 d3 (set (ptrs ino))" "inode_ok d3 ino"
      by (rule write_block_ok [OF w2(2,5) l z c])
    have ci: "nat (int ?l - 1 - int ?f) = ?k" "int ?f + 1 = int (?f + 1)" "512 - int (p mod 512) = int ?a" by auto
    have "write_span (int p) (int n) ino bs d = Some d3"
      unfolding write_span_def Let_def conv ci nat_int using w1(1,2) w2(1) w3(1,2) False by simp
    moreover have "area d3 ino = patch p (take n bs) (area d ino)"
    proof -
      let ?x = "take ?a bs" and ?y = "take (512 * ?k) (drop ?a bs)" and ?z = "take ?c (drop (512 * ?k) (drop ?a bs))"
      have len: "length ?x = ?a" "length ?y = 512 * ?k" "length ?z = ?c" using a(2) b(2) c by (auto simp only: length_take min_absorb2)
      have at: "512 * (?f + 1) = p + length ?x" "512 * ?l + 0 = p + length ?x + length ?y" using sr(1,2) unfolding len by simp_all
      have "512 * ?l + ?c \<le> 512 * unat (block_count ino)" using l mod_less_divisor [of 512 "p + n"] by linarith
      then have bound: "p + length ?x + length ?y + length ?z \<le> length (area d ino)" unfolding at(2) [symmetric] la len(3) by simp
      show ?thesis unfolding w3(4) w2(3) w1(4) pm at patch_append3 [OF bound] three_pieces(4) [OF n3 n] ..
    qed
    ultimately show thesis using w3(3,6) only_data_trans [OF only_data_trans [OF w1(5) w2(4)] w3(5)] by (intro that)
  qed
qed

section \<open>Files\<close>

text \<open>The files \<open>I\<close> of a disk: well-formed inodes that share no sector.\<close>

definition fs_inv :: "disk \<Rightarrow> nat set \<Rightarrow> bool" where
  "fs_inv d I \<longleftrightarrow> disk_ok d \<and> (\<forall>i\<in>I. i < 40 \<and> i mod 4 \<noteq> 3 \<and> inode_ok d (inode_at d i)) \<and>
     (\<forall>i\<in>I. \<forall>j\<in>I. i \<noteq> j \<longrightarrow> set (ptrs (inode_at d i)) \<inter> set (ptrs (inode_at d j)) = {})"

lemma fs_invD:
  assumes "fs_inv d I" and "i \<in> I"
  shows "disk_ok d" "i < 40" "i mod 4 \<noteq> 3" "inode_ok d (inode_at d i)"
    "\<lbrakk>j \<in> I; j \<noteq> i\<rbrakk> \<Longrightarrow> set (ptrs (inode_at d i)) \<inter> set (ptrs (inode_at d j)) = {}"
  using assms unfolding fs_inv_def by blast+

lemma sectors_eq_inode_at: "(\<forall>k. 4 \<le> k \<and> k < 14 \<longrightarrow> sectors d' k = sectors d k) \<Longrightarrow> i < 40 \<Longrightarrow> inode_at d' i = inode_at d i"
  by (simp add: inode_at_def)

text \<open>The effect of a write on the sectors, in terms of the inodes: \<open>x\<close> is the new inode of file \<open>i\<close>, which
  keeps its sectors and gets new ones that were free.\<close>

lemma fs_inv_update:
  assumes inv: "fs_inv d I" and i: "i \<in> I" and d': "disk_ok d'" and x: "inode_ok d' x" "set (ptrs x) \<subseteq> set (ptrs (inode_at d i)) \<union> {p. unat p < 512 \<and> sectors d 2 ! unat p = 0}"
    and ino: "\<forall>j\<in>I. inode_at d' j = (if j = i then x else inode_at d j)"
    and bm: "\<forall>k<512. sectors d 2 ! k \<noteq> 0 \<longrightarrow> sectors d' 2 ! k \<noteq> 0"
    and data: "\<forall>k\<ge>34. (\<forall>p\<in>set (ptrs x). k \<noteq> 34 + unat p) \<longrightarrow> sectors d' k = sectors d k"
  shows "fs_inv d' I" and "\<forall>j\<in>I - {i}. content d' j = content d j"
proof -
  have dis: "set (ptrs x) \<inter> set (ptrs (inode_at d j)) = {}" if "j \<in> I" "j \<noteq> i" for j
    using fs_invD(5) [OF inv i that] fs_invD(4) [OF inv that(1)] x(2) by (auto simp: inode_ok_def)
  have okj: "inode_ok d' (inode_at d j)" if "j \<in> I" for j using fs_invD(4) [OF inv that] bm by (auto simp: inode_ok_def)
  show "fs_inv d' I"
    unfolding fs_inv_def using d' okj x(1) ino dis fs_invD [OF inv] by (auto simp: Int_commute)
  show "\<forall>j\<in>I - {i}. content d' j = content d j"
  proof
    fix j assume j: "j \<in> I - {i}"
    have "sectors d' (34 + unat q) = sectors d (34 + unat q)" if "q \<in> set (ptrs (inode_at d j))" for q
    proof -
      have "\<forall>p\<in>set (ptrs x). 34 + unat q \<noteq> 34 + unat p" using dis [of j] j that by (auto simp flip: word_unat_eq_iff)
      then show ?thesis using data by simp
    qed
    then have "area d' (inode_at d j) = area d (inode_at d j)" by (intro area_other) simp
    then show "content d' j = content d j" using ino j by (simp add: content_def)
  qed
qed

lemma take_patch:
  assumes "p \<le> l" and "l \<le> length a" and "p + length b \<le> length (a @ r)"
  shows "take (max l (p + length b)) (patch p b (a @ r)) = take p (take l a) @ b @ drop (p + length b) (take l a)"
proof (cases "l \<le> p + length b")
  case True
  then show ?thesis using assms by (auto simp: patch_def max_def min_def)
next
  case False
  then have "take (l - (p + length b)) (drop (p + length b) (a @ r)) = drop (p + length b) (take l a)"
    using assms(2) by (simp add: drop_take)
  then show ?thesis using assms False by (simp add: patch_def max_def min_def)
qed

text \<open>The allocation of the sectors a write needs, on a well-formed inode.\<close>

lemma alloc_for_write:
  assumes d: "disk_ok d" and ok: "inode_ok d ino" and l: "lb < 15" and z: "lb + 1 - unat (block_count ino) \<le> zeros d"
  obtains ino1 d1 where "alloc_blocks (nat (int lb - (sint (block_count ino) - 1))) ino d = Some (ino1, d1)" "disk_ok d1" "inode_ok d1 ino1"
    "lb < unat (block_count ino1)" "file_len ino1 = file_len ino" "\<exists>r. area d1 ino1 = area d ino @ r"
    "set (ptrs ino1) \<subseteq> set (ptrs ino) \<union> {p. unat p < 512 \<and> sectors d 2 ! unat p = 0}"
    "\<forall>k<512. sectors d 2 ! k \<noteq> 0 \<longrightarrow> sectors d1 2 ! k \<noteq> 0" "\<forall>k. k \<noteq> 2 \<longrightarrow> sectors d1 k = sectors d k"
proof -
  let ?m = "lb + 1 - unat (block_count ino)"
  have i: "length (i_data ino) = 15" "unat (block_count ino) \<le> 15" "distinct (ptrs ino)" using ok by (auto simp: inode_ok_def)
  have "sint (block_count ino) = int (unat (block_count ino))" using i(2) by (intro sint_u32) simp
  moreover have "nat (int a - (int b - 1)) = a + 1 - b" for a b :: nat by auto
  ultimately have m: "nat (int lb - (sint (block_count ino) - 1)) = ?m" by (simp only:)
  have b: "unat (block_count ino) + ?m \<le> 15" using i(2) l by auto
  obtain ino1 d1 ps where a: "alloc_blocks ?m ino d = Some (ino1, d1)" "disk_ok d1" "ptrs ino1 = ptrs ino @ ps" "length ps = ?m"
    "length (i_data ino1) = 15" "unat (block_count ino1) = unat (block_count ino) + ?m" "file_len ino1 = file_len ino"
    "distinct ps" "\<forall>p\<in>set ps. unat p < 512 \<and> sectors d 2 ! unat p = 0 \<and> sectors d1 2 ! unat p \<noteq> 0"
    "\<forall>k<512. sectors d 2 ! k \<noteq> 0 \<longrightarrow> sectors d1 2 ! k \<noteq> 0" "\<forall>k. k \<noteq> 2 \<longrightarrow> sectors d1 k = sectors d k"
    by (rule alloc_blocks_ok [OF d i(1) b z])
  have "set (ptrs ino) \<inter> set ps = {}" using ok a(9) by (auto simp: inode_ok_def)
  then have "distinct (ptrs ino1)" using a(3,8) i(3) by simp
  moreover have "unat p < 512 \<and> sectors d1 2 ! unat p \<noteq> 0" if "p \<in> set (ptrs ino1)" for p using that a(3,9,10) ok by (auto simp: inode_ok_def)
  moreover have "unat (file_len ino1) \<le> 512 * unat (block_count ino1)" using ok a(6,7) by (auto simp: inode_ok_def)
  ultimately have ok1: "inode_ok d1 ino1" using a(5,6) b by (simp add: inode_ok_def)
  have "area d1 ino = area d ino" using a(11) by (intro area_other) simp
  then have "area d1 ino1 = area d ino @ concat (map (\<lambda>p. sectors d1 (34 + unat p)) ps)" by (simp add: area_def a(3))
  moreover have "set (ptrs ino1) \<subseteq> set (ptrs ino) \<union> {p. unat p < 512 \<and> sectors d 2 ! unat p = 0}" using a(3,9) by auto
  moreover have "lb < unat (block_count ino1)" using a(6) by simp
  ultimately show thesis using a ok1 m by (intro that [of ino1 d1]) auto
qed

lemma file_len_update:
  assumes "p + n < 7680" and "unat (file_len ino) \<le> 7680"
  defines "x \<equiv> (if sint (file_len ino) \<le> int (p + n) then ino\<lparr>file_len := word_of_int (int (p + n))\<rparr> else ino)"
  shows "unat (file_len x) = max (unat (file_len ino)) (p + n)" "i_data x = i_data ino" "block_count x = block_count ino" "ptrs x = ptrs ino"
proof -
  have s: "sint (file_len ino) = int (unat (file_len ino))" using assms(2) by (intro sint_u32) simp
  have u: "unat (word_of_int (int (p + n)) :: u32) = p + n" using unat_of_nat_lt [of "p + n", where 'a = 32] assms(1) by simp
  have c: "int (unat (file_len ino)) \<le> int (p + n) \<longleftrightarrow> unat (file_len ino) \<le> p + n" by (rule of_nat_le_iff)
  show "unat (file_len x) = max (unat (file_len ino)) (p + n)"
  proof (cases "unat (file_len ino) \<le> p + n")
    case True
    then have "file_len x = word_of_int (int (p + n))" unfolding x_def s c by simp
    then have "unat (file_len x) = p + n" by (simp only: u)
    then show ?thesis using True by simp
  next
    case False
    then show ?thesis unfolding x_def s c by simp
  qed
qed (simp_all add: x_def ptrs_def)

text \<open>The run of a write: \<open>d1\<close> is the disk after the allocation, \<open>d2\<close> after the data is written, \<open>x\<close> the new
  inode.\<close>

lemma write_sata_run:
  assumes inv: "fs_inv d I" and i: "f_inode fd \<in> I" and p: "f_pos fd = int p" and n: "n \<le> length buf" and lb: "(p + n) div 512 < 15"
    and z: "(p + n) div 512 + 1 - unat (block_count (inode_at d (f_inode fd))) \<le> zeros d"
  obtains d1 d2 ino1 x where "write_sata_wrapper fd buf (int n) d =
      Some (int n, fd\<lparr>f_pos := int (p + n)\<rparr>, read_sata (4 + f_inode fd div 4) (write_inode (f_inode fd) x d2))"
    "disk_ok d1" "inode_ok d1 ino1" "p + n < 512 * unat (block_count ino1)" "file_len ino1 = file_len (inode_at d (f_inode fd))"
    "\<exists>r. area d1 ino1 = area d (inode_at d (f_inode fd)) @ r"
    "set (ptrs ino1) \<subseteq> set (ptrs (inode_at d (f_inode fd))) \<union> {p. unat p < 512 \<and> sectors d 2 ! unat p = 0}"
    "\<forall>k<512. sectors d 2 ! k \<noteq> 0 \<longrightarrow> sectors d1 2 ! k \<noteq> 0" "\<forall>k. k \<noteq> 2 \<longrightarrow> sectors d1 k = sectors d k"
    "disk_ok d2" "area d2 ino1 = patch p (take n buf) (area d1 ino1)" "only_data d1 d2 (set (ptrs ino1))"
    "unat (file_len x) = max (unat (file_len ino1)) (p + n)" "i_data x = i_data ino1" "block_count x = block_count ino1" "ptrs x = ptrs ino1"
proof -
  define ino where "ino = inode_at d (f_inode fd)"
  let ?d0 = "read_sata (4 + f_inode fd div 4) d" and ?l = "(p + n) div 512"
  note D = fs_invD [OF inv i]
  have d0: "disk_ok ?d0" "inode_ok ?d0 ino" using D(1,4) same_sectors(2) [of ?d0 d] by (auto simp: ino_def)
  have z0: "?l + 1 - unat (block_count ino) \<le> zeros ?d0" using z by (simp add: zeros_def ino_def)
  obtain ino1 d1 where a: "alloc_blocks (nat (int ?l - (sint (block_count ino) - 1))) ino ?d0 = Some (ino1, d1)" "disk_ok d1" "inode_ok d1 ino1"
    "?l < unat (block_count ino1)" "file_len ino1 = file_len ino" "\<exists>r. area d1 ino1 = area ?d0 ino @ r"
    "set (ptrs ino1) \<subseteq> set (ptrs ino) \<union> {p. unat p < 512 \<and> sectors ?d0 2 ! unat p = 0}"
    "\<forall>k<512. sectors ?d0 2 ! k \<noteq> 0 \<longrightarrow> sectors d1 2 ! k \<noteq> 0" "\<forall>k. k \<noteq> 2 \<longrightarrow> sectors d1 k = sectors ?d0 k"
    by (rule alloc_for_write [OF d0(1,2) lb z0])
  obtain d2 where w: "write_span (int p) (int n) ino1 buf d1 = Some d2" "disk_ok d2" "area d2 ino1 = patch p (take n buf) (area d1 ino1)"
    "only_data d1 d2 (set (ptrs ino1))" by (rule write_span_ok [OF a(2-4) n])
  define x where "x = (if sint (file_len ino1) \<le> int (p + n) then ino1\<lparr>file_len := word_of_int (int (p + n))\<rparr> else ino1)"
  have pn: "p + n < 7680" using lb by (simp add: div_less_iff_less_mult)
  have o1: "unat (file_len ino1) \<le> 512 * unat (block_count ino1)" "unat (block_count ino1) \<le> 15" "length (i_data ino1) = 15" using a(3) by (auto simp: inode_ok_def)
  have X: "unat (file_len x) = max (unat (file_len ino1)) (p + n)" "i_data x = i_data ino1" "block_count x = block_count ino1" "ptrs x = ptrs ino1"
    using file_len_update [OF pn, of ino1] o1(1,2) unfolding x_def by auto
  have x15: "length (i_data x) = 15" by (simp add: X(2) o1(3))
  have c: "(int p + int n) div 512 = int ?l" "int p + int n = int (p + n)" by (simp_all add: zdiv_int)
  have run: "write_sata_wrapper fd buf (int n) d =
      Some (int n, fd\<lparr>f_pos := int (p + n)\<rparr>, read_sata (4 + f_inode fd div 4) (write_inode (f_inode fd) x d2))"
    unfolding write_sata_wrapper_def get_inode_at [OF D(1,3)] Let_def split ino_def [symmetric] p c(1) a(1)
    using w(1) pn unfolding c(2)
    by (simp add: x_def [symmetric] get_inode_at [OF write_inode_sectors(2) [OF w(2) D(3) x15] D(3)] del: of_nat_add of_int_of_nat_eq cong: if_cong split del: if_split)
  have "p + n < 512 * unat (block_count ino1)" using a(4) by (simp add: div_less_iff_less_mult mult.commute)
  then show thesis using a w X by (intro that [OF run, folded ino_def, of d1 ino1]) simp_all
qed

text \<open>C3. Writing a file: on a disk whose files share no sector, writing inside a file or at its end, with
  enough free sectors and at most 15 of them in the file, succeeds and replaces exactly the bytes
  from the position on, extending the file if necessary. The contents of all other files and the
  invariant of the disk are kept.\<close>

theorem write_sata_correct:
  assumes inv: "fs_inv d I" and i: "f_inode fd \<in> I" and p: "f_pos fd = int p" "p \<le> length (content d (f_inode fd))"
    and n: "n \<le> length buf" and lb: "(p + n) div 512 < 15" and z: "(p + n) div 512 + 1 - unat (block_count (inode_at d (f_inode fd))) \<le> zeros d"
  shows "\<exists>d'. write_sata_wrapper fd buf (int n) d = Some (int n, fd\<lparr>f_pos := int (p + n)\<rparr>, d') \<and> fs_inv d' I \<and>
    content d' (f_inode fd) = take p (content d (f_inode fd)) @ take n buf @ drop (p + n) (content d (f_inode fd)) \<and>
    (\<forall>j\<in>I - {f_inode fd}. content d' j = content d j)"
proof -
  let ?i = "f_inode fd" and ?ino = "inode_at d (f_inode fd)"
  note D = fs_invD [OF inv i]
  obtain d1 d2 ino1 x where a: "write_sata_wrapper fd buf (int n) d =
      Some (int n, fd\<lparr>f_pos := int (p + n)\<rparr>, read_sata (4 + f_inode fd div 4) (write_inode (f_inode fd) x d2))"
    "disk_ok d1" "inode_ok d1 ino1" "p + n < 512 * unat (block_count ino1)" "file_len ino1 = file_len ?ino" "\<exists>r. area d1 ino1 = area d ?ino @ r"
    "set (ptrs ino1) \<subseteq> set (ptrs ?ino) \<union> {p. unat p < 512 \<and> sectors d 2 ! unat p = 0}"
    "\<forall>k<512. sectors d 2 ! k \<noteq> 0 \<longrightarrow> sectors d1 2 ! k \<noteq> 0" "\<forall>k. k \<noteq> 2 \<longrightarrow> sectors d1 k = sectors d k"
    and w: "disk_ok d2" "area d2 ino1 = patch p (take n buf) (area d1 ino1)" "only_data d1 d2 (set (ptrs ino1))"
    and X: "unat (file_len x) = max (unat (file_len ino1)) (p + n)" "i_data x = i_data ino1" "block_count x = block_count ino1" "ptrs x = ptrs ino1"
    by (rule write_sata_run [OF inv i p(1) n lb z])
  let ?d3 = "write_inode ?i x d2"
  let ?d4 = "read_sata (4 + ?i div 4) ?d3"
  have x15: "length (i_data x) = 15" using X(2) a(3) by (simp add: inode_ok_def)
  note wi = write_inode_sectors [OF w(1) D(3) x15]
  have s4: "sectors ?d4 k = sectors d2 k" if "k < 4 \<or> 14 \<le> k" for k using that D(2) wi(1) by auto
  have b2: "sectors ?d4 2 = sectors d1 2" using s4 [of 2] w(3) by (auto simp: only_data_def)
  have okx: "inode_ok ?d4 x" using a(3,4) X b2 by (simp add: inode_ok_def)
  have at: "inode_at ?d4 j = (if j = ?i then x else inode_at d j)" if "j \<in> I" for j
  proof -
    have "inode_at d2 j = inode_at d j" using w(3) a(9) fs_invD(2) [OF inv that] by (intro sectors_eq_inode_at) (auto simp: only_data_def)
    then show ?thesis using inode_at_write [OF w(1) D(3) fs_invD(3) [OF inv that] x15] same_sectors(3) [of ?d4 ?d3] by simp
  qed
  have data: "\<forall>k\<ge>34. (\<forall>q\<in>set (ptrs x). k \<noteq> 34 + unat q) \<longrightarrow> sectors ?d4 k = sectors d k"
    using s4 w(3) a(9) X(4) by (auto simp: only_data_def)
  have upd: "fs_inv ?d4 I" "\<forall>j\<in>I - {?i}. content ?d4 j = content d j"
    by (rule fs_inv_update [OF inv i _ okx _ _ _ data]; use wi(2) a(7,8) b2 X(4) at in simp)+
  obtain r where r: "area d1 ino1 = area d ?ino @ r" using a(6) by auto
  have ax: "area ?d4 x = patch p (take n buf) (area d ?ino @ r)" using s4 X(4) w(2) r by (simp add: area_def)
  have len: "length (take n buf) = n" using n by simp
  have bounds: "p \<le> unat (file_len ?ino)" "unat (file_len ?ino) \<le> length (area d ?ino)" "p + length (take n buf) \<le> length (area d ?ino @ r)"
    using D(1,4) a(2-4) r [symmetric] p(2) length_content [OF D(1,4)] len by (auto simp: length_area inode_ok_def)
  have "content ?d4 ?i = take p (content d ?i) @ take n buf @ drop (p + n) (content d ?i)"
    using take_patch [OF bounds] X(1) a(5) at [OF i] ax unfolding len by (simp add: content_def)
  then show ?thesis using a(1) upd by blast
qed

theorem write_sata_correct_witness:
  "\<exists>d'. write_sata_wrapper \<lparr>f_inode = 0, f_flags = 0, f_pos = 2, fs_type = 1\<rparr> [33, 10, 0] 2 sample_disk =
    Some (2, \<lparr>f_inode = 0, f_flags = 0, f_pos = 4, fs_type = 1\<rparr>, d') \<and> content d' 0 = [104, 105, 33, 10]"
proof -
  have "fs_inv sample_disk {0}" using sample_disk_props by (simp add: fs_inv_def)
  then show ?thesis
    using write_sata_correct [of sample_disk "{0}" "\<lparr>f_inode = 0, f_flags = 0, f_pos = 2, fs_type = 1\<rparr>" 2 2 "[33, 10, 0]"]
      sample_disk_props by (auto simp: sample_inode_def)
qed

end
