(* ===== verification/Tarfs.thy ===== *)
theory Tarfs
  imports SataFs
begin

text \<open>
  The archive file system of the file server, \<^verbatim>\<open>bin/fs/tarfs.c\<close>: at the start the archive is scanned
  and every header becomes a directory entry and an inode that points to the data in the archive.
  Pointers to entries are their positions in the table \<^verbatim>\<open>tarfs_entry\<close>, pointers to data are offsets in
  the archive; names are C strings without their NUL. \<open>None\<close> is an access outside an array or outside
  the archive, or an \<^verbatim>\<open>int\<close> that overflows.
\<close>

section \<open>State\<close>

record tar_inode =
  t_block_count :: int
  t_file_len :: int
  t_data :: nat

record tar_dentry =
  td_parent :: "nat option"
  td_subdirs :: "nat option list"
  td_iname :: "u8 list"

record tarfs =
  archive :: "u8 list"
  tarfs_entry :: "tar_dentry list"
  tarfs_inode :: "tar_inode list"

section \<open>Building the tables\<close>

fun oct_to_int :: "int \<Rightarrow> u8 list \<Rightarrow> int option" where
  "oct_to_int r [] = Some r"
| "oct_to_int r (c # cs) = (let r = 8 * r + sint c - 48 in
     if - (2 ^ 31) \<le> r \<and> r < 2 ^ 31 then oct_to_int r cs else None)"

fun index_of :: "nat \<Rightarrow> u8 list \<Rightarrow> tar_dentry list \<Rightarrow> nat option" where
  "index_of i name [] = None"
| "index_of i name (e # es) = (if td_iname e = name then Some i else index_of (i + 1) name es)"

definition get_file_index :: "u8 list \<Rightarrow> tarfs \<Rightarrow> nat option" where
  "get_file_index name t = index_of 0 name (tarfs_entry t)"

text \<open>The directory part of a name: up to its last slash, the root for a slash in front.\<close>

definition parent_dir :: "u8 list \<Rightarrow> u8 list" where
  "parent_dir name = (let pre = rev (dropWhile (\<lambda>c. c \<noteq> 47) (rev name)) in
     if pre = [] then [] else if length pre = 1 then [47] else butlast pre)"

definition get_parent :: "u8 list \<Rightarrow> tarfs \<Rightarrow> nat option" where
  "get_parent name t = index_of 0 (parent_dir name) (tarfs_entry t)"

text \<open>The first of the slots that is free gets the new entry; without one the entry is not linked.\<close>

fun link_subdir :: "nat \<Rightarrow> nat option list \<Rightarrow> nat option list" where
  "link_subdir k [] = []"
| "link_subdir k (None # ds) = Some k # ds"
| "link_subdir k (d # ds) = d # link_subdir k ds"

definition tarfs_node_init :: "nat option \<Rightarrow> u8 list \<Rightarrow> tar_inode \<Rightarrow> tarfs \<Rightarrow> tarfs option" where
  "tarfs_node_init par name ino t = do {
     let n = length (tarfs_entry t);
     guard (n < 200 \<and> length name < 30);
     let es = (case par of None \<Rightarrow> tarfs_entry t
       | Some p \<Rightarrow> (tarfs_entry t)[p := (tarfs_entry t ! p)\<lparr>td_subdirs := link_subdir n (td_subdirs (tarfs_entry t ! p))\<rparr>]);
     Some (t\<lparr>tarfs_entry := es @ [\<lparr>td_parent = par, td_subdirs = replicate 30 None, td_iname = name\<rparr>],
       tarfs_inode := tarfs_inode t @ [ino]\<rparr>) }"

definition change_format :: "u8 \<Rightarrow> u8 list \<Rightarrow> u8 list" where
  "change_format ch str = (if (ch # str) ! length str = 47 then take (length str) (ch # str) else ch # str)"

text \<open>The scan from the header at \<open>off\<close> on. The name field has 100 bytes; one more character is put into
  it, and a longer name would run into the next field. The code puts the character into the header in
  the archive itself; no header is read again after its step and the data of the files lie between the
  headers, so the field \<open>archive\<close> keeps the old bytes.\<close>

function tarfs_scan :: "u8 list \<Rightarrow> nat \<Rightarrow> tarfs \<Rightarrow> tarfs option" where
  "tarfs_scan a off t =
     (if off = length a then Some t
      else if length a < off + 512 then None
      else do {
        name \<leftarrow> cstr_at off a;
        if name = [] then Some t
        else do {
          guard (length name < 99);
          let name = change_format 47 name;
          digits \<leftarrow> cstr_at (off + 124) a;
          size \<leftarrow> oct_to_int 0 digits;
          guard (0 \<le> size);
          let blocks = (if size mod 512 = 0 then size div 512 else size div 512 + 1);
          t \<leftarrow> tarfs_node_init (get_parent name t) name \<lparr>t_block_count = blocks, t_file_len = size, t_data = off + 512\<rparr> t;
          tarfs_scan a (off + 512 * nat blocks + 512) t } })"
  by auto
termination by (relation "measure (\<lambda>(a, off, t). length a - off)") auto

definition tarfs_init :: "u8 list \<Rightarrow> tarfs option" where
  "tarfs_init a = do {
     t \<leftarrow> tarfs_node_init None [47] \<lparr>t_block_count = 1, t_file_len = 0, t_data = 0\<rparr> \<lparr>archive = a, tarfs_entry = [], tarfs_inode = []\<rparr>;
     tarfs_scan a 0 t }"

section \<open>Files and directories\<close>

definition tarfs_open :: "u8 list \<Rightarrow> u32 \<Rightarrow> tarfs \<Rightarrow> sata_file option" where
  "tarfs_open name flags t = map_option (\<lambda>i. \<lparr>f_inode = i, f_flags = 0, f_pos = 0, fs_type = 0\<rparr>) (get_file_index name t)"

text \<open>The bytes read are returned. The code writes a NUL behind them, into the byte its callers in the file
  server ask for beyond the count.\<close>

definition tarfs_read :: "sata_file \<Rightarrow> int \<Rightarrow> tarfs \<Rightarrow> (int \<times> u8 list \<times> sata_file \<times> tarfs) option" where
  "tarfs_read fd count t = do {
     guard (f_inode fd < length (tarfs_inode t));
     let ino = tarfs_inode t ! f_inode fd;
     if f_pos fd = t_file_len ino then Some (0, [], fd, t)
     else do {
       guard (f_pos fd + count < 2 ^ 31);
       let count = (if t_file_len ino \<le> f_pos fd + count then t_file_len ino - f_pos fd else count);
       guard (count \<le> 0 \<or> 0 \<le> f_pos fd \<and> int (t_data ino) + f_pos fd + count \<le> int (length (archive t)));
       Some (count, take (nat count) (drop (t_data ino + nat (f_pos fd)) (archive t)), fd\<lparr>f_pos := f_pos fd + count\<rparr>, t) } }"

record dentry_reader =
  r_dentry :: nat
  r_offset :: nat

text \<open>The code asks \<^verbatim>\<open>malloc\<close> for the size of a pointer, 8 bytes; the block it gets has 40, enough for a reader.\<close>

definition open_tarfs_dir :: "u8 list \<Rightarrow> tarfs \<Rightarrow> dentry_reader option" where
  "open_tarfs_dir path t = map_option (\<lambda>i. \<lparr>r_dentry = i, r_offset = 0\<rparr>) (get_file_index path t)"

definition read_tarfs_dir :: "dentry_reader \<Rightarrow> tarfs \<Rightarrow> (nat option \<times> dentry_reader) option" where
  "read_tarfs_dir r t = do {
     guard (r_dentry r < length (tarfs_entry t));
     let ds = td_subdirs (tarfs_entry t ! r_dentry r);
     guard (r_offset r < length ds);
     Some (ds ! r_offset r, if ds ! r_offset r = None then r else r\<lparr>r_offset := r_offset r + 1\<rparr>) }"

section \<open>Archives\<close>

text \<open>An archive of regular files: headers with the name and the size in octal, the data padded to whole
  blocks, and a block of zeros behind the last file.\<close>

fun octal :: "nat \<Rightarrow> nat \<Rightarrow> u8 list" where
  "octal 0 x = []"
| "octal (Suc n) x = octal n (x div 8) @ [48 + of_nat (x mod 8)]"

definition tar_header :: "u8 list \<Rightarrow> nat \<Rightarrow> u8 list" where
  "tar_header name n = name @ replicate (100 - length name) 0 @ replicate 24 0 @ octal 11 n @ [0] @ replicate 376 0"

definition blocks_of :: "nat \<Rightarrow> nat" where
  "blocks_of n = (if n mod 512 = 0 then n div 512 else n div 512 + 1)"

definition tar_file :: "u8 list \<times> u8 list \<Rightarrow> u8 list" where
  "tar_file f = tar_header (fst f) (length (snd f)) @ snd f @ replicate (512 * blocks_of (length (snd f)) - length (snd f)) 0"

definition tar_bytes :: "(u8 list \<times> u8 list) list \<Rightarrow> u8 list" where
  "tar_bytes fs = concat (map tar_file fs) @ replicate 512 0"

definition tar_ok :: "u8 list \<times> u8 list \<Rightarrow> bool" where
  "tar_ok f \<longleftrightarrow> fst f \<noteq> [] \<and> 0 \<notin> set (fst f) \<and> length (fst f) < 29 \<and> length (snd f) < 2 ^ 31"

lemma length_octal [simp]: "length (octal n x) = n"
  by (induction n arbitrary: x) auto

lemma sint_digit: "x < 8 \<Longrightarrow> sint (48 + of_nat x :: u8) = 48 + int x"
proof -
  assume "x < 8"
  then have "x \<in> {0, 1, 2, 3, 4, 5, 6, 7}" by auto
  then show ?thesis by auto
qed

lemma oct_to_int_octal:
  assumes "0 \<le> r" and "8 ^ n * r + int x < 2 ^ 31" and "x < 8 ^ n"
  shows "oct_to_int r (octal n x @ cs) = oct_to_int (8 ^ n * r + int x) cs"
  using assms
proof (induction n arbitrary: x cs)
  case (Suc n)
  have x: "int x = 8 * int (x div 8) + int (x mod 8)" by (simp add: zdiv_int zmod_int)
  have lt: "x div 8 < 8 ^ n" using Suc.prems(3) by (simp add: div_less_iff_less_mult mult.commute)
  have nn: "0 \<le> 8 ^ n * r" using Suc.prems(1) by simp
  then have b: "8 ^ n * r + int (x div 8) < 2 ^ 31" using Suc.prems(2) x by simp
  have "oct_to_int r (octal (Suc n) x @ cs) = oct_to_int (8 ^ n * r + int (x div 8)) ((48 + of_nat (x mod 8)) # cs)"
    using Suc.IH [OF Suc.prems(1) b lt] by simp
  also have "\<dots> = oct_to_int (8 ^ Suc n * r + int x) cs"
    using Suc.prems(2) nn x sint_digit [of "x mod 8"] by (simp add: Let_def algebra_simps)
  finally show ?case .
qed simp

lemma octal_no_zero: "0 \<notin> set (octal n x)"
proof (induction n arbitrary: x)
  case (Suc n)
  have "48 + of_nat (x mod 8) \<noteq> (0 :: u8)" using sint_digit [of "x mod 8"] by auto
  then show ?case using Suc by auto
qed simp

lemma blocks_of_le: "n \<le> 512 * blocks_of n"
proof -
  have "n = 512 * (n div 512) + n mod 512" "n mod 512 < 512" by simp_all
  then show ?thesis by (auto simp: blocks_of_def)
qed

lemma length_tar_file: "tar_ok f \<Longrightarrow> length (tar_file f) = 512 + 512 * blocks_of (length (snd f))"
  using blocks_of_le [of "length (snd f)"] by (simp add: tar_file_def tar_header_def tar_ok_def)

lemma int_blocks: "(if int n mod 512 = 0 then int n div 512 else int n div 512 + 1) = int (blocks_of n)"
proof -
  have "int n mod 512 = int (n mod 512)" "int n div 512 = int (n div 512)" by (simp_all add: zmod_int zdiv_int)
  then show ?thesis by (simp add: blocks_of_def)
qed

lemma header_fields:
  assumes f: "tar_ok f" and off: "off = length pre"
  shows "cstr_at off (pre @ tar_file f @ rest) = Some (fst f)"
    and "cstr_at (off + 124) (pre @ tar_file f @ rest) = Some (octal 11 (length (snd f)))"
proof -
  let ?n = "length (fst f)"
  let ?tl = "snd f @ replicate (512 * blocks_of (length (snd f)) - length (snd f)) 0 @ rest"
  have n: "?n < 100" "0 \<notin> set (fst f)" using f by (auto simp: tar_ok_def)
  have "replicate (100 - ?n) (0 :: u8) = 0 # replicate (99 - ?n) 0" using n(1) by (simp add: Suc_diff_le flip: replicate_Suc)
  then have "pre @ tar_file f @ rest = pre @ fst f @ 0 # (replicate (99 - ?n) 0 @ replicate 24 0 @ octal 11 (length (snd f)) @ [0] @ replicate 376 0 @ ?tl)"
    by (simp add: tar_file_def tar_header_def)
  then show "cstr_at off (pre @ tar_file f @ rest) = Some (fst f)" using cstr_at_append [OF off n(2)] by simp
  let ?pre = "pre @ fst f @ replicate (100 - ?n) 0 @ replicate 24 0"
  have "pre @ tar_file f @ rest = ?pre @ octal 11 (length (snd f)) @ 0 # (replicate 376 0 @ ?tl)" by (simp add: tar_file_def tar_header_def)
  moreover have "off + 124 = length ?pre" using n(1) off by simp
  ultimately show "cstr_at (off + 124) (pre @ tar_file f @ rest) = Some (octal 11 (length (snd f)))"
    using cstr_at_append [of "off + 124" ?pre "octal 11 (length (snd f))"] octal_no_zero by simp
qed

text \<open>The inodes the scan makes of the files from \<open>off\<close> on.\<close>

fun tar_inodes :: "nat \<Rightarrow> (u8 list \<times> u8 list) list \<Rightarrow> tar_inode list" where
  "tar_inodes off [] = []"
| "tar_inodes off (f # fs) = \<lparr>t_block_count = int (blocks_of (length (snd f))), t_file_len = int (length (snd f)), t_data = off + 512\<rparr> #
     tar_inodes (off + length (tar_file f)) fs"

lemma node_init_names:
  assumes "length (tarfs_entry t) < 200" and "length name < 30" and "\<forall>p. par = Some p \<longrightarrow> p < length (tarfs_entry t)"
  obtains t' where "tarfs_node_init par name ino t = Some t'" "map td_iname (tarfs_entry t') = map td_iname (tarfs_entry t) @ [name]"
    "tarfs_inode t' = tarfs_inode t @ [ino]" "archive t' = archive t"
proof -
  have "map td_iname ((tarfs_entry t)[p := (tarfs_entry t ! p)\<lparr>td_subdirs := ds\<rparr>]) = map td_iname (tarfs_entry t)" for p ds
    by (cases "p < length (tarfs_entry t)") (auto simp: map_update list_update_same_conv list_update_beyond)
  then show thesis using assms that by (auto simp: tarfs_node_init_def Let_def split: option.splits)
qed

lemma index_of_less: "index_of i name es = Some k \<Longrightarrow> k < i + length es"
proof (induction es arbitrary: i)
  case (Cons e es)
  then show ?case using Cons.IH [of "i + 1"] by (auto split: if_splits)
qed simp

lemma change_format_length: "length (change_format ch s) \<le> length s + 1"
  by (simp add: change_format_def)

declare tarfs_scan.simps [simp del]

lemma scan_step:
  assumes f: "tar_ok f" and off: "off = length pre" and a: "a = pre @ tar_file f @ rest" and n: "length (tarfs_entry t) < 200"
  obtains t' where "tarfs_scan a off t = tarfs_scan a (off + length (tar_file f)) t'"
    "map td_iname (tarfs_entry t') = map td_iname (tarfs_entry t) @ [change_format 47 (fst f)]"
    "tarfs_inode t' = tarfs_inode t @ tar_inodes off [f]" "archive t' = archive t"
proof -
  let ?name = "change_format 47 (fst f)" and ?n = "length (snd f)"
  let ?ino = "\<lparr>t_block_count = int (blocks_of ?n), t_file_len = int ?n, t_data = off + 512\<rparr>"
  have len: "length ?name < 30" using change_format_length [of 47 "fst f"] f by (simp add: tar_ok_def)
  have par: "\<forall>p. get_parent ?name t = Some p \<longrightarrow> p < length (tarfs_entry t)" using index_of_less [of 0] by (auto simp: get_parent_def)
  obtain t' where t': "tarfs_node_init (get_parent ?name t) ?name ?ino t = Some t'" "map td_iname (tarfs_entry t') = map td_iname (tarfs_entry t) @ [?name]"
    "tarfs_inode t' = tarfs_inode t @ [?ino]" "archive t' = archive t"
    by (rule node_init_names [OF n len par])
  note h = header_fields [OF f off, of rest, folded a]
  have size: "oct_to_int 0 (octal 11 ?n) = Some (int ?n)"
    using oct_to_int_octal [of 0 11 ?n "[]"] f by (simp add: tar_ok_def)
  have l: "length (tar_file f) = 512 + 512 * blocks_of ?n" by (rule length_tar_file [OF f])
  then have "off \<noteq> length a" "\<not> length a < off + 512" using a off by auto
  then have "tarfs_scan a off t = tarfs_scan a (off + 512 * nat (int (blocks_of ?n)) + 512) t'"
    using h size t'(1) f by (subst tarfs_scan.simps) (simp add: tar_ok_def int_blocks Let_def)
  then show thesis using t' l by (intro that [of t']) (simp_all add: add.commute add.left_commute)
qed

lemma scan_files:
  assumes "\<forall>f\<in>set fs. tar_ok f" and "off = length pre" and "a = pre @ tar_bytes fs" and "length (tarfs_entry t) + length fs \<le> 200"
  obtains t' where "tarfs_scan a off t = Some t'" "map td_iname (tarfs_entry t') = map td_iname (tarfs_entry t) @ map (\<lambda>f. change_format 47 (fst f)) fs"
    "tarfs_inode t' = tarfs_inode t @ tar_inodes off fs" "archive t' = archive t"
  using assms
proof (induction fs arbitrary: off pre t thesis)
  case Nil
  have "cstr_at off a = Some []" using Nil.prems by (simp add: tar_bytes_def cstr_at_def numeral_eq_Suc)
  then have "tarfs_scan a off t = Some t" using Nil.prems by (subst tarfs_scan.simps) (simp add: tar_bytes_def)
  then show ?case using Nil.prems(1) by simp
next
  case (Cons f fs)
  have a: "a = pre @ tar_file f @ tar_bytes fs" using Cons.prems(4) by (simp add: tar_bytes_def)
  obtain u where u: "tarfs_scan a off t = tarfs_scan a (off + length (tar_file f)) u" "map td_iname (tarfs_entry u) = map td_iname (tarfs_entry t) @ [change_format 47 (fst f)]"
    "tarfs_inode u = tarfs_inode t @ tar_inodes off [f]" "archive u = archive t"
    by (rule scan_step [OF _ Cons.prems(3) a]) (use Cons.prems in auto)
  have "length (tarfs_entry u) = length (tarfs_entry t) + 1" using arg_cong [OF u(2), of length] by simp
  then have n: "length (tarfs_entry u) + length fs \<le> 200" using Cons.prems(5) by simp
  have ok: "\<forall>f\<in>set fs. tar_ok f" using Cons.prems(2) by simp
  have off: "off + length (tar_file f) = length (pre @ tar_file f)" "a = (pre @ tar_file f) @ tar_bytes fs" using Cons.prems(3) a by simp_all
  obtain t' where t': "tarfs_scan a (off + length (tar_file f)) u = Some t'"
    "map td_iname (tarfs_entry t') = map td_iname (tarfs_entry u) @ map (\<lambda>f. change_format 47 (fst f)) fs"
    "tarfs_inode t' = tarfs_inode u @ tar_inodes (off + length (tar_file f)) fs" "archive t' = archive u"
    by (rule Cons.IH [OF _ ok off n])
  show ?case by (rule Cons.prems(1) [of t']) (use u t' in simp_all)
qed

lemma node_init_lengths: "tarfs_node_init par name ino t = Some t' \<Longrightarrow>
    length (tarfs_inode t') = length (tarfs_inode t) + 1 \<and> length (tarfs_entry t') = length (tarfs_entry t) + 1"
  by (auto simp: tarfs_node_init_def Let_def split: option.splits)

lemma tarfs_scan_lengths:
  "tarfs_scan a off t = Some t' \<Longrightarrow> length (tarfs_inode t) = length (tarfs_entry t) \<Longrightarrow> length (tarfs_inode t') = length (tarfs_entry t')"
proof (induction "length a - off" arbitrary: off t rule: less_induct)
  case less
  note run = less.prems(1) [unfolded tarfs_scan.simps [of a off t]]
  from run consider "t' = t" | par name ino u off' where "tarfs_node_init par name ino t = Some u" "tarfs_scan a off' u = Some t'" "length a - off' < length a - off"
    by (fastforce simp: Let_def bind_eq_Some_conv split: if_split_asm)
  then show ?case
  proof cases
    case (2 par name ino u off')
    then show ?thesis using less.hyps [OF 2(3) 2(2)] node_init_lengths [OF 2(1)] less.prems(2) by simp
  qed (use less.prems(2) in simp)
qed

lemma tarfs_init_lengths: "tarfs_init a = Some t \<Longrightarrow> length (tarfs_inode t) = length (tarfs_entry t)"
  by (auto simp: tarfs_init_def bind_eq_Some_conv dest!: node_init_lengths intro: tarfs_scan_lengths)

lemma length_tar_inodes [simp]: "length (tar_inodes off fs) = length fs"
  by (induction fs arbitrary: off) auto

lemma tar_inodes_nth:
  "i < length fs \<Longrightarrow> t_file_len (tar_inodes off fs ! i) = int (length (snd (fs ! i))) \<and>
    t_data (tar_inodes off fs ! i) = off + length (concat (map tar_file (take i fs))) + 512"
proof (induction fs arbitrary: off i)
  case (Cons f fs)
  then show ?case by (cases i) auto
qed simp

lemma tar_data_at:
  assumes i: "i < length fs" and f: "tar_ok (fs ! i)"
  shows "\<exists>rest. drop (length (concat (map tar_file (take i fs))) + 512) (tar_bytes fs) = snd (fs ! i) @ rest"
proof -
  let ?f = "fs ! i"
  have "tar_bytes fs = concat (map tar_file (take i fs)) @ tar_file ?f @ concat (map tar_file (drop (Suc i) fs)) @ replicate 512 0"
    unfolding tar_bytes_def by (subst id_take_nth_drop [OF i]) simp
  moreover have "length (tar_header (fst ?f) (length (snd ?f))) = 512" using f by (simp add: tar_header_def tar_ok_def)
  ultimately show ?thesis by (simp add: tar_file_def)
qed

lemma tar_data_le:
  assumes i: "i < length fs" and f: "tar_ok (fs ! i)"
  shows "length (concat (map tar_file (take i fs))) + 512 \<le> length (tar_bytes fs)"
proof -
  have "tar_bytes fs = concat (map tar_file (take i fs)) @ tar_file (fs ! i) @ concat (map tar_file (drop (Suc i) fs)) @ replicate 512 0"
    unfolding tar_bytes_def by (subst id_take_nth_drop [OF i]) simp
  then show ?thesis using length_tar_file [OF f] by simp
qed

lemma index_of_distinct: "\<lbrakk>distinct (map td_iname es); k < length es; td_iname (es ! k) = name\<rbrakk> \<Longrightarrow> index_of i name es = Some (i + k)"
proof (induction es arbitrary: i k)
  case (Cons e es)
  then show ?case by (cases k) (auto dest: nth_mem [THEN imageI, of _ _ td_iname])
qed simp

lemma tarfs_read_slice:
  assumes "f_inode fd < length (tarfs_inode t)" and len: "t_file_len (tarfs_inode t ! f_inode fd) = int (length c)"
    and c: "drop (t_data (tarfs_inode t ! f_inode fd)) (archive t) = c @ rest" and p: "f_pos fd = int p" "p \<le> length c" "p + n < 2 ^ 31"
  shows "tarfs_read fd (int n) t = Some (int (min n (length c - p)), take n (drop p c), fd\<lparr>f_pos := int (p + min n (length c - p))\<rparr>, t)"
proof (cases "p = length c")
  case True
  then show ?thesis using assms by (simp add: tarfs_read_def)
next
  case False
  let ?o = "t_data (tarfs_inode t ! f_inode fd)" and ?n = "min n (length c - p)"
  have n: "int ?n = (if int (length c) \<le> int p + int n then int (length c) - int p else int n)" by (rule int_min_count [OF p(2)])
  have bound: "?o + length c \<le> length (archive t)" using arg_cong [OF c, of length] False p(2) by simp
  have "take ?n (drop (?o + p) (archive t)) = take ?n (drop p (c @ rest))" using c by (simp add: add.commute flip: drop_drop c)
  also have "\<dots> = take n (drop p c)" using p(2) by (cases "n \<le> length c - p") auto
  finally have t: "take ?n (drop (?o + p) (archive t)) = take n (drop p c)" .
  have g: "int ?n \<le> 0 \<or> 0 \<le> int p \<and> int ?o + int p + int ?n \<le> int (length (archive t))" using bound p(2) by auto
  have ne: "int p \<noteq> int (length c)" using False by simp
  have "tarfs_read fd (int n) t = Some (int ?n, take (nat (int ?n)) (drop (?o + nat (int p)) (archive t)), fd\<lparr>f_pos := int p + int ?n\<rparr>, t)"
    unfolding tarfs_read_def Let_def len p(1) n [symmetric] using assms(1) ne g p(3) by (simp add: guard_simps if_not_P)
  then show ?thesis using t by simp
qed

text \<open>The archive keeps the contract of a file reader.\<close>

definition tar_content :: "tarfs \<Rightarrow> nat \<Rightarrow> u8 list" where
  "tar_content t i = take (nat (t_file_len (tarfs_inode t ! i))) (drop (t_data (tarfs_inode t ! i)) (archive t))"

definition tar_ready :: "tarfs \<Rightarrow> sata_file \<Rightarrow> bool" where
  "tar_ready t fd \<longleftrightarrow> f_inode fd < length (tarfs_inode t) \<and> 0 \<le> t_file_len (tarfs_inode t ! f_inode fd) \<and>
     int (t_data (tarfs_inode t ! f_inode fd)) + t_file_len (tarfs_inode t ! f_inode fd) \<le> int (length (archive t))"

lemma tar_read_slice:
  assumes r: "tar_ready t fd" and p: "f_pos fd = int p" "p \<le> length (tar_content t (f_inode fd))" "p + n < 2 ^ 31"
  shows "tarfs_read fd (int n) t = Some (int (min n (length (tar_content t (f_inode fd)) - p)), take n (drop p (tar_content t (f_inode fd))),
      fd\<lparr>f_pos := int (p + min n (length (tar_content t (f_inode fd)) - p))\<rparr>, t)"
proof -
  let ?i = "tarfs_inode t ! f_inode fd"
  have c: "t_file_len ?i = int (length (tar_content t (f_inode fd)))" using r by (auto simp: tar_ready_def tar_content_def)
  have "drop (t_data ?i) (archive t) = tar_content t (f_inode fd) @ drop (nat (t_file_len ?i)) (drop (t_data ?i) (archive t))"
    by (simp add: tar_content_def del: drop_drop)
  from tarfs_read_slice [OF _ c this p] r show ?thesis by (auto simp: tar_ready_def)
qed

interpretation tar: file_reader tarfs_read "\<lambda>t fd. tar_content t (f_inode fd)" tar_ready
  by unfold_locales (auto simp: tar_read_slice, auto simp: tar_ready_def)

text \<open>Mounting: after the scan the file number \<open>i\<close> of the archive is the inode \<open>i + 1\<close>.\<close>

lemma mount_tables:
  assumes fs: "\<forall>f\<in>set fs. tar_ok f" "length fs < 200"
  obtains t where "tarfs_init (tar_bytes fs) = Some t" "map td_iname (tarfs_entry t) = [47] # map (\<lambda>f. change_format 47 (fst f)) fs"
    "tarfs_inode t = \<lparr>t_block_count = 1, t_file_len = 0, t_data = 0\<rparr> # tar_inodes 0 fs" "archive t = tar_bytes fs"
proof -
  let ?r = "\<lparr>t_block_count = 1, t_file_len = 0, t_data = 0\<rparr>"
  obtain u where u: "tarfs_node_init None [47] ?r \<lparr>archive = tar_bytes fs, tarfs_entry = [], tarfs_inode = []\<rparr> = Some u"
    "map td_iname (tarfs_entry u) = [[47]]" "tarfs_inode u = [?r]" "archive u = tar_bytes fs"
    using node_init_names [of "\<lparr>archive = tar_bytes fs, tarfs_entry = [], tarfs_inode = []\<rparr>" "[47]" None ?r] by auto
  have "length (tarfs_entry u) + length fs \<le> 200" using arg_cong [OF u(2), of length] fs(2) by simp
  then obtain t where t: "tarfs_scan (tar_bytes fs) 0 u = Some t" "map td_iname (tarfs_entry t) = map td_iname (tarfs_entry u) @ map (\<lambda>f. change_format 47 (fst f)) fs"
    "tarfs_inode t = tarfs_inode u @ tar_inodes 0 fs" "archive t = archive u"
    using scan_files [OF fs(1), of 0 "[]" "tar_bytes fs" u] by auto
  show thesis by (rule that [of t]) (use u t in \<open>simp_all add: tarfs_init_def\<close>)
qed

lemma mounted:
  assumes fs: "\<forall>f\<in>set fs. tar_ok f" "length fs < 200" "distinct ([47] # map (\<lambda>f. change_format 47 (fst f)) fs)"
  obtains t where "tarfs_init (tar_bytes fs) = Some t"
    "\<forall>i<length fs. get_file_index (change_format 47 (fst (fs ! i))) t = Some (Suc i) \<and> tar_content t (Suc i) = snd (fs ! i) \<and>
      (\<forall>fd. f_inode fd = Suc i \<longrightarrow> tar_ready t fd)"
proof -
  obtain t where t: "tarfs_init (tar_bytes fs) = Some t" "map td_iname (tarfs_entry t) = [47] # map (\<lambda>f. change_format 47 (fst f)) fs"
    "tarfs_inode t = \<lparr>t_block_count = 1, t_file_len = 0, t_data = 0\<rparr> # tar_inodes 0 fs" "archive t = tar_bytes fs"
    by (rule mount_tables [OF fs(1,2)])
  have len: "length (tarfs_entry t) = Suc (length fs)" using arg_cong [OF t(2), of length] by simp
  have "get_file_index (change_format 47 (fst (fs ! i))) t = Some (Suc i)" if i: "i < length fs" for i
  proof -
    have "td_iname (tarfs_entry t ! Suc i) = map td_iname (tarfs_entry t) ! Suc i" using len i by simp
    also have "\<dots> = change_format 47 (fst (fs ! i))" unfolding t(2) using i by simp
    finally show ?thesis using index_of_distinct [of "tarfs_entry t" "Suc i" _ 0] fs(3) len i unfolding get_file_index_def t(2) by simp
  qed
  moreover have "tar_content t (Suc i) = snd (fs ! i)" "f_inode fd = Suc i \<Longrightarrow> tar_ready t fd" if i: "i < length fs" for i fd
  proof -
    note ino = tar_inodes_nth [OF i, of 0]
    have le: "t_data (tarfs_inode t ! Suc i) \<le> length (archive t)" using tar_data_le [OF i] fs(1) i ino t(3,4) by simp
    obtain rest where rest: "drop (t_data (tarfs_inode t ! Suc i)) (archive t) = snd (fs ! i) @ rest"
      using tar_data_at [OF i] fs(1) i ino t(3,4) by auto
    have "length (archive t) - t_data (tarfs_inode t ! Suc i) = length (snd (fs ! i)) + length rest" using arg_cong [OF rest, of length] by simp
    then have bound: "t_data (tarfs_inode t ! Suc i) + length (snd (fs ! i)) \<le> length (archive t)" using le by linarith
    show "tar_content t (Suc i) = snd (fs ! i)" using rest ino t(3) by (simp add: tar_content_def)
    show "f_inode fd = Suc i \<Longrightarrow> tar_ready t fd" using bound ino t(3) i by (simp add: tar_ready_def)
  qed
  ultimately show thesis using that [OF t(1)] by blast
qed

text \<open>C6. Mounting an archive gives its files back: every file can be opened under its name with a slash
  in front, and reading from any position in it returns its bytes. (Names are at most 28 characters
  long and different, there are at most 199 files, each shorter than 2 GiB.)\<close>

theorem archive_roundtrip:
  assumes fs: "\<forall>f\<in>set fs. tar_ok f" "length fs < 200" "distinct ([47] # map (\<lambda>f. change_format 47 (fst f)) fs)"
    and i: "i < length fs" and p: "p \<le> length (snd (fs ! i))" "p + n < 2 ^ 31"
  shows "\<exists>t fd. tarfs_init (tar_bytes fs) = Some t \<and> tarfs_open (change_format 47 (fst (fs ! i))) flags t = Some fd \<and> f_pos fd = 0 \<and>
    tarfs_read (fd\<lparr>f_pos := int p\<rparr>) (int n) t =
      Some (int (min n (length (snd (fs ! i)) - p)), take n (drop p (snd (fs ! i))), fd\<lparr>f_pos := int (p + min n (length (snd (fs ! i)) - p))\<rparr>, t)"
proof -
  let ?fd = "\<lparr>f_inode = Suc i, f_flags = 0, f_pos = 0, fs_type = 0\<rparr>"
  obtain t where t: "tarfs_init (tar_bytes fs) = Some t" "get_file_index (change_format 47 (fst (fs ! i))) t = Some (Suc i)"
    "tar_content t (Suc i) = snd (fs ! i)" "tar_ready t (?fd\<lparr>f_pos := int p\<rparr>)"
    using mounted [OF fs] i by (metis (no_types, lifting) sata_file.select_convs(1) sata_file.update_convs(3))
  have "tarfs_open (change_format 47 (fst (fs ! i))) flags t = Some ?fd" using t(2) by (simp add: tarfs_open_def)
  moreover have "tarfs_read (?fd\<lparr>f_pos := int p\<rparr>) (int n) t = Some (int (min n (length (snd (fs ! i)) - p)), take n (drop p (snd (fs ! i))),
      ?fd\<lparr>f_pos := int (p + min n (length (snd (fs ! i)) - p))\<rparr>, t)"
    using tar_read_slice [OF t(4), of p n] p t(3) by simp
  ultimately show ?thesis using t(1) by (intro exI [of _ t] exI [of _ ?fd]) simp
qed

theorem archive_roundtrip_witness:
  "\<exists>t fd. tarfs_init (tar_bytes [([97], [1, 2, 3])]) = Some t \<and> tarfs_open [47, 97] 0 t = Some fd \<and>
    tarfs_read (fd\<lparr>f_pos := 1\<rparr>) 5 t = Some (2, [2, 3], fd\<lparr>f_pos := 3\<rparr>, t)"
  using archive_roundtrip [of "[([97], [1, 2, 3])]" 0 1 5 0] by (auto simp: tar_ok_def change_format_def)

end
