(* ===== verification/SataDir.thy ===== *)
theory SataDir
  imports Tarfs
begin

text \<open>
  Names on the disk: opening and creating files and reading directories, from \<^verbatim>\<open>bin/fs/fs.c\<close>. Every
  object is looked up by its whole path, which its directory entry holds. A NULL result is \<open>None\<close>
  inside the outcome; \<open>old\<close> is what \<^verbatim>\<open>malloc\<close> left in the block for a new directory entry.
\<close>

section \<open>Operations\<close>

text \<open>\<^verbatim>\<open>strcmp\<close> of the name in an entry, an array of 30 bytes, with a string; it leaves the array when the
  array has no NUL and does not differ.\<close>

definition name_eq :: "u8 list \<Rightarrow> u8 list \<Rightarrow> bool option" where
  "name_eq b path =
     (if 0 \<in> set b then Some (takeWhile (\<lambda>x. x \<noteq> 0) b = path)
      else if take (length b) path = b then None else Some False)"

fun open_scan :: "nat list \<Rightarrow> u8 list \<Rightarrow> u8 list \<Rightarrow> disk \<Rightarrow> (nat option \<times> disk) option" where
  "open_scan [] bm path d = Some (None, d)"
| "open_scan (i # is) bm path d =
     (if bm ! i = 0 then open_scan is bm path d
      else let (_, d) = get_inode i d; (e, d) = get_dentry i d in do {
        b \<leftarrow> name_eq (d_iname e) path;
        if b then Some (Some i, d) else open_scan is bm path d })"

fun dentry_scan :: "nat list \<Rightarrow> u8 list \<Rightarrow> u8 list \<Rightarrow> disk \<Rightarrow> ((nat \<times> dentry) option \<times> disk) option" where
  "dentry_scan [] bm path d = Some (None, d)"
| "dentry_scan (i # is) bm path d =
     (if bm ! i = 0 then dentry_scan is bm path d
      else let (e, d) = get_dentry i d in do {
        b \<leftarrow> name_eq (d_iname e) path;
        if b then Some (Some (i, e), d) else dentry_scan is bm path d })"

text \<open>The answer \<^verbatim>\<open>-1\<close> for no parent; otherwise the number in the entry that was found.\<close>

definition sata_get_parent :: "u8 list \<Rightarrow> disk \<Rightarrow> (int \<times> disk) option" where
  "sata_get_parent name d = (let (bm, d) = read_inode_bitmap d in do {
     (r, d) \<leftarrow> dentry_scan [0..<512] bm (parent_dir name) d;
     Some (case r of None \<Rightarrow> -1 | Some (i, e) \<Rightarrow> sint (dentry_id e), d) })"

definition add_subdir :: "u64 \<Rightarrow> u64 list \<Rightarrow> u64 list" where
  "add_subdir k ds = (case filter (\<lambda>i. ds ! i = 0) [0..<24] of [] \<Rightarrow> ds | i # _ \<Rightarrow> ds[i := k])"

definition O_CREAT :: u32 where "O_CREAT = 0x40"

definition sata_open :: "dentry \<Rightarrow> u8 list \<Rightarrow> u32 \<Rightarrow> disk \<Rightarrow> (sata_file option \<times> disk) option" where
  "sata_open old path flags d = do {
     guard (length path < 200);
     let fd = (\<lambda>i. \<lparr>f_inode = i, f_flags = flags, f_pos = 0, fs_type = 1\<rparr>);
     let (bm, d) = read_inode_bitmap d;
     (r, d) \<leftarrow> open_scan [0..<512] bm path d;
     case r of
       Some i \<Rightarrow> Some (Some (fd i), d)
     | None \<Rightarrow>
         if flags \<noteq> O_CREAT then Some (None, d)
         else do {
           (par, d) \<leftarrow> sata_get_parent path d;
           if par = -1 then Some (None, d)
           else let (fi, d) = get_free_inode d; (fe, d) = get_free_dentry d in
             (case (fi, fe) of
                (Some i, Some e) \<Rightarrow> do {
                  d \<leftarrow> build_inode i (ucast flags) d;
                  d \<leftarrow> build_dentry old (of_nat i) e (word_of_int par) path d;
                  guard (0 \<le> par);
                  let (pe, d) = get_dentry (nat par) d;
                  let d = write_dentry (nat par) (pe\<lparr>d_subdirs := add_subdir (of_nat i) (d_subdirs pe)\<rparr>) d;
                  Some (Some (fd i), d) }
              | _ \<Rightarrow> Some (None, d)) } }"

definition open_sata_dir :: "u8 list \<Rightarrow> disk \<Rightarrow> (dentry_reader option \<times> disk) option" where
  "open_sata_dir path d = (let (bm, d) = read_dentry_bitmap d in do {
     (r, d) \<leftarrow> dentry_scan [0..<512] bm path d;
     Some (map_option (\<lambda>(i, e). \<lparr>r_dentry = i, r_offset = 0\<rparr>) r, d) })"

definition read_sata_dir :: "dentry_reader \<Rightarrow> disk \<Rightarrow> (dentry option \<times> dentry_reader \<times> disk) option" where
  "read_sata_dir r d = (let (e, d) = get_dentry (r_dentry r) d in do {
     guard (r_offset r < length (d_subdirs e));
     let k = d_subdirs e ! r_offset r;
     if k = 0 then Some (None, r, d)
     else let (e, d) = get_dentry (unat k) d in Some (Some e, r\<lparr>r_offset := r_offset r + 1\<rparr>, d) })"

text \<open>The root has the two mounted file systems as its entries.\<close>

definition open_root_dir :: "u8 list \<Rightarrow> dentry_reader" where
  "open_root_dir path = \<lparr>r_dentry = 0x123456, r_offset = 0\<rparr>"

definition read_root_dir :: "dentry_reader \<Rightarrow> (u8 list option \<times> dentry_reader) option" where
  "read_root_dir r =
     (if r_offset r = 2 then Some (None, r)
      else if r_offset r = 0 then Some (Some (map of_char ''/tarfs''), r\<lparr>r_offset := r_offset r + 1\<rparr>)
      else if r_offset r = 1 then Some (Some (map of_char ''/sata''), r\<lparr>r_offset := r_offset r + 1\<rparr>)
      else None)"

fun clear_sectors :: "nat \<Rightarrow> disk \<Rightarrow> disk" where
  "clear_sectors 0 d = d"
| "clear_sectors (Suc n) d = write_sata n (clear_sectors n d)"

text \<open>Formatting, after the buffer has been allocated and cleared and the disk has been found.\<close>

definition init_fs :: "dentry \<Rightarrow> disk \<Rightarrow> disk option" where
  "init_fs old d = do {
     let d = clear_sectors 44 (d\<lparr>common_buf := replicate 4096 0\<rparr>);
     d \<leftarrow> build_inode 0 0 d;
     build_dentry old 0 0 (- 1) [47] d }"

section \<open>A freshly formatted disk\<close>

lemma clear_sectors_ok:
  "disk_ok d \<Longrightarrow> disk_ok (clear_sectors n d) \<and> common_buf (clear_sectors n d) = common_buf d \<and>
    sectors (clear_sectors n d) = (\<lambda>k. if k < n then take 512 (common_buf d) else sectors d k)"
proof (induction n)
  case (Suc n)
  then show ?case by (auto simp: write_sata_def [of n "clear_sectors n d"] disk_ok_def)
qed auto

definition first_used :: "u8 list" where
  "first_used = 1 # replicate 511 0"

lemma init_fs_ok:
  assumes d: "disk_ok d" and old: "length (d_subdirs old) = 30" "length (d_iname old) = 30"
  obtains d' where "init_fs old d = Some d'" "disk_ok d'" "sectors d' 1 = first_used" "sectors d' 3 = first_used"
    "takeWhile (\<lambda>x. x \<noteq> 0) (d_iname (dentry_at d' 0)) = [47]" "0 \<in> set (d_iname (dentry_at d' 0))" "dentry_id (dentry_at d' 0) = 0"
proof -
  let ?d0 = "clear_sectors 44 (d\<lparr>common_buf := replicate 4096 0\<rparr>)"
  have "disk_ok (d\<lparr>common_buf := replicate 4096 0\<rparr>)" using d by (simp add: disk_ok_def)
  from clear_sectors_ok [OF this, of 44] have c: "disk_ok ?d0" "\<forall>k<44. sectors ?d0 k = replicate 512 0" by auto
  have z: "(replicate 512 0)[0 := 1] = first_used" by (simp add: first_used_def numeral_eq_Suc)
  obtain d1 where d1: "set_inode_bitmap 0 ?d0 = Some d1" "sectors d1 = (sectors ?d0)(1 := (sectors ?d0 1)[0 := 1])" "disk_ok d1"
    using set_bitmap_ok [OF c(1), of 0 1] unfolding set_inode_bitmap_def by auto
  define y where "y = (bytes_inode (get_buf 0 144 (read_sata 4 d1)))"
  define x where "x = y\<lparr>inode_id := 0, file_len := 0, block_count := 0, i_data := replicate 13 0 @ drop 13 (i_data y), i_flags := 0\<rparr>"
  have x15: "length (i_data x) = 15" by (simp add: x_def y_def bytes_inode_def)
  let ?d2 = "write_sata 4 (put_buf 0 (inode_bytes x) (read_sata 4 d1))"
  have l2: "0 + length (inode_bytes x) \<le> 512" using inode_bytes_inverse(1) [OF x15] by simp
  have b1: "build_inode 0 0 ?d0 = Some ?d2" using d1(1) by (simp add: build_inode_def x_def y_def Let_def)
  have d2: "disk_ok ?d2" "sectors ?d2 = (sectors d1)(4 := patch 0 (inode_bytes x) (sectors d1 4))" using d1(3) l2 write_back [OF d1(3) l2, of 4] by simp_all
  obtain d3 where d3: "set_dentry_bitmap 0 ?d2 = Some d3" "sectors d3 = (sectors ?d2)(3 := (sectors ?d2 3)[0 := 1])" "disk_ok d3"
    using set_bitmap_ok [OF d2(1), of 0 3] unfolding set_dentry_bitmap_def by auto
  define e where "e = old\<lparr>d_parent := - 1, d_subdirs := replicate 24 0 @ drop 24 (d_subdirs old), d_iname := [47] @ 0 # drop 2 (d_iname old),
    d_inode := 0, dentry_id := 0\<rparr>"
  have e30: "length (d_subdirs e) = 30" "length (d_iname e) = 30" using old by (simp_all add: e_def)
  let ?d4 = "write_dentry 0 e (read_sata 14 d3)"
  have l4: "0 + length (dentry_bytes e) \<le> 512" using dentry_bytes_inverse(1) [OF e30] by simp
  have "build_dentry old 0 0 (- 1) [47] ?d2 = Some ?d4" using d3(1) by (simp add: build_dentry_def e_def Let_def numeral_2_eq_2)
  then have run: "init_fs old d = Some ?d4" using b1 by (simp add: init_fs_def Let_def)
  have d3r: "disk_ok (read_sata 14 d3)" using d3(3) by simp
  have d4: "disk_ok ?d4" "sectors ?d4 = (sectors d3)(14 := patch 0 (dentry_bytes e) (sectors d3 14))"
    using d3(3) l4 write_back [OF d3r l4, of 14] by (simp_all add: write_dentry_def Let_def)
  have s: "sectors ?d4 1 = first_used" "sectors ?d4 3 = first_used" using c(2) z by (simp_all add: d4(2) d3(2) d2(2) d1(2))
  have nm: "d_iname e = 47 # 0 # drop 2 (d_iname old)" "dentry_id e = 0" by (simp_all add: e_def)
  have "dentry_at ?d4 0 = e"
    using take_drop_patch(1) [of 0 "dentry_bytes e" "sectors d3 14"] d3(3) dentry_bytes_inverse [OF e30] by (simp add: dentry_at_def d4(2) disk_okD)
  then show thesis by (intro that [OF run d4(1) s]) (simp_all add: nm)
qed

text \<open>The loops over a bitmap in which only the first entry is used look at that entry only.\<close>

lemma scan_unused:
  "\<forall>i\<in>set is. bm ! i = 0 \<Longrightarrow> open_scan is bm path d = Some (None, d)"
  "\<forall>i\<in>set is. bm ! i = 0 \<Longrightarrow> dentry_scan is bm path d = Some (None, d)"
  by (induction "is") auto

lemma first_used_rest: "\<forall>i\<in>set [1..<512]. first_used ! i = 0"
proof
  fix i :: nat assume "i \<in> set [1..<512]"
  then have "1 \<le> i" "i < 512" by (simp_all only: set_upt atLeastLessThan_iff)
  then show "first_used ! i = 0" by (simp add: first_used_def nth_Cons')
qed

lemma upt_512: "[0..<512] = 0 # [1..<512]"
proof -
  have "[0..<512] = 0 # [Suc 0..<512]" by (rule upt_conv_Cons) simp
  then show ?thesis by (simp only: One_nat_def)
qed

lemma scans_first_used:
  assumes d: "disk_ok d" and n: "takeWhile (\<lambda>x. x \<noteq> 0) (d_iname (dentry_at d 0)) = [47]" "0 \<in> set (d_iname (dentry_at d 0))"
  shows "open_scan [0..<512] first_used path d = Some (if path = [47] then Some 0 else None, read_sata 14 (read_sata 4 d))"
    and "dentry_scan [0..<512] first_used path d = Some (if path = [47] then Some (0, dentry_at d 0) else None, read_sata 14 d)"
proof -
  have i: "get_inode 0 d = (inode_at d 0, read_sata 4 d)" using get_inode_at [OF d, of 0] by simp
  have at: "dentry_at (read_sata 4 d) 0 = dentry_at d 0" by (simp add: dentry_at_def)
  have e: "get_dentry 0 (read_sata 4 d) = (dentry_at d 0, read_sata 14 (read_sata 4 d))" "get_dentry 0 d = (dentry_at d 0, read_sata 14 d)"
    using get_dentry_at [of "read_sata 4 d" 0] get_dentry_at [OF d, of 0] d at by simp_all
  have q: "name_eq (d_iname (dentry_at d 0)) path = Some (path = [47])" using n by (auto simp: name_eq_def)
  have u: "first_used ! 0 \<noteq> 0" by (simp add: first_used_def)
  show "open_scan [0..<512] first_used path d = Some (if path = [47] then Some 0 else None, read_sata 14 (read_sata 4 d))"
    unfolding upt_512 open_scan.simps using i e(1) q u scan_unused(1) [OF first_used_rest] by simp
  show "dentry_scan [0..<512] first_used path d = Some (if path = [47] then Some (0, dentry_at d 0) else None, read_sata 14 d)"
    unfolding upt_512 dentry_scan.simps using e(2) q u scan_unused(2) [OF first_used_rest] by simp
qed

lemma build_dentry_odd: "e mod 2 = 1 \<Longrightarrow> build_dentry old i e par name d = None"
  by (cases "set_dentry_bitmap e d") (simp_all add: build_dentry_def Let_def)

text \<open>C22. On a freshly formatted disk no file can be created: every \<^verbatim>\<open>open\<close> with \<^verbatim>\<open>O_CREAT\<close> of a new name in
  the root directory builds the directory entry number 1, outside the block that was allocated for
  it. (The root itself can be opened.)\<close>

theorem sata_create_faults:
  assumes d: "disk_ok d" and old: "length (d_subdirs old) = 30" "length (d_iname old) = 30"
    and path: "parent_dir path = [47]" "path \<noteq> [47]"
  shows "\<exists>d'. init_fs old d = Some d' \<and> sata_open old' path O_CREAT d' = None \<and>
    (\<exists>d''. sata_open old' [47] 0 d' = Some (Some \<lparr>f_inode = 0, f_flags = 0, f_pos = 0, fs_type = 1\<rparr>, d''))"
proof -
  obtain d' where d': "init_fs old d = Some d'" "disk_ok d'" "sectors d' 1 = first_used" "sectors d' 3 = first_used"
    "takeWhile (\<lambda>x. x \<noteq> 0) (d_iname (dentry_at d' 0)) = [47]" "0 \<in> set (d_iname (dentry_at d' 0))" "dentry_id (dentry_at d' 0) = 0"
    by (rule init_fs_ok [OF d old])
  have ff: "first_free 0 first_used = Some 1" by (simp add: first_used_def numeral_eq_Suc)
  let ?e = "read_sata 14 (read_sata 4 (read_sata 1 d'))"
  have at: "dentry_at (read_sata k u) 0 = dentry_at u 0" for k u by (simp add: dentry_at_def)
  have par: "sata_get_parent path ?e = Some (0, read_sata 14 (read_sata 1 ?e))"
    using scans_first_used(2) [of "read_sata 1 ?e" "[47]"] d' path(1)
    by (simp add: sata_get_parent_def read_inode_bitmap_def read_bitmap_ok at)
  have scan: "open_scan [0..<512] first_used p (read_sata 1 d') = Some (if p = [47] then Some 0 else None, ?e)" for p
    using scans_first_used(1) [of "read_sata 1 d'" p] d' by (simp add: at)
  have "sata_open old' path O_CREAT d' = None"
  proof (cases "length path < 200")
    case True
    have "get_free_inode u = (Some 1, read_sata 1 u)" "get_free_dentry u = (Some 1, read_sata 3 u)" if "sectors u = sectors d'" "disk_ok u" for u
      using that d'(3,4) ff by (simp_all add: get_free_inode_def get_free_dentry_def read_inode_bitmap_def read_dentry_bitmap_def read_bitmap_ok)
    then show ?thesis using d' scan [of path] par path(2) True
      by (simp add: sata_open_def read_inode_bitmap_def read_bitmap_ok build_dentry_odd Let_def bind_eq_None_conv)
  qed (simp add: sata_open_def)
  moreover have "\<exists>d''. sata_open old' [47] 0 d' = Some (Some \<lparr>f_inode = 0, f_flags = 0, f_pos = 0, fs_type = 1\<rparr>, d'')"
    using d' scan [of "[47]"] by (simp add: sata_open_def read_inode_bitmap_def read_bitmap_ok Let_def)
  ultimately show ?thesis using d'(1) by blast
qed

definition blank_dentry :: dentry where
  "blank_dentry = \<lparr>d_sb = 0, d_parent = 0, d_subdirs = replicate 30 0, d_iname = replicate 30 0, dentry_id = 0, d_inode = 0\<rparr>"

theorem sata_create_faults_witness:
  "\<exists>d'. init_fs blank_dentry sample_disk = Some d' \<and> sata_open blank_dentry [47, 102] O_CREAT d' = None"
  using sata_create_faults [of sample_disk blank_dentry "[47, 102]" blank_dentry] sample_disk_props(1)
  by (auto simp: blank_dentry_def parent_dir_def)

end
