(* ===== verification/Vfs.thy ===== *)
theory Vfs
  imports SataDir
begin

text \<open>
  The file server, \<^verbatim>\<open>bin/fs/vfs.c\<close>: paths below \<^verbatim>\<open>/tarfs\<close> and \<^verbatim>\<open>/sata\<close>, the operations that choose the
  file system, and the handling of the requests of the clients. Paths are C strings without their
  NUL. The table \<^verbatim>\<open>handle_to_fd\<close> holds for every connection a pointer to a \<^verbatim>\<open>struct file\<close> or to a
  \<^verbatim>\<open>struct dentry_reader\<close>, or NULL; the code does not know which, so a request that fits the other
  kind is \<open>None\<close>, as is one that follows NULL. The structure a pointer points to is kept in the table.
\<close>

section \<open>Paths\<close>

definition tarfs_path :: "u8 list" where "tarfs_path = map of_char ''/tarfs''"
definition sata_path :: "u8 list" where "sata_path = map of_char ''/sata''"

definition str_shift :: "nat \<Rightarrow> u8 list \<Rightarrow> u8 list" where
  "str_shift pos str = drop pos str"

text \<open>The comparison of the first bytes; a shorter path differs at its NUL.\<close>

definition has_prefix :: "u8 list \<Rightarrow> u8 list \<Rightarrow> bool" where
  "has_prefix pre str \<longleftrightarrow> take (length pre) str = pre"

definition get_fs_index :: "u8 list \<Rightarrow> int" where
  "get_fs_index str =
     (if has_prefix tarfs_path str then 0 else if has_prefix sata_path str then 1 else if str = [47] then 2 else -1)"

definition parse_path :: "u8 list \<Rightarrow> u8 list" where
  "parse_path path = (let path = (if has_prefix tarfs_path path then str_shift 6 path
       else if has_prefix sata_path path then str_shift 5 path else path) in
     if path = [] then [47] else path)"

section \<open>Files\<close>

record vfs =
  v_tar :: tarfs
  v_disk :: disk

definition my_read :: "sata_file \<Rightarrow> int \<Rightarrow> vfs \<Rightarrow> (int \<times> u8 list \<times> sata_file \<times> vfs) option" where
  "my_read fd count v =
     (if fs_type fd = 0 then do { (c, bs, fd, t) \<leftarrow> tarfs_read fd count (v_tar v); Some (c, bs, fd, v\<lparr>v_tar := t\<rparr>) }
      else if fs_type fd = 1 then do { (c, bs, fd, d) \<leftarrow> read_sata_wrapper fd count (v_disk v); Some (c, bs, fd, v\<lparr>v_disk := d\<rparr>) }
      else Some (0, [], fd, v))"

definition my_write :: "sata_file \<Rightarrow> u8 list \<Rightarrow> int \<Rightarrow> vfs \<Rightarrow> (int \<times> sata_file \<times> vfs) option" where
  "my_write fd buf count v =
     (if fs_type fd = 0 then Some (- 9, fd, v)
      else if fs_type fd = 1 then do { (c, fd, d) \<leftarrow> write_sata_wrapper fd buf count (v_disk v); Some (c, fd, v\<lparr>v_disk := d\<rparr>) }
      else Some (- 22, fd, v))"

definition my_open :: "dentry \<Rightarrow> u8 list \<Rightarrow> u32 \<Rightarrow> vfs \<Rightarrow> (sata_file option \<times> vfs) option" where
  "my_open old path flags v = (let fs = get_fs_index path; path = parse_path path in
     if fs = 0 then Some (map_option (\<lambda>fd. fd\<lparr>fs_type := 0\<rparr>) (tarfs_open path flags (v_tar v)), v)
     else if fs = 1 then do {
       (r, d) \<leftarrow> sata_open old path flags (v_disk v);
       Some (map_option (\<lambda>fd. fd\<lparr>fs_type := 1\<rparr>) r, v\<lparr>v_disk := d\<rparr>) }
     else Some (None, v))"

definition my_close :: "sata_file \<Rightarrow> sata_file" where
  "my_close fd = fd\<lparr>f_pos := 0\<rparr>"

text \<open>The conversion of a count or of an offset to \<^verbatim>\<open>int\<close>.\<close>

definition c_int :: "int \<Rightarrow> int" where
  "c_int x = sint (word_of_int x :: u32)"

text \<open>\<^verbatim>\<open>SEEK_END\<close> follows the pointer to the inode, which for the disk is a number and no pointer.\<close>

definition my_lseek :: "sata_file \<Rightarrow> int \<Rightarrow> int \<Rightarrow> vfs \<Rightarrow> sata_file option" where
  "my_lseek fd off whence v =
     (if whence = 0 then Some (fd\<lparr>f_pos := c_int off\<rparr>)
      else if whence = 1 then Some (fd\<lparr>f_pos := c_int (f_pos fd + off)\<rparr>)
      else if whence = 2 then do {
        guard (fs_type fd = 0 \<and> f_inode fd < length (tarfs_inode (v_tar v)));
        Some (fd\<lparr>f_pos := c_int (t_file_len (tarfs_inode (v_tar v) ! f_inode fd) + off)\<rparr>) }
      else Some fd)"

definition my_opendir :: "u8 list \<Rightarrow> vfs \<Rightarrow> ((dentry_reader \<times> nat) option \<times> vfs) option" where
  "my_opendir path v = (let fs = get_fs_index path; path = parse_path path in
     if fs = 0 then Some (map_option (\<lambda>r. (r, 0)) (open_tarfs_dir path (v_tar v)), v)
     else if fs = 1 then do { (r, d) \<leftarrow> open_sata_dir path (v_disk v); Some (map_option (\<lambda>r. (r, 1)) r, v\<lparr>v_disk := d\<rparr>) }
     else if fs = 2 then Some (Some (open_root_dir path, 2), v)
     else Some (None, v))"

text \<open>The name of the next entry of a directory.\<close>

definition my_readdir :: "dentry_reader \<Rightarrow> nat \<Rightarrow> vfs \<Rightarrow> (u8 list option \<times> dentry_reader \<times> vfs) option" where
  "my_readdir r fs v =
     (if fs = 2 then do { (n, r) \<leftarrow> read_root_dir r; Some (n, r, v) }
      else if fs = 0 then do {
        (k, r) \<leftarrow> read_tarfs_dir r (v_tar v);
        guard (case k of None \<Rightarrow> True | Some i \<Rightarrow> i < length (tarfs_entry (v_tar v)));
        Some (map_option (\<lambda>i. td_iname (tarfs_entry (v_tar v) ! i)) k, r, v) }
      else if fs = 1 then do {
        (e, r, d) \<leftarrow> read_sata_dir r (v_disk v);
        Some (map_option (\<lambda>e. takeWhile (\<lambda>x. x \<noteq> 0) (d_iname e)) e, r, v\<lparr>v_disk := d\<rparr>) }
      else Some (None, r, v))"

section \<open>Requests\<close>

datatype handle = HNone | HFile sata_file | HDir dentry_reader nat

record fs_server =
  files :: vfs
  handle_to_fd :: "nat \<Rightarrow> handle"
  all_fds :: "nat list"

datatype fs_req = IO_READ nat | IO_WRITE "u8 list" nat | IO_OPEN "u8 list" u32 | IO_OPENDIR "u8 list" | IO_READDIR | IO_LSEEK int int | IO_UNKNOWN

record fs_res =
  fr_err :: int
  fr_len :: nat
  fr_data :: "u8 list"

definition close_handle :: "nat \<Rightarrow> fs_server \<Rightarrow> fs_server" where
  "close_handle h s = s\<lparr>handle_to_fd := (handle_to_fd s)(h := HNone), all_fds := remove1 h (all_fds s)\<rparr>"

definition set_handle :: "nat \<Rightarrow> handle \<Rightarrow> vfs \<Rightarrow> fs_server \<Rightarrow> fs_server" where
  "set_handle h x v s = s\<lparr>files := v, handle_to_fd := (handle_to_fd s)(h := x)\<rparr>"

text \<open>The answer to a count: a negative one is an error number.\<close>

definition io_result :: "int \<Rightarrow> u8 list \<Rightarrow> fs_res" where
  "io_result c bs = (if c < 0 then \<lparr>fr_err = - c, fr_len = 0, fr_data = []\<rparr> else \<lparr>fr_err = 0, fr_len = nat c, fr_data = bs\<rparr>)"

definition err_res :: "int \<Rightarrow> fs_res" where
  "err_res e = \<lparr>fr_err = e, fr_len = 0, fr_data = []\<rparr>"

text \<open>The bytes the allocator really provides for a request of \<open>n\<close>: the block is the next power of two above
  the size with the header, or whole pages; a request for 4072 bytes gets none, it faults.\<close>

definition malloc_room :: "nat \<Rightarrow> nat" where
  "malloc_room n = (if n + 24 = 4096 then 0 else if 4096 < n + 24 then (n + 24 + 4095) div 4096 * 4096 - 24
     else (if n + 24 < 32 then 32 else if n + 24 < 64 then 64 else if n + 24 < 128 then 128 else if n + 24 < 256 then 256
       else if n + 24 < 512 then 512 else if n + 24 < 1024 then 1024 else if n + 24 < 2048 then 2048 else 4096) - 24)"

text \<open>The block for the answer to a read of \<open>n\<close> bytes: a header of 16 bytes, the data and a NUL, the size
  computed in 64 bits. \<open>mal sz\<close> tells whether the heap serves a request for \<open>sz\<close> bytes and takes the block
  back; the code writes to the block without looking at what it got. The NUL that the archive's reader
  puts behind the data is the last byte of the block.\<close>

definition answer_ok :: "(nat \<Rightarrow> bool) \<Rightarrow> nat \<Rightarrow> bool" where
  "answer_ok mal n = (let sz = (16 + n + 1) mod 2 ^ 64 in mal sz \<and> 17 \<le> malloc_room sz)"

lemma answer_4055: "\<not> answer_ok mal 4055"
  by (simp add: answer_ok_def malloc_room_def)

text \<open>A request on the connection \<open>h\<close>. An empty message is the end of the connection; a message of an unknown
  type is not answered. The answers to reads and to directory reads are built in the heap; the small
  structures of fixed size the server allocates for files, directories and connections are taken to
  get their memory.\<close>

definition fs_request :: "(nat \<Rightarrow> bool) \<Rightarrow> dentry \<Rightarrow> nat \<Rightarrow> fs_req option \<Rightarrow> fs_server \<Rightarrow> (fs_res option \<times> fs_server) option" where
  "fs_request mal old h q s = do {
     guard (h < 512);
     case q of
       None \<Rightarrow> Some (None, close_handle h s)
     | Some (IO_OPEN path flags) \<Rightarrow>
         if handle_to_fd s h \<noteq> HNone then Some (Some (err_res 22), close_handle h s)
         else do {
           (r, v) \<leftarrow> my_open old path flags (files s);
           Some (case r of
               None \<Rightarrow> (Some (err_res 2), close_handle h (s\<lparr>files := v\<rparr>))
             | Some fd \<Rightarrow> (Some (err_res 0), set_handle h (HFile fd) v s)) }
     | Some (IO_OPENDIR path) \<Rightarrow>
         if handle_to_fd s h \<noteq> HNone then Some (Some (err_res 22), close_handle h s)
         else do {
           (r, v) \<leftarrow> my_opendir path (files s);
           Some (case r of
               None \<Rightarrow> (Some (err_res 2), close_handle h (s\<lparr>files := v\<rparr>))
             | Some (r, fs) \<Rightarrow> (Some (err_res 0), set_handle h (HDir r fs) v s)) }
     | Some (IO_READ n) \<Rightarrow>
         (case handle_to_fd s h of
            HFile fd \<Rightarrow> do {
              guard (answer_ok mal n);
              (c, bs, fd, v) \<leftarrow> my_read fd (c_int (int n)) (files s);
              Some (Some (io_result c bs), set_handle h (HFile fd) v s) }
          | _ \<Rightarrow> None)
     | Some (IO_WRITE bs n) \<Rightarrow>
         (case handle_to_fd s h of
            HFile fd \<Rightarrow> do {
              (c, fd, v) \<leftarrow> my_write fd bs (c_int (int n)) (files s);
              Some (Some (io_result c []), set_handle h (HFile fd) v s) }
          | _ \<Rightarrow> None)
     | Some IO_READDIR \<Rightarrow>
         (case handle_to_fd s h of
            HDir r fs \<Rightarrow> do {
              guard (mal 321);
              (name, r, v) \<leftarrow> my_readdir r fs (files s);
              Some (Some (case name of None \<Rightarrow> err_res 0 | Some n \<Rightarrow> \<lparr>fr_err = 0, fr_len = 304, fr_data = n\<rparr>), set_handle h (HDir r fs) v s) }
          | _ \<Rightarrow> None)
     | Some (IO_LSEEK off whence) \<Rightarrow>
         (case handle_to_fd s h of
            HFile fd \<Rightarrow> do { fd \<leftarrow> my_lseek fd off whence (files s); Some (Some (err_res 0), set_handle h (HFile fd) (files s) s) }
          | _ \<Rightarrow> None)
     | Some IO_UNKNOWN \<Rightarrow> Some (None, s) }"

definition accept_handle :: "nat \<Rightarrow> fs_server \<Rightarrow> fs_server" where
  "accept_handle h s = s\<lparr>all_fds := h # all_fds s\<rparr>"

section \<open>The contract of a file reader\<close>

definition vfs_bytes :: "vfs \<Rightarrow> sata_file \<Rightarrow> u8 list" where
  "vfs_bytes v fd = (if fs_type fd = 0 then tar_content (v_tar v) (f_inode fd) else content (v_disk v) (f_inode fd))"

definition vfs_ready :: "vfs \<Rightarrow> sata_file \<Rightarrow> bool" where
  "vfs_ready v fd \<longleftrightarrow> (fs_type fd = 0 \<and> tar_ready (v_tar v) fd) \<or> (fs_type fd = 1 \<and> sata_ready (v_disk v) fd)"

interpretation vfs: file_reader my_read vfs_bytes vfs_ready
proof unfold_locales
  fix v fd p n
  assume r: "vfs_ready v fd" and p: "f_pos fd = int p" "p \<le> length (vfs_bytes v fd)" "p + n < 2 ^ 31"
  show "\<exists>s'. my_read fd (int n) v = Some (int (min n (length (vfs_bytes v fd) - p)), take n (drop p (vfs_bytes v fd)),
      fd\<lparr>f_pos := int (p + min n (length (vfs_bytes v fd) - p))\<rparr>, s') \<and> vfs_ready s' fd \<and> vfs_bytes s' fd = vfs_bytes v fd"
  proof (cases "fs_type fd = 0")
    case True
    then show ?thesis using tar.rd_slice [of "v_tar v" fd p n] r p by (fastforce simp: my_read_def vfs_bytes_def vfs_ready_def)
  next
    case False
    then show ?thesis using sata.rd_slice [of "v_disk v" fd p n] r p by (fastforce simp: my_read_def vfs_bytes_def vfs_ready_def)
  qed
qed (simp_all add: vfs_bytes_def vfs_ready_def tar_ready_def sata_ready_def)

lemma c_int_small: "n < 2 ^ 31 \<Longrightarrow> c_int (int n) = int n"
proof -
  assume n: "n < 2 ^ 31"
  then have "unat (of_nat n :: u32) = n" by (simp add: unat_of_nat take_bit_nat_eq_self)
  then show ?thesis using sint_u32 [of "of_nat n"] n by (simp add: c_int_def)
qed

text \<open>Reading a file of either file system in pieces of any positive size ends, and it returns exactly
  the rest of the file from the position on.\<close>

theorem read_in_pieces:
  assumes "0 < n" and "vfs_ready v fd" and "f_pos fd = int p" and "p \<le> length (vfs_bytes v fd)" and "length (vfs_bytes v fd) + n < 2 ^ 31"
  shows "\<exists>v'. read_all my_read (int n) fd v = Some (drop p (vfs_bytes v fd), fd\<lparr>f_pos := int (length (vfs_bytes v fd))\<rparr>, v')"
  by (rule vfs.read_all_bytes [OF assms])

theorem read_in_pieces_witness:
  "\<exists>v'. read_all my_read 1 \<lparr>f_inode = 0, f_flags = 0, f_pos = 0, fs_type = 1\<rparr>
      \<lparr>v_tar = \<lparr>archive = [], tarfs_entry = [], tarfs_inode = []\<rparr>, v_disk = sample_disk\<rparr> =
    Some ([104, 105], \<lparr>f_inode = 0, f_flags = 0, f_pos = 2, fs_type = 1\<rparr>, v')"
  using read_in_pieces [of 1 "\<lparr>v_tar = \<lparr>archive = [], tarfs_entry = [], tarfs_inode = []\<rparr>, v_disk = sample_disk\<rparr>"
      "\<lparr>f_inode = 0, f_flags = 0, f_pos = 0, fs_type = 1\<rparr>" 0] sample_disk_props
  by (simp add: vfs_ready_def vfs_bytes_def sata_ready_def)

section \<open>A client of the archive\<close>

text \<open>A sequence of read requests on one connection: the bytes of the answers.\<close>

fun read_requests :: "(nat \<Rightarrow> bool) \<Rightarrow> dentry \<Rightarrow> nat \<Rightarrow> nat list \<Rightarrow> fs_server \<Rightarrow> (u8 list \<times> fs_server) option" where
  "read_requests mal old h [] s = Some ([], s)"
| "read_requests mal old h (n # ns) s = do {
     (r, s) \<leftarrow> fs_request mal old h (Some (IO_READ n)) s;
     r \<leftarrow> r;
     guard (fr_err r = 0 \<and> fr_len r = length (fr_data r) \<and> fr_len r \<le> n);
     (bs, s) \<leftarrow> read_requests mal old h ns s;
     Some (fr_data r @ bs, s) }"

text \<open>The connection \<open>h\<close> has a file of the archive with the bytes \<open>c\<close> open, at the position \<open>p\<close>.\<close>

definition reads_at :: "fs_server \<Rightarrow> nat \<Rightarrow> u8 list \<Rightarrow> nat \<Rightarrow> bool" where
  "reads_at s h c p \<longleftrightarrow> p \<le> length c \<and> (\<exists>fd. handle_to_fd s h = HFile fd \<and> fs_type fd = 0 \<and> tar_ready (v_tar (files s)) fd \<and>
     tar_content (v_tar (files s)) (f_inode fd) = c \<and> f_pos fd = int p)"

lemma tar_read_request:
  assumes h: "h < 512" and r: "reads_at s h c p" and n: "p + n < 2 ^ 31"
  shows "\<exists>v. fs_request mal old h (Some (IO_READ n)) s =
      (if answer_ok mal n then Some (Some \<lparr>fr_err = 0, fr_len = min n (length c - p), fr_data = take n (drop p c)\<rparr>, v) else None) \<and>
    reads_at v h c (p + min n (length c - p)) \<and> all_fds v = all_fds s"
proof -
  obtain fd where fd: "handle_to_fd s h = HFile fd" "fs_type fd = 0" "tar_ready (v_tar (files s)) fd"
    "tar_content (v_tar (files s)) (f_inode fd) = c" "f_pos fd = int p" and p: "p \<le> length c"
    using r unfolding reads_at_def by blast
  let ?k = "min n (length c - p)"
  let ?s = "set_handle h (HFile (fd\<lparr>f_pos := int (p + ?k)\<rparr>)) (files s) s"
  have "my_read fd (c_int (int n)) (files s) = Some (int ?k, take n (drop p c), fd\<lparr>f_pos := int (p + ?k)\<rparr>, files s)"
    using tar_read_slice [OF fd(3,5) _ n] fd(2,4) p n by (simp add: my_read_def c_int_small)
  then have "fs_request mal old h (Some (IO_READ n)) s =
      (if answer_ok mal n then Some (Some \<lparr>fr_err = 0, fr_len = ?k, fr_data = take n (drop p c)\<rparr>, ?s) else None)"
    using h fd(1) by (simp add: fs_request_def io_result_def)
  moreover have "reads_at ?s h c (p + ?k)" using fd p by (auto simp: reads_at_def set_handle_def tar_ready_def)
  ultimately show ?thesis by (intro exI [of _ ?s]) (simp add: set_handle_def)
qed

lemma slice_step: "p \<le> length c \<Longrightarrow> take n (drop p c) @ take m (drop (p + min n (length c - p)) c) = take (n + m) (drop p c)"
  by (cases "n \<le> length c - p") (simp_all add: slice_append)

lemma read_requests_slice:
  assumes "h < 512" and "\<forall>n\<in>set ns. answer_ok mal n" and "reads_at s h c p" and "length c + sum_list ns < 2 ^ 31"
  shows "\<exists>s'. read_requests mal old h ns s = Some (take (sum_list ns) (drop p c), s') \<and> reads_at s' h c (min (length c) (p + sum_list ns))"
  using assms(2-)
proof (induction ns arbitrary: s p)
  case Nil
  then have "min (length c) (p + sum_list []) = p" by (simp add: reads_at_def)
  then show ?case using Nil(2) by simp
next
  case (Cons n ns)
  have p: "p \<le> length c" using Cons.prems(2) by (simp add: reads_at_def)
  obtain v where v: "fs_request mal old h (Some (IO_READ n)) s = Some (Some \<lparr>fr_err = 0, fr_len = min n (length c - p), fr_data = take n (drop p c)\<rparr>, v)"
    "reads_at v h c (p + min n (length c - p))"
    using tar_read_request [OF assms(1) Cons.prems(2), of n mal old] Cons.prems(1,3) p by auto
  obtain s' where "read_requests mal old h ns v = Some (take (sum_list ns) (drop (p + min n (length c - p)) c), s')"
    "reads_at s' h c (min (length c) (p + min n (length c - p) + sum_list ns))"
    using Cons.IH [OF _ v(2)] Cons.prems(1,3) by auto
  moreover have "min (length c) (p + min n (length c - p) + sum_list ns) = min (length c) (p + sum_list (n # ns))" using p by auto
  ultimately show ?case using v(1) slice_step [OF p, of n "sum_list ns"] by simp
qed

lemma parse_tarfs_path: "name \<noteq> [] \<Longrightarrow> get_fs_index (tarfs_path @ name) = 0 \<and> parse_path (tarfs_path @ name) = name"
  by (simp add: get_fs_index_def parse_path_def has_prefix_def str_shift_def tarfs_path_def)

lemma tar_open_request:
  assumes fs: "\<forall>f\<in>set fs. tar_ok f" "length fs < 200" "distinct ([47] # map (\<lambda>f. change_format 47 (fst f)) fs)"
    and i: "i < length fs" and t: "tarfs_init (tar_bytes fs) = Some (v_tar (files s))" and h: "h < 512" "handle_to_fd s h = HNone"
  shows "\<exists>s1. fs_request mal old h (Some (IO_OPEN (tarfs_path @ change_format 47 (fst (fs ! i))) flags)) s = Some (Some (err_res 0), s1) \<and>
    reads_at s1 h (snd (fs ! i)) 0 \<and> all_fds s1 = all_fds s"
proof -
  let ?name = "change_format 47 (fst (fs ! i))" and ?t = "v_tar (files s)"
  let ?fd = "\<lparr>f_inode = Suc i, f_flags = 0, f_pos = 0, fs_type = 0\<rparr>"
  let ?s1 = "set_handle h (HFile ?fd) (files s) s"
  have m: "get_file_index ?name ?t = Some (Suc i)" "tar_content ?t (Suc i) = snd (fs ! i)" "tar_ready ?t ?fd"
    using mounted [OF fs] t i by (metis option.inject, metis option.inject, metis option.inject sata_file.select_convs(1))
  have "fst (fs ! i) \<noteq> []" using fs(1) i nth_mem by (force simp: tar_ok_def)
  then have "?name \<noteq> []" by (auto simp: change_format_def)
  then have "fs_request mal old h (Some (IO_OPEN (tarfs_path @ ?name) flags)) s = Some (Some (err_res 0), ?s1)"
    using parse_tarfs_path [of ?name] h m(1) by (simp add: fs_request_def my_open_def tarfs_open_def Let_def)
  moreover have "reads_at ?s1 h (snd (fs ! i)) 0" using m(2,3) by (auto simp: reads_at_def set_handle_def)
  ultimately show ?thesis by (intro exI [of _ ?s1]) (simp add: set_handle_def)
qed

text \<open>The files of a mounted archive are served: a client that opens \<^verbatim>\<open>/tarfs\<close> followed by the name on a
  fresh connection gets success, and its read requests, of whatever sizes the heap has answers for, are
  answered with the bytes of the file in order; the answers end with the file.\<close>

theorem archive_served:
  assumes fs: "\<forall>f\<in>set fs. tar_ok f" "length fs < 200" "distinct ([47] # map (\<lambda>f. change_format 47 (fst f)) fs)"
    and i: "i < length fs" and ns: "length (snd (fs ! i)) + sum_list ns < 2 ^ 31" "\<forall>n\<in>set ns. answer_ok mal n"
    and t: "tarfs_init (tar_bytes fs) = Some (v_tar (files s))" and h: "h < 512" "handle_to_fd s h = HNone"
  shows "\<exists>s1 s2. fs_request mal old h (Some (IO_OPEN (tarfs_path @ change_format 47 (fst (fs ! i))) flags)) s = Some (Some (err_res 0), s1) \<and>
    read_requests mal old h ns s1 = Some (take (sum_list ns) (snd (fs ! i)), s2)"
proof -
  obtain s1 where s1: "fs_request mal old h (Some (IO_OPEN (tarfs_path @ change_format 47 (fst (fs ! i))) flags)) s = Some (Some (err_res 0), s1)"
    "reads_at s1 h (snd (fs ! i)) 0"
    using tar_open_request [OF fs i t h] by blast
  then show ?thesis using read_requests_slice [OF h(1) ns(2) s1(2) ns(1), of old] by auto
qed

text \<open>A server that has just mounted an archive.\<close>

definition fresh_server :: "tarfs \<Rightarrow> disk \<Rightarrow> fs_server" where
  "fresh_server t d = \<lparr>files = \<lparr>v_tar = t, v_disk = d\<rparr>, handle_to_fd = (\<lambda>_. HNone), all_fds = []\<rparr>"

theorem archive_served_witness:
  "\<exists>t s1 s2. tarfs_init (tar_bytes [([97], [1, 2, 3])]) = Some t \<and>
    fs_request (\<lambda>_. True) blank_dentry 5 (Some (IO_OPEN (tarfs_path @ [47, 97]) 0)) (fresh_server t sample_disk) = Some (Some (err_res 0), s1) \<and>
    read_requests (\<lambda>_. True) blank_dentry 5 [2, 4] s1 = Some ([1, 2, 3], s2)"
proof -
  obtain t where "tarfs_init (tar_bytes [([97], [1, 2, 3])]) = Some t" by (rule mount_tables [of "[([97], [1, 2, 3])]"]) (auto simp: tar_ok_def)
  then show ?thesis
    using archive_served [of "[([97], [1, 2, 3])]" 0 "[2, 4]" "\<lambda>_. True" "fresh_server t sample_disk" 5 blank_dentry 0]
    by (simp add: answer_ok_def malloc_room_def tar_ok_def change_format_def fresh_server_def)
qed

section \<open>The server\<close>

text \<open>The states of the server: after the start, new connections are accepted and requests on open
  connections are handled, in any order.\<close>

inductive fs_reach :: "vfs \<Rightarrow> fs_server \<Rightarrow> bool" for v0 :: vfs where
  start: "fs_reach v0 \<lparr>files = v0, handle_to_fd = (\<lambda>_. HNone), all_fds = []\<rparr>"
| accept: "\<lbrakk>fs_reach v0 s; h \<notin> set (all_fds s)\<rbrakk> \<Longrightarrow> fs_reach v0 (accept_handle h s)"
| request: "\<lbrakk>fs_reach v0 s; h \<in> set (all_fds s); fs_request mal old h q s = Some (r, s')\<rbrakk> \<Longrightarrow> fs_reach v0 s'"

definition handle_ok :: "tarfs \<Rightarrow> handle \<Rightarrow> bool" where
  "handle_ok t x = (case x of HNone \<Rightarrow> True
     | HFile fd \<Rightarrow> fs_type fd = 1 \<or> fs_type fd = 0 \<and> f_inode fd < length (tarfs_inode t)
     | HDir r fs \<Rightarrow> fs = 1 \<or> fs = 2 \<or> fs = 0 \<and> r_dentry r < length (tarfs_entry t))"

text \<open>A request changes the handle of its own connection only, either to a handle that is as good as before
  or to none together with the removal of the connection.\<close>

definition request_frame :: "nat \<Rightarrow> fs_server \<Rightarrow> fs_server \<Rightarrow> bool" where
  "request_frame h s s' \<longleftrightarrow> v_tar (files s') = v_tar (files s) \<and>
     (s' = close_handle h (s\<lparr>files := files s'\<rparr>) \<or>
      (\<exists>x. s' = set_handle h x (files s') s \<and> (handle_ok (v_tar (files s)) (handle_to_fd s h) \<longrightarrow> handle_ok (v_tar (files s)) x)))"

lemma frame_close: "v_tar v = v_tar (files s) \<Longrightarrow> request_frame h s (close_handle h (s\<lparr>files := v\<rparr>))"
  by (simp add: request_frame_def close_handle_def)

lemma frame_set:
  "\<lbrakk>v_tar v = v_tar (files s); handle_ok (v_tar (files s)) (handle_to_fd s h) \<Longrightarrow> handle_ok (v_tar (files s)) x\<rbrakk> \<Longrightarrow>
    request_frame h s (set_handle h x v s)"
  by (auto simp: request_frame_def set_handle_def)

text \<open>What the operations of the file systems keep of a file and of the archive.\<close>

named_theorems frames

abbreviation same_file :: "sata_file \<Rightarrow> sata_file \<Rightarrow> bool" where
  "same_file fd fd' \<equiv> f_inode fd' = f_inode fd \<and> fs_type fd' = fs_type fd"

lemma tarfs_read_frame [frames]: "tarfs_read fd n t = Some (c, bs, fd', t') \<Longrightarrow> t' = t \<and> same_file fd fd'"
  by (auto simp: tarfs_read_def Let_def split: if_splits)

lemma read_sata_frame [frames]: "read_sata_wrapper fd n d = Some (c, bs, fd', d') \<Longrightarrow> same_file fd fd'"
  by (auto simp: read_sata_wrapper_def Let_def bind_eq_Some_conv split: prod.splits if_splits)

lemma write_sata_frame [frames]: "write_sata_wrapper fd buf n d = Some (c, fd', d') \<Longrightarrow> same_file fd fd'"
  by (auto simp: write_sata_wrapper_def Let_def bind_eq_Some_conv case_prod_beta)

lemma my_read_frame [frames]: "my_read fd n v = Some (c, bs, fd', v') \<Longrightarrow> v_tar v' = v_tar v \<and> same_file fd fd'"
  by (auto simp: my_read_def bind_eq_Some_conv split: if_splits dest!: frames)

lemma my_write_frame [frames]: "my_write fd buf n v = Some (c, fd', v') \<Longrightarrow> v_tar v' = v_tar v \<and> same_file fd fd'"
  by (auto simp: my_write_def bind_eq_Some_conv split: if_splits dest!: frames)

lemma my_lseek_frame [frames]: "my_lseek fd off whence v = Some fd' \<Longrightarrow> same_file fd fd'"
  by (auto simp: my_lseek_def split: if_splits)

lemma index_in_table: "get_file_index name t = Some i \<Longrightarrow> i < length (tarfs_entry t)"
  using index_of_less [of 0 name "tarfs_entry t" i] by (simp add: get_file_index_def)

lemma my_open_frame [frames]:
  "my_open old path flags v = Some (r, v') \<Longrightarrow> length (tarfs_inode (v_tar v)) = length (tarfs_entry (v_tar v)) \<Longrightarrow>
    v_tar v' = v_tar v \<and> (\<forall>fd. r = Some fd \<longrightarrow> handle_ok (v_tar v) (HFile fd))"
  by (auto simp: my_open_def Let_def bind_eq_Some_conv tarfs_open_def handle_ok_def index_in_table split: if_splits)

lemma my_opendir_frame [frames]:
  "my_opendir path v = Some (r, v') \<Longrightarrow> v_tar v' = v_tar v \<and> (\<forall>d fs. r = Some (d, fs) \<longrightarrow> handle_ok (v_tar v) (HDir d fs))"
  by (auto simp: my_opendir_def Let_def bind_eq_Some_conv open_tarfs_dir_def handle_ok_def index_in_table split: if_splits)

lemma my_readdir_frame [frames]: "my_readdir r fs v = Some (n, r', v') \<Longrightarrow> v_tar v' = v_tar v \<and> (fs = 0 \<longrightarrow> r_dentry r' = r_dentry r)"
  by (auto simp: my_readdir_def bind_eq_Some_conv read_tarfs_dir_def Let_def split: if_splits)

lemma fs_request_frame:
  assumes q: "fs_request mal old h q s = Some (r, s')" and t: "length (tarfs_inode (v_tar (files s))) = length (tarfs_entry (v_tar (files s)))"
  shows "request_frame h s s'"
proof (cases q)
  case None
  then show ?thesis using q frame_close [of "files s" s h] by (simp add: fs_request_def)
next
  case (Some x)
  have c: "request_frame h s (close_handle h s)" using frame_close [of "files s" s h] by simp
  have n: "request_frame h s s" using frame_set [of "files s" s h "handle_to_fd s h"] by (simp add: set_handle_def)
  show ?thesis using q c n t unfolding Some
    by (cases x) (auto simp: fs_request_def bind_eq_Some_conv handle_ok_def intro!: frame_close frame_set
      dest!: frames split: if_splits handle.splits option.splits prod.splits)
qed

definition server_inv :: "tarfs \<Rightarrow> fs_server \<Rightarrow> bool" where
  "server_inv t s \<longleftrightarrow> v_tar (files s) = t \<and> distinct (all_fds s) \<and>
     (\<forall>h. (handle_to_fd s h \<noteq> HNone \<longrightarrow> h \<in> set (all_fds s)) \<and> handle_ok t (handle_to_fd s h))"

lemma close_handle_fields: "handle_to_fd (close_handle h s) = (handle_to_fd s)(h := HNone)" "all_fds (close_handle h s) = remove1 h (all_fds s)"
  and set_handle_fields: "handle_to_fd (set_handle h x v s) = (handle_to_fd s)(h := x)" "all_fds (set_handle h x v s) = all_fds s"
  by (simp_all add: close_handle_def set_handle_def)

lemma server_inv_accept: "server_inv t s \<Longrightarrow> h \<notin> set (all_fds s) \<Longrightarrow> server_inv t (accept_handle h s)"
  by (auto simp: server_inv_def accept_handle_def)

lemma server_inv_request:
  assumes inv: "server_inv t s" and h: "h \<in> set (all_fds s)" and f: "request_frame h s s'"
  shows "server_inv t s'"
proof -
  have c: "server_inv t (close_handle h (s\<lparr>files := v\<rparr>))" if "v_tar v = t" for v
    using inv that by (auto simp: server_inv_def close_handle_def handle_ok_def)
  have u: "server_inv t (set_handle h x v s)" if "v_tar v = t" "handle_ok t x" for x v
    using inv h that by (auto simp: server_inv_def set_handle_def)
  have t: "v_tar (files s') = t" "handle_ok t (handle_to_fd s h)" "v_tar (files s) = t" using inv f by (auto simp: server_inv_def request_frame_def)
  from f consider "s' = close_handle h (s\<lparr>files := files s'\<rparr>)" | x where "s' = set_handle h x (files s') s" "handle_ok t x"
    using t unfolding request_frame_def by auto
  then show ?thesis by cases (use c [of "files s'"] u [of "files s'"] t(1) in metis)+
qed

text \<open>C7. In every state the server can reach, whatever the clients ask for, the mounted archive is
  unchanged, no connection is listed twice, only listed connections have a file or a directory open,
  and what they have open exists: files and directories of the archive are entries of its tables.\<close>

theorem server_reachable_inv:
  assumes t: "tarfs_init a = Some (v_tar v0)" and r: "fs_reach v0 s"
  shows "server_inv (v_tar v0) s"
  using r
proof induction
  case start
  show ?case by (simp add: server_inv_def handle_ok_def)
next
  case (accept s h)
  then show ?case by (intro server_inv_accept)
next
  case (request s h mal old q r s')
  then have "length (tarfs_inode (v_tar (files s))) = length (tarfs_entry (v_tar (files s)))"
    using tarfs_init_lengths [OF t] by (simp add: server_inv_def)
  then show ?case using request by (blast intro: server_inv_request fs_request_frame)
qed

theorem server_reachable_inv_witness:
  "\<exists>v0. tarfs_init (tar_bytes []) = Some (v_tar v0) \<and>
    server_inv (v_tar v0) (accept_handle 5 \<lparr>files = v0, handle_to_fd = (\<lambda>_. HNone), all_fds = []\<rparr>)"
proof -
  obtain t where t: "tarfs_init (tar_bytes []) = Some t" by (rule mount_tables [of "[]"]) auto
  let ?v = "\<lparr>v_tar = t, v_disk = sample_disk\<rparr>"
  have "fs_reach ?v (accept_handle 5 \<lparr>files = ?v, handle_to_fd = (\<lambda>_. HNone), all_fds = []\<rparr>)"
    by (intro fs_reach.intros) simp
  then show ?thesis using server_reachable_inv [of "tar_bytes []" ?v] t by (intro exI [of _ ?v]) simp
qed

text \<open>C33. Requests of one client do not disturb the others: a request that is handled leaves the handles of
  all other connections and the archive as they were and removes at most its own connection; and a
  write to a file of the archive is refused with \<^verbatim>\<open>EBADF\<close> and changes nothing.\<close>

theorem requests_isolated:
  assumes t: "tarfs_init a = Some (v_tar (files s))" and q: "fs_request mal old h q s = Some (r, s')"
  shows "(\<forall>h'. h' \<noteq> h \<longrightarrow> handle_to_fd s' h' = handle_to_fd s h') \<and> v_tar (files s') = v_tar (files s) \<and>
    (all_fds s' = all_fds s \<or> all_fds s' = remove1 h (all_fds s)) \<and>
    (\<forall>bs n fd. q = Some (IO_WRITE bs n) \<longrightarrow> handle_to_fd s h = HFile fd \<longrightarrow> fs_type fd = 0 \<longrightarrow> r = Some (err_res 9) \<and> s' = s)"
proof (intro conjI)
  have f: "request_frame h s s'" using fs_request_frame [OF q tarfs_init_lengths [OF t]] .
  then show "v_tar (files s') = v_tar (files s)" by (simp add: request_frame_def)
  from f obtain v x where s': "s' = close_handle h (s\<lparr>files := v\<rparr>) \<or> s' = set_handle h x v s" unfolding request_frame_def by blast
  then show "\<forall>h'. h' \<noteq> h \<longrightarrow> handle_to_fd s' h' = handle_to_fd s h'" by (auto simp: close_handle_fields set_handle_fields)
  show "all_fds s' = all_fds s \<or> all_fds s' = remove1 h (all_fds s)" using s' by (auto simp: close_handle_fields set_handle_fields)
  show "\<forall>bs n fd. q = Some (IO_WRITE bs n) \<longrightarrow> handle_to_fd s h = HFile fd \<longrightarrow> fs_type fd = 0 \<longrightarrow> r = Some (err_res 9) \<and> s' = s"
    using q by (auto simp: fs_request_def my_write_def io_result_def err_res_def set_handle_def fun_upd_idem)
qed

theorem requests_isolated_witness:
  "\<exists>t r s'. tarfs_init (tar_bytes []) = Some t \<and> fs_request (\<lambda>_. True) blank_dentry 5 (Some (IO_OPENDIR [47])) (fresh_server t sample_disk) = Some (r, s') \<and>
    handle_to_fd s' 6 = HNone \<and> v_tar (files s') = t"
proof -
  obtain t where t: "tarfs_init (tar_bytes []) = Some t" by (rule mount_tables [of "[]"]) auto
  let ?s = "fresh_server t sample_disk"
  have "get_fs_index [47] = 2" by (simp add: get_fs_index_def has_prefix_def tarfs_path_def sata_path_def)
  then obtain r s' where "fs_request (\<lambda>_. True) blank_dentry 5 (Some (IO_OPENDIR [47])) ?s = Some (r, s')"
    by (simp add: fs_request_def my_opendir_def fresh_server_def)
  then show ?thesis using requests_isolated [of "tar_bytes []" ?s "\<lambda>_. True" blank_dentry 5 "Some (IO_OPENDIR [47])" r s'] t by (simp add: fresh_server_def)
qed

end
