(* ===== verification/Cwd.thy ===== *)
theory Cwd
  imports Prelude
begin

text \<open>
  The current directory of a program, \<^verbatim>\<open>libc/getcwd.c\<close>: \<^verbatim>\<open>getcwd\<close> and \<^verbatim>\<open>chdir\<close>, on the arrays \<^verbatim>\<open>__cwd\<close>
  and \<^verbatim>\<open>__cwd_new\<close> of \<^verbatim>\<open>PATH_MAX\<close> bytes, position by position; \<open>None\<close> is an access outside an array. A path
  is a C string without its NUL.
\<close>

section \<open>Operations\<close>

definition path_max :: nat where
  "path_max = 4096"

text \<open>\<^verbatim>\<open>strncpy\<close> of the library: at most \<open>n\<close> bytes and then always a NUL, also behind the \<open>n\<close> bytes.\<close>

definition strncpy_at :: "nat \<Rightarrow> u8 list \<Rightarrow> nat \<Rightarrow> u8 list \<Rightarrow> u8 list option" where
  "strncpy_at i s n buf = (let t = take n s @ [0] in if i + length t \<le> length buf then Some (patch i t buf) else None)"

definition getcwd :: "nat \<Rightarrow> u8 list \<Rightarrow> u8 list \<Rightarrow> (int + u8 list) option" where
  "getcwd sz cwd buf = do {
     c \<leftarrow> cstr_at 0 cwd;
     if sz = 0 then Some (Inl 22)
     else if sz < length c then Some (Inl 34)
     else if length c + 1 \<le> length buf then Some (Inr (patch 0 (c @ [0]) buf)) else None }"

text \<open>The loop back to the last slash; in front of the array the code would write to it.\<close>

fun back_to_slash :: "nat \<Rightarrow> u8 list \<Rightarrow> nat option" where
  "back_to_slash e buf = (if buf ! e = 47 then Some e else if e = 0 then None else back_to_slash (e - 1) buf)"

definition dotdot :: "u8 list \<Rightarrow> bool" where
  "dotdot path \<longleftrightarrow> take 2 path = [46, 46] \<and> (length path = 2 \<or> path ! 2 = 47)"

definition up_dir :: "nat \<Rightarrow> u8 list \<Rightarrow> (nat \<times> u8 list) option" where
  "up_dir e buf = do {
     e \<leftarrow> back_to_slash e buf;
     if e \<noteq> 0 then Some (e - 1, buf[e := 0]) else do { buf \<leftarrow> poke 1 0 buf; Some (0, buf) } }"

definition down_dir :: "u8 list \<Rightarrow> nat \<Rightarrow> u8 list \<Rightarrow> (nat \<times> u8 list) option" where
  "down_dir nm e buf = do {
     (e, buf) \<leftarrow> (if e \<noteq> 0 then do { buf \<leftarrow> poke (e + 1) 47 buf; Some (e + 1, buf) } else Some (e, buf));
     buf \<leftarrow> strncpy_at (e + 1) nm (length nm) buf;
     buf \<leftarrow> poke (e + 1 + length nm) 0 buf;
     Some (e + length nm, buf) }"

function chdir_loop :: "u8 list \<Rightarrow> nat \<Rightarrow> u8 list \<Rightarrow> (int + u8 list) option" where
  "chdir_loop path e buf =
     (if path = [] then Some (Inr buf)
      else if dotdot path then
        if e = 0 then Some (Inl 2)
        else do {
          (e, buf) \<leftarrow> up_dir e buf;
          if 2 < length path then chdir_loop (drop 3 path) e buf else Some (Inr buf) }
      else let nm = takeWhile (\<lambda>c. c \<noteq> 47) path in
        if path_max < e + length nm + 1 then Some (Inl 36)
        else do {
          (e, buf) \<leftarrow> down_dir nm e buf;
          if length nm < length path then chdir_loop (drop (length nm + 1) path) e buf else Some (Inr buf) })"
  by pat_completeness auto
termination by (relation "measure (\<lambda>(path, e, buf). length path)") auto

text \<open>The outcome is 0 or the error number, with the new contents of \<^verbatim>\<open>__cwd\<close>; \<open>buf\<close> is what \<^verbatim>\<open>__cwd_new\<close> held.\<close>

definition chdir :: "u8 list \<Rightarrow> u8 list \<Rightarrow> u8 list \<Rightarrow> (int \<times> u8 list) option" where
  "chdir path cwd buf = do {
     c \<leftarrow> cstr_at 0 cwd;
     let buf = patch 0 (c @ [0]) buf;
     if take 1 path = [47] then do { cwd \<leftarrow> strncpy_at 0 path path_max cwd; Some (0, cwd) }
     else do {
       guard (c \<noteq> []);
       let e = length c - 1;
       let e = (if buf ! e = 47 \<and> e \<noteq> 0 then e - 1 else e);
       r \<leftarrow> chdir_loop path e buf;
       case r of Inl err \<Rightarrow> Some (err, cwd)
       | Inr buf \<Rightarrow> do { s \<leftarrow> cstr_at 0 buf; Some (0, patch 0 (s @ [0]) cwd) } } }"

declare chdir_loop.simps [simp del] back_to_slash.simps [simp del]

section \<open>Directories as lists of names\<close>

definition show_path :: "u8 list list \<Rightarrow> u8 list" where
  "show_path cs = (if cs = [] then [47] else concat (map (\<lambda>c. 47 # c) cs))"

fun join_path :: "u8 list list \<Rightarrow> u8 list" where
  "join_path [] = []"
| "join_path [p] = p"
| "join_path (p # ps) = p @ 47 # join_path ps"

fun resolve :: "u8 list list \<Rightarrow> u8 list list \<Rightarrow> u8 list list option" where
  "resolve cs [] = Some cs"
| "resolve cs (p # ps) =
     (if p = [46, 46] then if cs = [] then None else resolve (butlast cs) ps else resolve (cs @ [p]) ps)"

definition name_ok :: "u8 list \<Rightarrow> bool" where
  "name_ok c \<longleftrightarrow> c \<noteq> [] \<and> 0 \<notin> set c \<and> 47 \<notin> set c"

text \<open>The buffer holds the directory, and the position is its last character.\<close>

definition holds :: "u8 list \<Rightarrow> nat \<Rightarrow> u8 list list \<Rightarrow> bool" where
  "holds buf e cs \<longleftrightarrow> length buf = path_max \<and> e + 1 = length (show_path cs) \<and> (\<exists>rest. buf = show_path cs @ 0 # rest) \<and> (\<forall>c\<in>set cs. name_ok c)"

lemma show_path_snoc: "show_path (cs @ [c]) = (if cs = [] then [] else show_path cs) @ 47 # c"
  by (simp add: show_path_def)

lemma show_path_length: "\<forall>c\<in>set cs. name_ok c \<Longrightarrow> 0 < length (show_path cs) \<and> (length (show_path cs) = 1 \<longleftrightarrow> cs = [])"
  by (cases cs) (auto simp: show_path_def name_ok_def)

lemma holdsD:
  assumes "holds buf e cs"
  shows "e = 0 \<longleftrightarrow> cs = []" and "cstr_at 0 buf = Some (show_path cs)"
proof -
  show "e = 0 \<longleftrightarrow> cs = []" using assms show_path_length [of cs] unfolding holds_def by auto
  have "0 \<notin> set (show_path cs)" using assms by (auto simp: holds_def show_path_def name_ok_def)
  then show "cstr_at 0 buf = Some (show_path cs)" using cstr_at_append [of 0 "[]" "show_path cs"] assms by (auto simp: holds_def)
qed

lemma strncpy_here:
  "length s < length xs \<Longrightarrow> strncpy_at (length pre) s (length s) (pre @ xs) = Some (pre @ s @ 0 # drop (length s + 1) xs)"
  by (simp add: strncpy_at_def patch_def)

lemma poke_here: "poke (length pre) v (pre @ x # xs) = Some (pre @ v # xs)"
  by (simp add: poke_def)

text \<open>Going down appends a name.\<close>

lemma down_dir_holds:
  assumes h: "holds buf e cs" and c: "name_ok c" and n: "e + length c + 3 \<le> path_max"
  shows "\<exists>buf'. down_dir c e buf = Some (length (show_path (cs @ [c])) - 1, buf') \<and> holds buf' (length (show_path (cs @ [c])) - 1) (cs @ [c])"
proof -
  let ?P = "show_path cs"
  obtain rest where buf: "buf = ?P @ 0 # rest" and e: "e + 1 = length ?P" and len: "length buf = path_max" and ok: "\<forall>c\<in>set cs. name_ok c"
    using h by (auto simp: holds_def)
  let ?pre = "if cs = [] then [47] else ?P @ [47]" and ?xs = "if cs = [] then 0 # rest else rest"
  have pre: "?pre = (if cs = [] then [] else ?P) @ [47]" by simp
  have slash: "(if e \<noteq> 0 then do { buf \<leftarrow> poke (e + 1) 47 buf; Some (e + 1, buf) } else Some (e, buf)) = Some (length ?pre - 1, ?pre @ ?xs)"
    using poke_here [of ?P 47 0 rest] holdsD(1) [OF h] e buf by (auto simp: show_path_def)
  have l: "length c < length ?xs" "length ?pre - 1 + 1 = length ?pre" using n len e buf holdsD(1) [OF h] by (auto simp: show_path_def)
  have s: "show_path (cs @ [c]) = ?pre @ c" by (simp add: show_path_snoc)
  let ?b = "?pre @ c @ 0 # drop (length c + 1) ?xs"
  have p: "poke (length ?pre + length c) 0 ?b = Some ?b" using poke_here [of "?pre @ c" 0 0 "drop (length c + 1) ?xs"] by simp
  have run: "down_dir c e buf = Some (length ?pre - 1 + length c, ?b)"
    unfolding down_dir_def slash using strncpy_here [OF l(1), of ?pre] p l(2) by simp
  have "length (?pre @ ?xs) = path_max" using len buf by (auto simp: show_path_def)
  then have "length ?b = path_max" using l(1) by simp
  then have "holds ?b (length ?pre - 1 + length c) (cs @ [c])" using ok c unfolding holds_def s by auto
  then show ?thesis using run by (intro exI [of _ ?b]) (simp add: s)
qed

text \<open>Going up drops the last name.\<close>

lemma back_to_slash_skip:
  "\<lbrakk>47 \<notin> set c; buf = pre @ 47 # c @ rest\<rbrakk> \<Longrightarrow> back_to_slash (length pre + length c) buf = Some (length pre)"
proof (induction c arbitrary: rest rule: rev_induct)
  case Nil
  then show ?case by (subst back_to_slash.simps) simp
next
  case (snoc x c)
  have "buf ! (length pre + length (c @ [x])) = x" using snoc.prems(2) by (simp add: nth_append)
  moreover have "back_to_slash (length pre + length c) buf = Some (length pre)" using snoc.IH [of "x # rest"] snoc.prems by simp
  ultimately show ?case using snoc.prems(1) by (subst back_to_slash.simps) simp
qed

lemma up_dir_holds:
  assumes h: "holds buf e (cs @ [c])"
  shows "\<exists>buf'. up_dir e buf = Some (length (show_path cs) - 1, buf') \<and> holds buf' (length (show_path cs) - 1) cs"
proof -
  let ?pre = "if cs = [] then [] else show_path cs"
  have s: "show_path (cs @ [c]) = ?pre @ 47 # c" by (rule show_path_snoc)
  obtain rest where buf: "buf = (?pre @ 47 # c) @ 0 # rest" and e: "e + 1 = length (?pre @ 47 # c)" and len: "length buf = path_max"
    and ok: "\<forall>c\<in>set cs. name_ok c" "name_ok c" using h unfolding holds_def s by auto
  have b: "back_to_slash e buf = Some (length ?pre)" using back_to_slash_skip [of c buf ?pre "0 # rest"] ok(2) buf e by (simp add: name_ok_def)
  show ?thesis
  proof (cases "cs = []")
    case True
    obtain x xs where c: "c = x # xs" using ok(2) by (cases c) (auto simp: name_ok_def)
    have "up_dir e buf = Some (0, [47] @ 0 # xs @ 0 # rest)" using b buf True c by (simp add: up_dir_def poke_def)
    then show ?thesis using True len buf c by (auto simp: holds_def show_path_def)
  next
    case False
    then have "0 < length (show_path cs)" using show_path_length [OF ok(1)] by simp
    then have "up_dir e buf = Some (length (show_path cs) - 1, show_path cs @ 0 # c @ 0 # rest)"
      using b buf False by (simp add: up_dir_def list_update_append)
    then show ?thesis using False len buf ok(1) \<open>0 < length (show_path cs)\<close> by (auto simp: holds_def)
  qed
qed

text \<open>A path is its first name, and a slash and the other names when there are any.\<close>

lemma join_path_Cons: "join_path (p # ps) = p @ (if ps = [] then [] else 47 # join_path ps)"
  by (cases ps) auto

lemma first_name:
  assumes "name_ok p"
  shows "join_path (p # ps) \<noteq> []" and "takeWhile (\<lambda>c. c \<noteq> 47) (join_path (p # ps)) = p" and "dotdot (join_path (p # ps)) \<longleftrightarrow> p = [46, 46]"
proof -
  show "join_path (p # ps) \<noteq> []" using assms by (simp add: join_path_Cons name_ok_def)
  show "takeWhile (\<lambda>c. c \<noteq> 47) (join_path (p # ps)) = p" using assms by (auto simp: join_path_Cons name_ok_def takeWhile_append)
  obtain x xs where p: "p = x # xs" "x \<noteq> 47" "47 \<notin> set xs" using assms by (cases p) (auto simp: name_ok_def)
  show "dotdot (join_path (p # ps)) \<longleftrightarrow> p = [46, 46]"
    using p by (cases xs; cases "tl xs") (auto simp: join_path_Cons dotdot_def nth_Cons' split: if_splits)
qed

lemma show_path_grows: "holds buf e cs \<Longrightarrow> length (show_path (cs @ [c])) - 1 \<le> e + length c + 1"
  by (auto simp: holds_def show_path_snoc)

lemma show_path_butlast: "holds buf e (cs @ [c]) \<Longrightarrow> length (show_path cs) - 1 \<le> e"
  by (auto simp: holds_def show_path_snoc show_path_def)

lemma join_path_no_nul: "\<forall>p\<in>set ps. name_ok p \<Longrightarrow> 0 \<notin> set (join_path ps)"
  by (induction ps rule: join_path.induct) (auto simp: name_ok_def)

lemma patch_cstr: "0 \<notin> set s \<Longrightarrow> cstr_at 0 (patch 0 (s @ [0]) buf) = Some s"
  using cstr_at_append [of 0 "[]" s "drop (length s + 1) buf"] by (simp add: patch_def)

lemma show_path_no_nul: "holds buf e cs \<Longrightarrow> 0 \<notin> set (show_path cs)"
  by (auto simp: holds_def show_path_def name_ok_def)

lemma written_path: "holds b e cs \<Longrightarrow> cstr_at 0 (patch 0 (show_path cs @ [0]) buf) = Some (show_path cs)"
  by (rule patch_cstr [OF show_path_no_nul])

definition outcome :: "u8 list list option \<Rightarrow> (int + u8 list) option \<Rightarrow> bool" where
  "outcome r x \<longleftrightarrow> (case r of None \<Rightarrow> x = Some (Inl 2) | Some cs \<Rightarrow> \<exists>e buf. x = Some (Inr buf) \<and> holds buf e cs)"

lemma chdir_loop_resolves:
  assumes "ps \<noteq> []" and "holds buf e cs" and "\<forall>p\<in>set ps. name_ok p" and "e + length (join_path ps) + 3 \<le> path_max"
  shows "outcome (resolve cs ps) (chdir_loop (join_path ps) e buf)"
  using assms
proof (induction ps arbitrary: buf e cs)
  case (Cons p ps)
  have p: "name_ok p" using Cons.prems(3) by simp
  note first = first_name [OF p, of ps]
  have n: "e + length p + 3 \<le> path_max" "ps \<noteq> [] \<longrightarrow> e + length p + 1 + length (join_path ps) + 3 \<le> path_max"
    using Cons.prems(4) by (auto simp: join_path_Cons split: if_splits)
  have rest: "outcome (resolve cs' ps) (if length p < length (join_path (p # ps)) then chdir_loop (drop (length p + 1) (join_path (p # ps))) e' buf' else Some (Inr buf'))"
    if h: "holds buf' e' cs'" and e': "e' \<le> e + length p + 1" for buf' e' cs'
  proof (cases "ps = []")
    case True
    then show ?thesis using h by (auto simp: outcome_def join_path_Cons)
  next
    case False
    then have "outcome (resolve cs' ps) (chdir_loop (join_path ps) e' buf')" using Cons.IH [OF False h] Cons.prems(3) n(2) e' by simp
    then show ?thesis using False by (simp add: join_path_Cons)
  qed
  show ?case
  proof (cases "p = [46, 46]")
    case True
    show ?thesis
    proof (cases "cs = []")
      case True
      then show ?thesis using first \<open>p = [46, 46]\<close> holdsD(1) [OF Cons.prems(2)] by (subst chdir_loop.simps) (simp add: outcome_def)
    next
      case False
      then obtain ds d where cs: "cs = ds @ [d]" by (cases cs rule: rev_cases) auto
      obtain buf' where up: "up_dir e buf = Some (length (show_path ds) - 1, buf')" "holds buf' (length (show_path ds) - 1) ds"
        using up_dir_holds Cons.prems(2) cs by blast
      have e0: "e \<noteq> 0" using holdsD(1) [OF Cons.prems(2)] False by simp
      have le: "length (show_path ds) - 1 \<le> e + length p + 1" using show_path_butlast Cons.prems(2) cs by (metis le_add1 le_trans)
      have d: "length p = 2" "2 + 1 = (3 :: nat)" "dotdot (join_path (p # ps))" "resolve cs (p # ps) = resolve ds ps" using \<open>p = [46, 46]\<close> first(3) cs by simp_all
      show ?thesis unfolding d(4) using rest [OF up(2) le] first(1) up(1) e0 d(3) unfolding d(1,2) by (subst chdir_loop.simps) (simp del: One_nat_def)
    qed
  next
    case False
    obtain buf' where down: "down_dir p e buf = Some (length (show_path (cs @ [p])) - 1, buf')" "holds buf' (length (show_path (cs @ [p])) - 1) (cs @ [p])"
      using down_dir_holds [OF Cons.prems(2) p n(1)] by blast
    show ?thesis using rest [OF down(2) show_path_grows [OF Cons.prems(2)]] first False down(1) n(1)
      by (subst chdir_loop.simps) (simp add: Let_def del: One_nat_def add_Suc_right)
  qed
qed simp

text \<open>C19. Changing the directory: with a relative path of proper names the names are resolved one after the
  other, \<^verbatim>\<open>..\<close> going to the parent; the new current directory is the resolved one, or, when \<^verbatim>\<open>..\<close> is asked
  for in the root, the call fails with \<^verbatim>\<open>ENOENT\<close> and the directory stays. An absolute path is taken as it is.\<close>

theorem chdir_correct:
  assumes cwd: "holds cwd e cs" and buf: "length buf = path_max" and ps: "ps \<noteq> []" "\<forall>p\<in>set ps. name_ok p"
    and n: "length (show_path cs) + length (join_path ps) + 2 \<le> path_max"
  shows "(case resolve cs ps of
        None \<Rightarrow> chdir (join_path ps) cwd buf = Some (2, cwd)
      | Some cs' \<Rightarrow> \<exists>cwd'. chdir (join_path ps) cwd buf = Some (0, cwd') \<and> cstr_at 0 cwd' = Some (show_path cs')) \<and>
    (\<exists>cwd'. chdir (47 # join_path ps) cwd buf = Some (0, cwd') \<and> cstr_at 0 cwd' = Some (47 # join_path ps))"
proof
  let ?P = "show_path cs" and ?path = "join_path ps"
  obtain p qs where p: "ps = p # qs" "name_ok p" using ps by (cases ps) auto
  have s: "cstr_at 0 cwd = Some ?P" using holdsD(2) [OF cwd] .
  have l: "e + 1 = length ?P" "length ?P < path_max" "length cwd = path_max" using cwd by (auto simp: holds_def)
  let ?b = "patch 0 (?P @ [0]) buf"
  have b: "holds ?b e cs" using cwd buf l by (auto simp: holds_def patch_def)
  have last: "?b ! e \<noteq> 47 \<or> e = 0"
  proof (cases cs rule: rev_cases)
    case (snoc ds d)
    then have d: "name_ok d" and sp: "?P = (if ds = [] then [] else show_path ds) @ 47 # d" using cwd by (auto simp: holds_def show_path_snoc)
    have "?b ! e = ?P ! e" using l(1) by (simp add: patch_def nth_append)
    also have "\<dots> = last ?P" using last_conv_nth [of ?P] l(1) by (metis add_diff_cancel_right' add_is_0 list.size(3) one_neq_zero)
    also have "\<dots> \<in> set d" using d by (simp add: sp name_ok_def)
    finally show ?thesis using d by (auto simp: name_ok_def)
  qed (use holdsD(1) [OF cwd] in simp)
  have rel: "take 1 ?path \<noteq> [47]" "?P \<noteq> []" using first_name(1,2) [OF p(2), of qs] p l(1) by (cases ?path; auto simp: name_ok_def)+
  have "outcome (resolve cs ps) (chdir_loop ?path e ?b)" using l n by (intro chdir_loop_resolves [OF ps(1) b ps(2)]) simp
  moreover have "chdir ?path cwd buf = do { r \<leftarrow> chdir_loop ?path e ?b;
      case r of Inl err \<Rightarrow> Some (err, cwd) | Inr buf \<Rightarrow> do { s \<leftarrow> cstr_at 0 buf; Some (0, patch 0 (s @ [0]) cwd) } }"
    using s rel last l(1) by (auto simp: chdir_def Let_def simp flip: l(1))
  ultimately show "case resolve cs ps of None \<Rightarrow> chdir ?path cwd buf = Some (2, cwd)
      | Some cs' \<Rightarrow> \<exists>cwd'. chdir ?path cwd buf = Some (0, cwd') \<and> cstr_at 0 cwd' = Some (show_path cs')"
    using l(3) holdsD(2) by (auto simp: outcome_def split: option.splits) (use written_path in blast)
  have "0 \<notin> set ?path" using ps(2) by (rule join_path_no_nul)
  then show "\<exists>cwd'. chdir (47 # ?path) cwd buf = Some (0, cwd') \<and> cstr_at 0 cwd' = Some (47 # ?path)"
    using s n l patch_cstr [of "47 # ?path" cwd] by (simp add: chdir_def strncpy_at_def Let_def)
qed

theorem chdir_correct_witness:
  "\<exists>cwd'. chdir [46, 46, 47, 98] ([47, 97] @ replicate 4094 0) (replicate 4096 0) = Some (0, cwd') \<and> cstr_at 0 cwd' = Some [47, 98]"
proof -
  have z: "replicate 4094 (0 :: u8) = 0 # replicate 4093 0" using replicate_Suc [of 4093 "0 :: u8"] by (simp del: replicate_Suc)
  have "length ([47, 97] @ replicate 4094 (0 :: u8)) = 4096" by (simp only: length_append length_replicate) simp
  then have "holds ([47, 97] @ replicate 4094 0) 1 [[97]]" unfolding holds_def z by (auto simp: path_max_def show_path_def name_ok_def)
  moreover have "length (replicate 4096 (0 :: u8)) = path_max" by (simp only: length_replicate path_max_def)
  ultimately show ?thesis
    using chdir_correct [of "[47, 97] @ replicate 4094 0" 1 "[[97]]" "replicate 4096 0" "[[46, 46], [98]]"]
    by (simp add: name_ok_def show_path_def path_max_def)
qed

end
