(* ===== verification/Client.thy ===== *)
theory Client
  imports Vfs Cwd
begin

text \<open>
  The file functions of the C library, \<^verbatim>\<open>libc/rw.c\<close>, as clients of the file server. The calls that carry
  a message, \<^verbatim>\<open>port_connect\<close>, \<^verbatim>\<open>wait_on\<close>, \<^verbatim>\<open>request\<close> and \<^verbatim>\<open>get_response\<close> (modelled in Ipc), are one step
  here, \<open>ask\<close>: a call of the server's handler on the server's end of the connection. The client keeps
  for its descriptors the numbers \<open>h\<close> of the server's ends; both numbers of a new connection are choices
  of the kernel, a negative descriptor its refusal. Failures of the later calls are not modelled, but
  for a request on a descriptor without a connection, whose response the code does not check.
  \<open>cm n\<close> tells whether the client's heap has memory for \<open>n\<close> bytes, \<open>mal n\<close> whether the server's has. \<open>None\<close>
  is an access outside a block or outside the pages of a response, or one through NULL.
\<close>

section \<open>Operations\<close>

record client =
  srv :: fs_server
  cwd :: "u8 list"
  conns :: "int \<Rightarrow> nat option"

text \<open>A failed call returns \<^verbatim>\<open>-1\<close> or NULL and sets \<^verbatim>\<open>errno\<close>, or it returns the code of the refused connection.\<close>

datatype failure = Errno int | Refused int

text \<open>\<^verbatim>\<open>open\<close> puts a slash between the directory and the path when it is missing, for which it has not asked
  for a byte; \<^verbatim>\<open>opendir\<close> does not put it there.\<close>

definition open_path :: "(nat \<Rightarrow> bool) \<Rightarrow> u8 list \<Rightarrow> u8 list \<Rightarrow> u8 list option" where
  "open_path cm dirbuf path =
     (if take 1 path = [47] then Some path
      else do {
        dir \<leftarrow> cstr_at 0 dirbuf;
        guard (cm (length dir + length path + 1));
        guard (dir \<noteq> []);
        let p = dir @ (if last dir \<noteq> 47 then [47] else []) @ path;
        guard (length p + 1 \<le> malloc_room (length dir + length path + 1));
        Some p })"

definition opendir_path :: "(nat \<Rightarrow> bool) \<Rightarrow> u8 list \<Rightarrow> u8 list \<Rightarrow> u8 list option" where
  "opendir_path cm dirbuf path =
     (if take 1 path = [47] then Some path
      else do {
        dir \<leftarrow> cstr_at 0 dirbuf;
        guard (cm (length dir + length path + 1) \<and> length dir + length path + 1 \<le> malloc_room (length dir + length path + 1));
        Some (dir @ path) })"

text \<open>The block for a request that carries the path: a header of 16 bytes, the path and its NUL.\<close>

definition path_req_ok :: "(nat \<Rightarrow> bool) \<Rightarrow> u8 list \<Rightarrow> bool" where
  "path_req_ok cm p = (let sz = 16 + length p + 1 in cm sz \<and> sz \<le> malloc_room sz)"

text \<open>A message on the descriptor \<open>fd\<close> and the answer; a server that does not answer leaves the client waiting.\<close>

definition ask :: "(nat \<Rightarrow> bool) \<Rightarrow> dentry \<Rightarrow> int \<Rightarrow> fs_req \<Rightarrow> client \<Rightarrow> (fs_res \<times> client) option" where
  "ask mal old fd q s = do {
     h \<leftarrow> conns s fd;
     guard (h \<in> set (all_fds (srv s)));
     (r, v) \<leftarrow> fs_request mal old h (Some q) (srv s);
     r \<leftarrow> r;
     Some (r, s\<lparr>srv := v\<rparr>) }"

definition connect :: "int \<Rightarrow> nat \<Rightarrow> client \<Rightarrow> client" where
  "connect fd h s = s\<lparr>srv := accept_handle h (srv s), conns := (conns s)(fd := Some h)\<rparr>"

definition libc_open :: "(nat \<Rightarrow> bool) \<Rightarrow> (nat \<Rightarrow> bool) \<Rightarrow> dentry \<Rightarrow> int \<Rightarrow> nat \<Rightarrow> u8 list \<Rightarrow> u32 \<Rightarrow> client \<Rightarrow> ((failure + int) \<times> client) option" where
  "libc_open cm mal old fd h path flags s = do {
     p \<leftarrow> open_path cm (cwd s) path;
     if fd < 0 then Some (Inl (Refused fd), s)
     else do {
       guard (path_req_ok cm p);
       (r, s) \<leftarrow> ask mal old fd (IO_OPEN p flags) (connect fd h s);
       Some (if fr_err r \<noteq> 0 then Inl (Errno (fr_err r)) else Inr fd, s) } }"

definition libc_opendir :: "(nat \<Rightarrow> bool) \<Rightarrow> (nat \<Rightarrow> bool) \<Rightarrow> dentry \<Rightarrow> int \<Rightarrow> nat \<Rightarrow> u8 list \<Rightarrow> client \<Rightarrow> ((failure + int) \<times> client) option" where
  "libc_opendir cm mal old fd h path s = do {
     p \<leftarrow> opendir_path cm (cwd s) path;
     if fd < 0 then Some (Inl (Refused 0), s)
     else do {
       guard (path_req_ok cm p);
       (r, s) \<leftarrow> ask mal old fd (IO_OPENDIR p) (connect fd h s);
       Some (if fr_err r \<noteq> 0 then Inl (Errno (fr_err r)) else Inr fd, s) } }"

text \<open>\<^verbatim>\<open>read\<close> copies as many bytes as it has asked for, not as many as there are; \<open>junk\<close> are the bytes that
  are mapped behind the data of the response: the NUL, the rest of its last page and of the pages that
  happen to follow. A copy beyond them faults.\<close>

definition libc_read :: "(nat \<Rightarrow> bool) \<Rightarrow> dentry \<Rightarrow> int \<Rightarrow> nat \<Rightarrow> u8 list \<Rightarrow> client \<Rightarrow> ((failure + nat \<times> u8 list) \<times> client) option" where
  "libc_read mal old fd n junk s = do {
     (r, s) \<leftarrow> ask mal old fd (IO_READ n) s;
     if fr_err r \<noteq> 0 then Some (Inl (Errno (fr_err r)), s)
     else do {
       guard (n \<le> length (fr_data r @ junk));
       Some (Inr (fr_len r, take n (fr_data r @ junk)), s) } }"

text \<open>\<open>pages n\<close> tells whether the kernel gives pages for \<open>n\<close> bytes; the code writes to what it gets.\<close>

definition libc_write :: "(nat \<Rightarrow> bool) \<Rightarrow> (nat \<Rightarrow> bool) \<Rightarrow> dentry \<Rightarrow> int \<Rightarrow> u8 list \<Rightarrow> nat \<Rightarrow> client \<Rightarrow> ((failure + nat) \<times> client) option" where
  "libc_write pages mal old fd buf n s = do {
     guard (pages ((n + 16 + 4095) div 4096 * 4096) \<and> n \<le> length buf);
     (r, s) \<leftarrow> ask mal old fd (IO_WRITE (take n buf) n) s;
     Some (if fr_err r \<noteq> 0 then Inl (Errno (fr_err r)) else Inr (fr_len r), s) }"

text \<open>The name of the next entry, or nothing at the end; a \<^verbatim>\<open>struct dirent\<close> is 280 bytes.\<close>

definition libc_readdir :: "(nat \<Rightarrow> bool) \<Rightarrow> (nat \<Rightarrow> bool) \<Rightarrow> dentry \<Rightarrow> int \<Rightarrow> client \<Rightarrow> ((failure + u8 list option) \<times> client) option" where
  "libc_readdir cm mal old fd s = do {
     (r, s) \<leftarrow> ask mal old fd IO_READDIR s;
     if fr_err r \<noteq> 0 then Some (Inl (Errno (fr_err r)), s)
     else if fr_len r = 0 then Some (Inr None, s)
     else do { guard (cm 280); Some (Inr (Some (fr_data r)), s) } }"

section \<open>Reading a file of the archive\<close>

text \<open>A program that reads in several steps, each with the bytes behind its answer, and keeps the bytes
  each call says it has read.\<close>

fun read_steps :: "(nat \<Rightarrow> bool) \<Rightarrow> dentry \<Rightarrow> int \<Rightarrow> (nat \<times> u8 list) list \<Rightarrow> client \<Rightarrow> (u8 list \<times> client) option" where
  "read_steps mal old fd [] s = Some ([], s)"
| "read_steps mal old fd ((n, junk) # xs) s = do {
     (r, s) \<leftarrow> libc_read mal old fd n junk s;
     case r of Inl err \<Rightarrow> None
     | Inr (k, buf) \<Rightarrow> do { (bs, s) \<leftarrow> read_steps mal old fd xs s; Some (take k buf @ bs, s) } }"

text \<open>The steps that go well on a file of \<open>l\<close> bytes from the position \<open>p\<close> on: the server has a block for each
  answer, and where less is left of the file than a step asks for, enough is mapped behind the answer.\<close>

fun steps_fit :: "(nat \<Rightarrow> bool) \<Rightarrow> nat \<Rightarrow> nat \<Rightarrow> (nat \<times> u8 list) list \<Rightarrow> bool" where
  "steps_fit mal l p [] = True"
| "steps_fit mal l p ((n, junk) # xs) =
     (answer_ok mal n \<and> n \<le> min n (l - p) + length junk \<and> steps_fit mal l (p + min n (l - p)) xs)"

definition client_reads_at :: "client \<Rightarrow> int \<Rightarrow> u8 list \<Rightarrow> nat \<Rightarrow> bool" where
  "client_reads_at s fd c p \<longleftrightarrow> (\<exists>h. conns s fd = Some h \<and> h < 512 \<and> h \<in> set (all_fds (srv s)) \<and> reads_at (srv s) h c p)"

lemma client_reads_at_pos: "client_reads_at s fd c p \<Longrightarrow> p \<le> length c"
  by (auto simp: client_reads_at_def reads_at_def)

lemma libc_read_archive:
  assumes r: "client_reads_at s fd c p" and n: "p + n < 2 ^ 31"
  shows "\<exists>s' buf. libc_read mal old fd n junk s =
      (if answer_ok mal n \<and> n \<le> min n (length c - p) + length junk then Some (Inr (min n (length c - p), buf), s') else None) \<and>
    client_reads_at s' fd c (p + min n (length c - p)) \<and> take (min n (length c - p)) buf = take n (drop p c)"
proof -
  obtain h where h: "conns s fd = Some h" "h < 512" "h \<in> set (all_fds (srv s))" "reads_at (srv s) h c p"
    using r by (auto simp: client_reads_at_def)
  let ?r = "\<lparr>fr_err = 0, fr_len = min n (length c - p), fr_data = take n (drop p c)\<rparr>"
  obtain v where v: "fs_request mal old h (Some (IO_READ n)) (srv s) = (if answer_ok mal n then Some (Some ?r, v) else None)"
    "reads_at v h c (p + min n (length c - p))" "all_fds v = all_fds (srv s)"
    using tar_read_request [OF h(2,4) n, of mal old] by blast
  have "libc_read mal old fd n junk s = (if answer_ok mal n \<and> n \<le> min n (length c - p) + length junk
      then Some (Inr (min n (length c - p), take n (take n (drop p c) @ junk)), s\<lparr>srv := v\<rparr>) else None)"
    using h(1,3) v(1) by (cases "n \<le> min n (length c - p) + length junk") (auto simp: libc_read_def ask_def guard_simps min_def split: if_splits)
  moreover have "client_reads_at (s\<lparr>srv := v\<rparr>) fd c (p + min n (length c - p))" using h v by (auto simp: client_reads_at_def)
  moreover have "take (min n (length c - p)) (take n (take n (drop p c) @ junk)) = take n (drop p c)" by (simp add: min_def)
  ultimately show ?thesis by blast
qed

lemma read_steps_archive:
  assumes "client_reads_at s fd c p" and "length c + sum_list (map fst xs) < 2 ^ 31"
  shows "map_option fst (read_steps mal old fd xs s) =
    (if steps_fit mal (length c) p xs then Some (take (sum_list (map fst xs)) (drop p c)) else None)"
  using assms
proof (induction xs arbitrary: s p)
  case (Cons x xs)
  obtain n junk where x: "x = (n, junk)" by fastforce
  let ?k = "min n (length c - p)"
  have p: "p \<le> length c" "p + n < 2 ^ 31" using client_reads_at_pos [OF Cons.prems(1)] Cons.prems(2) x by auto
  obtain s' buf where r: "libc_read mal old fd n junk s = (if answer_ok mal n \<and> n \<le> ?k + length junk then Some (Inr (?k, buf), s') else None)"
    "client_reads_at s' fd c (p + ?k)" "take ?k buf = take n (drop p c)"
    using libc_read_archive [OF Cons.prems(1) p(2), of mal old junk] by blast
  have IH: "map_option fst (read_steps mal old fd xs s') =
      (if steps_fit mal (length c) (p + ?k) xs then Some (take (sum_list (map fst xs)) (drop (p + ?k) c)) else None)"
    using Cons.IH [OF r(2)] Cons.prems(2) x by simp
  show ?case
  proof (cases "read_steps mal old fd xs s'")
    case None
    then show ?thesis using IH r(1) x by (auto split: if_splits)
  next
    case (Some y)
    then have "steps_fit mal (length c) (p + ?k) xs" "fst y = take (sum_list (map fst xs)) (drop (p + ?k) c)"
      using IH by (auto split: if_splits)
    then show ?thesis using r(1,3) Some x slice_step [OF p(1), of n "sum_list (map fst xs)"] by (cases y) simp
  qed
qed simp

lemma open_path_relative:
  assumes "cm (length dir + length path + 1)" and "cstr_at 0 dirbuf = Some dir"
    and "dir \<noteq> []" and "last dir \<noteq> 47" and "take 1 path \<noteq> [47]" and "length dir + length path + 1 < 4000"
  shows "open_path cm dirbuf path = Some (dir @ 47 # path)"
  using assms by (simp add: open_path_def malloc_room_def Let_def)

text \<open>Steps that together ask for no more than the file has need nothing behind the answers; a step of 4055
  bytes is never answered, as the server asks its heap for 4072.\<close>

lemma steps_fit_within:
  "\<lbrakk>\<forall>x\<in>set xs. answer_ok mal (fst x); p + sum_list (map fst xs) \<le> l\<rbrakk> \<Longrightarrow> steps_fit mal l p xs"
  by (induction mal l p xs rule: steps_fit.induct) auto

lemma steps_fit_4055: "4055 \<in> fst ` set xs \<Longrightarrow> \<not> steps_fit mal l p xs"
  by (induction mal l p xs rule: steps_fit.induct) (auto simp: answer_4055)

text \<open>C8. The file functions of the library work together with the file server: a program whose current
  directory is \<^verbatim>\<open>/tarfs\<close> opens a file of the mounted archive by its relative name, over a new connection.
  Reading in steps of whatever sizes then gives exactly the bytes of the file in order, if and only if
  the server's heap has a block for every answer and every step that asks for more than is left of the
  file finds that much mapped behind its answer, for \<^verbatim>\<open>read\<close> copies what it has asked for; otherwise a
  step faults. So steps within the file need only the blocks, and a step of 4055 bytes always fails.\<close>

theorem client_reads_archive:
  assumes fs: "\<forall>f\<in>set fs. tar_ok f" "length fs < 200" "distinct ([47] # map (\<lambda>f. change_format 47 (fst f)) fs)"
    and i: "i < length fs" and path: "change_format 47 (fst (fs ! i)) = 47 # path" "take 1 path \<noteq> [47]"
    and xs: "length (snd (fs ! i)) + sum_list (map fst xs) < 2 ^ 31"
    and t: "tarfs_init (tar_bytes fs) = Some (v_tar (files (srv s)))" and cwd: "cstr_at 0 (cwd s) = Some tarfs_path"
    and h: "0 \<le> fd" "h < 512" "handle_to_fd (srv s) h = HNone"
    and cm: "cm (length tarfs_path + length path + 1)" "cm (16 + (length tarfs_path + 1 + length path) + 1)"
  shows "\<exists>s1. libc_open cm mal old fd h path flags s = Some (Inr fd, s1) \<and>
    map_option fst (read_steps mal old fd xs s1) =
      (if steps_fit mal (length (snd (fs ! i))) 0 xs then Some (take (sum_list (map fst xs)) (snd (fs ! i))) else None) \<and>
    ((\<forall>x\<in>set xs. answer_ok mal (fst x)) \<and> sum_list (map fst xs) \<le> length (snd (fs ! i)) \<longrightarrow> read_steps mal old fd xs s1 \<noteq> None) \<and>
    (4055 \<in> fst ` set xs \<longrightarrow> read_steps mal old fd xs s1 = None)"
proof -
  let ?v = "accept_handle h (srv s)" and ?name = "change_format 47 (fst (fs ! i))"
  have "length path \<le> length (fst (fs ! i))" using change_format_length [of 47 "fst (fs ! i)"] path(1) by simp
  then have l: "length tarfs_path + length path + 1 < 4000" using fs(1) i nth_mem [OF i] by (fastforce simp: tar_ok_def tarfs_path_def)
  have p: "open_path cm (cwd s) path = Some (tarfs_path @ ?name)"
    using open_path_relative [of cm tarfs_path path "cwd s"] cm(1) cwd path(2) l unfolding path(1) by (simp add: tarfs_path_def)
  have q: "path_req_ok cm (tarfs_path @ ?name)" using cm(2) l unfolding path(1) by (simp add: path_req_ok_def malloc_room_def Let_def)
  have v: "tarfs_init (tar_bytes fs) = Some (v_tar (files ?v))" "handle_to_fd ?v h = HNone" using t h by (simp_all add: accept_handle_def)
  obtain v1 where v1: "fs_request mal old h (Some (IO_OPEN (tarfs_path @ ?name) flags)) ?v = Some (Some (err_res 0), v1)"
    "reads_at v1 h (snd (fs ! i)) 0" "all_fds v1 = all_fds ?v"
    using tar_open_request [OF fs i v(1) h(2) v(2), of mal old flags] by blast
  let ?s1 = "connect fd h s\<lparr>srv := v1\<rparr>"
  have "libc_open cm mal old fd h path flags s = Some (Inr fd, ?s1)"
    using p q v1(1) h(1) by (simp add: libc_open_def ask_def connect_def err_res_def accept_handle_def)
  moreover have r: "client_reads_at ?s1 fd (snd (fs ! i)) 0"
    using v1(2,3) h(2) by (simp add: client_reads_at_def connect_def accept_handle_def)
  moreover note read_steps_archive [OF r xs, of mal old]
  ultimately show ?thesis
    using steps_fit_within [of xs mal 0 "length (snd (fs ! i))"] steps_fit_4055 [of xs mal "length (snd (fs ! i))" 0]
    by (intro exI [of _ ?s1]) (auto split: if_splits)
qed

theorem client_reads_archive_witness:
  "\<exists>t s1. tarfs_init (tar_bytes [([97], [1, 2, 3])]) = Some t \<and>
    libc_open (\<lambda>_. True) (\<lambda>_. True) blank_dentry 3 5 [97] 0 \<lparr>srv = fresh_server t sample_disk, cwd = tarfs_path @ [0], conns = (\<lambda>_. None)\<rparr> = Some (Inr 3, s1) \<and>
    map_option fst (read_steps (\<lambda>_. True) blank_dentry 3 [(2, []), (2, [0])] s1) = Some [1, 2, 3] \<and>
    read_steps (\<lambda>_. True) blank_dentry 3 [(2, []), (2, [0])] s1 \<noteq> None"
proof -
  obtain t where "tarfs_init (tar_bytes [([97], [1, 2, 3])]) = Some t" by (rule mount_tables [of "[([97], [1, 2, 3])]"]) (auto simp: tar_ok_def)
  moreover have "cstr_at 0 (tarfs_path @ [0]) = Some tarfs_path" by code_simp
  ultimately show ?thesis
    using client_reads_archive [of "[([97], [1, 2, 3])]" 0 "[97]" "[(2, []), (2, [0])]"
        "\<lparr>srv = fresh_server t sample_disk, cwd = tarfs_path @ [0], conns = (\<lambda>_. None)\<rparr>" 3 5 "\<lambda>_. True" "\<lambda>_. True" blank_dentry 0]
    by (auto simp: answer_ok_def malloc_room_def tar_ok_def change_format_def fresh_server_def)
qed

end
