(* ===== verification/Crt.thy ===== *)
theory Crt
  imports Bitops
begin

text \<open>
  The arguments of a new program: the page that \<^verbatim>\<open>execvm\<close> (\<^verbatim>\<open>libc/exec.c\<close>) puts behind the stack, and the
  start-up code \<^verbatim>\<open>crt/crt1.c\<close> of the program, which finds the arguments there and builds the arrays
  \<^verbatim>\<open>argv\<close> and \<^verbatim>\<open>envp\<close> in front of them. The memory is the list of the bytes of the stack and of that page;
  \<open>base\<close> is the address of the first one. \<open>None\<close> is an access outside this memory, or a write to
  the part of the stack that the start-up code itself is using.
\<close>

section \<open>The arguments\<close>

definition put_str :: "u8 list \<Rightarrow> nat \<times> u8 list \<Rightarrow> (nat \<times> u8 list) option" where
  "put_str s = (\<lambda>(off, page). if off + length s + 1 \<le> length page then Some (off + length s + 1, patch off (s @ [0]) page) else None)"

fun put_strs :: "u8 list list \<Rightarrow> nat \<times> u8 list \<Rightarrow> (nat \<times> u8 list) option" where
  "put_strs [] p = Some p"
| "put_strs (s # ss) p = do { p \<leftarrow> put_str s p; put_strs ss p }"

definition args_size :: "u8 list \<Rightarrow> u8 list list \<Rightarrow> u8 list list \<Rightarrow> nat" where
  "args_size cwd argv envp = length cwd + 1 + sum_list (map (\<lambda>s. length s + 1) envp) + sum_list (map (\<lambda>s. length s + 1) argv) + 2 + 8"

text \<open>The page behind the stack and the offset of the stack pointer in it. Its layout always ends at the
  offset 4096, so more than a page of arguments starts in front of it.\<close>

definition stack_page :: "u8 list \<Rightarrow> u8 list list \<Rightarrow> u8 list list \<Rightarrow> (u8 list \<times> nat) option" where
  "stack_page cwd argv envp = do {
     let sz = args_size cwd argv envp;
     guard (sz \<le> 4096);
     let page = replicate (unat (ALIGN_UP (of_nat sz) 12)) 0;
     p \<leftarrow> put_str cwd (4096 - sz + 8, page);
     p \<leftarrow> put_strs argv p;
     p \<leftarrow> put_str [] p;
     p \<leftarrow> put_strs envp p;
     (off, page) \<leftarrow> put_str [] p;
     Some (patch (4096 - sz) (le 8 (of_nat (length argv) :: u64)) page, 4096 - sz) }"

section \<open>Start of the new program\<close>

text \<open>A pointer is stored; below \<open>lo\<close> the stack is in use.\<close>

definition put_ptr :: "nat \<Rightarrow> nat \<Rightarrow> u64 \<Rightarrow> u8 list \<Rightarrow> u8 list option" where
  "put_ptr lo a v mem = do { guard (lo \<le> a \<and> a + 8 \<le> length mem); Some (patch a (le 8 v) mem) }"

lemma put_ptr_length [simp]: "put_ptr lo a v mem = Some mem' \<Longrightarrow> length mem' = length mem"
  by (auto simp: put_ptr_def)

text \<open>The loop that stores \<open>n\<close> pointers from \<open>a\<close> on to the strings from \<open>r\<close> on.\<close>

fun start_argv :: "nat \<Rightarrow> u64 \<Rightarrow> nat \<Rightarrow> nat \<Rightarrow> nat \<Rightarrow> u8 list \<Rightarrow> (nat \<times> u8 list) option" where
  "start_argv lo base 0 a r mem = Some (r, mem)"
| "start_argv lo base (Suc n) a r mem = do {
     mem \<leftarrow> put_ptr lo a (base + of_nat r) mem;
     s \<leftarrow> cstr_at r mem;
     start_argv lo base n (a + 8) (r + length s + 1) mem }"

text \<open>The strings of the environment are entered downwards.\<close>

function start_envp :: "nat \<Rightarrow> u64 \<Rightarrow> nat \<Rightarrow> nat \<Rightarrow> u8 list \<Rightarrow> (nat \<times> u8 list) option" where
  "start_envp lo base a r mem = do {
     guard (r < length mem);
     if mem ! r = 0 then Some (a, mem)
     else do {
       guard (8 \<le> a);
       mem' \<leftarrow> put_ptr lo a (base + of_nat r) mem;
       s \<leftarrow> cstr_at r mem';
       start_envp lo base (a - 8) (r + length s + 1) mem' } }"
  by pat_completeness auto
termination by (relation "measure (\<lambda>(lo, base, a, r, mem). length mem - r)") (auto simp: guard_def split: if_splits)

declare start_envp.simps [simp del]

record started =
  st_cwd :: "u8 list"
  st_argc :: nat
  st_argv :: nat
  st_envp :: nat
  st_environ :: nat
  st_mem :: "u8 list"

text \<open>\<^verbatim>\<open>_start\<close> takes \<^verbatim>\<open>argc\<close> from the stack and aligns the stack pointer; the frame of \<^verbatim>\<open>__real_start\<close> is below
  that. How many of the bytes directly below, such as the return address of a function that never
  returns, are not needed any more is up to the compiler: the argument \<open>slack\<close>.\<close>

definition real_start :: "nat \<Rightarrow> u64 \<Rightarrow> u8 list \<Rightarrow> nat \<Rightarrow> u8 list \<Rightarrow> started option" where
  "real_start slack base mem rsp old = do {
     let argc = unat (ucast (unle (take 8 (drop rsp mem)) :: u64) :: u32);
     guard (argc < 2 ^ 31);
     let str = rsp + 8;
     let lo = str div 16 * 16 - slack;
     cwd \<leftarrow> cstr_at str mem;
     let r = str + length cwd + 1;
     guard (8 * (argc + 1) \<le> r);
     let av = r - 8 * (argc + 1);
     (r, mem) \<leftarrow> start_argv lo base argc av r mem;
     mem \<leftarrow> put_ptr lo (av + 8 * argc) 0 mem;
     guard (16 \<le> av);
     mem \<leftarrow> put_ptr lo (av - 8) 0 mem;
     (e, mem) \<leftarrow> start_envp lo base (av - 16) r mem;
     Some \<lparr>st_cwd = if cwd \<noteq> [] then cwd else old, st_argc = argc, st_argv = av, st_envp = e, st_environ = e + 8, st_mem = mem\<rparr> }"

section \<open>Arguments arrive\<close>

abbreviation strs :: "u8 list list \<Rightarrow> u8 list" where
  "strs ss \<equiv> concat (map (\<lambda>s. s @ [0]) ss)"

lemma length_strs: "length (strs ss) = sum_list (map (\<lambda>s. length s + 1) ss)"
  by (simp add: length_concat comp_def)

lemma put_str_at:
  "length s + 1 \<le> length z \<Longrightarrow> put_str s (length pre, pre @ z) = Some (length (pre @ s @ [0]), (pre @ s @ [0]) @ drop (length s + 1) z)"
  by (simp add: put_str_def patch_def)

lemma put_strs_at:
  "length (strs ss) \<le> length z \<Longrightarrow> put_strs ss (length pre, pre @ z) = Some (length (pre @ strs ss), (pre @ strs ss) @ drop (length (strs ss)) z)"
proof (induction ss arbitrary: pre z)
  case (Cons s ss)
  have "put_strs ss (length (pre @ s @ [0]), (pre @ s @ [0]) @ drop (length s + 1) z) =
      Some (length ((pre @ s @ [0]) @ strs ss), ((pre @ s @ [0]) @ strs ss) @ drop (length (strs ss)) (drop (length s + 1) z))"
    using Cons.prems by (intro Cons.IH) simp
  then show ?case using put_str_at [of s z pre] Cons.prems by (simp add: add.commute)
qed simp

text \<open>On a page that is still zero behind the strings written so far.\<close>

lemma put_zeros:
  "put_str s (length pre, pre @ replicate (length s + 1 + n) 0) = Some (length (pre @ s @ [0]), (pre @ s @ [0]) @ replicate n 0)"
  "put_strs ss (length pre, pre @ replicate (length (strs ss) + n) 0) = Some (length (pre @ strs ss), (pre @ strs ss) @ replicate n 0)"
  using put_str_at [of s "replicate (length s + 1 + n) 0" pre] put_strs_at [of ss "replicate (length (strs ss) + n) 0" pre] by simp_all

lemma ALIGN_UP_page: "0 < n \<Longrightarrow> n \<le> 4096 \<Longrightarrow> unat (ALIGN_UP (of_nat n) 12) = 4096"
proof -
  assume n: "0 < n" "n \<le> 4096"
  then have "unat (of_nat n :: u64) = n" by (intro unat_of_nat_lt) simp
  moreover have "(n + 4095) div 4096 = 1" using n by (intro div_nat_eqI) auto
  ultimately show ?thesis using n unat_ALIGN_UP [of 12 "of_nat n"] by simp
qed

lemma stack_page_layout:
  assumes sz: "args_size cwd argv envp \<le> 4096"
  defines "k \<equiv> 4096 - args_size cwd argv envp"
  shows "stack_page cwd argv envp = Some (replicate k 0 @ le 8 (of_nat (length argv) :: u64) @ (cwd @ [0]) @ strs argv @ [0] @ strs envp @ [0], k)"
proof -
  let ?n = "args_size cwd argv envp"
  have n: "?n = length (cwd @ [0]) + length (strs envp) + length (strs argv) + 10" unfolding args_size_def length_strs by simp
  have "unat (ALIGN_UP (of_nat ?n) 12) = 4096" using sz n by (intro ALIGN_UP_page) auto
  then have page: "replicate (unat (ALIGN_UP (of_nat ?n) 12)) 0 = replicate (k + 8) (0 :: u8) @ replicate (?n - 8) 0"
    using sz n by (simp add: k_def flip: replicate_add)
  let ?z = "replicate (?n - 8) (0 :: u8)" and ?p0 = "replicate (k + 8) (0 :: u8)"
  let ?p1 = "?p0 @ cwd @ [0]" and ?z1 = "replicate (length (strs argv) + (length (strs envp) + 2)) (0 :: u8)"
  let ?p2 = "?p1 @ strs argv" and ?z2 = "replicate (length (strs envp) + 2) (0 :: u8)"
  let ?p3 = "?p2 @ [] @ [0]" and ?z3 = "replicate (length (strs envp) + 1) (0 :: u8)"
  let ?p4 = "?p3 @ strs envp"
  have z: "?n - 8 = length cwd + 1 + (length (strs argv) + (length (strs envp) + 2))" using n by simp
  have 1: "put_str cwd (length ?p0, ?p0 @ ?z) = Some (length ?p1, ?p1 @ ?z1)" unfolding z by (rule put_zeros(1))
  have 2: "put_strs argv (length ?p1, ?p1 @ ?z1) = Some (length ?p2, ?p2 @ ?z2)" by (rule put_zeros(2))
  have 3: "put_str [] (length ?p2, ?p2 @ ?z2) = Some (length ?p3, ?p3 @ ?z3)"
    using put_zeros(1) [of "[]" ?p2 "length (strs envp) + 1"] by (simp add: ac_simps)
  have 4: "put_strs envp (length ?p3, ?p3 @ ?z3) = Some (length ?p4, ?p4 @ replicate 1 0)" by (rule put_zeros(2))
  have 5: "put_str [] (length ?p4, ?p4 @ replicate 1 0) = Some (length (?p4 @ [0]), ?p4 @ [0])" using put_str_at [of "[]" "[0]" ?p4] by simp
  have "4096 - ?n + 8 = length ?p0" by (simp add: k_def)
  then have "stack_page cwd argv envp = Some (patch k (le 8 (of_nat (length argv) :: u64)) (?p4 @ [0]), k)"
    unfolding stack_page_def Let_def page using sz 1 2 3 4 5 by (simp add: k_def)
  then show ?thesis by (simp add: patch_def replicate_add)
qed

text \<open>Writing pointers in front of the strings.\<close>

definition ptr_at :: "nat \<Rightarrow> u8 list \<Rightarrow> u64" where
  "ptr_at a mem = unle (take 8 (drop a mem))"

lemma nth_patch:
  assumes "off + length bs \<le> length xs" and "off \<le> i"
  shows "patch off bs xs ! i = (if i < off + length bs then bs ! (i - off) else xs ! i)"
proof -
  have l: "length (take off xs) = off" using assms(1) by simp
  have n: "patch off bs xs ! i = (bs @ drop (off + length bs) xs) ! (i - off)"
    using assms(2) unfolding patch_def nth_append [of "take off xs"] l by (simp only: not_less [THEN iffD2] if_False)
  show ?thesis
  proof (cases "i < off + length bs")
    case True
    then have "i - off < length bs" using assms(2) by linarith
    then show ?thesis unfolding n nth_append using True by simp
  next
    case False
    then have "\<not> i - off < length bs" "off + length bs + (i - off - length bs) = i" using assms(2) by linarith+
    then show ?thesis unfolding n nth_append using False assms(1) by (simp only: if_False nth_drop)
  qed
qed

lemma patch_front: "off + length bs \<le> length ps \<Longrightarrow> patch off bs (ps @ zs) = patch off bs ps @ zs"
  by (simp add: patch_def)

lemma put_ptr_front: "\<lbrakk>lo \<le> a; a + 8 \<le> length ps\<rbrakk> \<Longrightarrow> put_ptr lo a v (ps @ zs) = Some (patch a (le 8 v) ps @ zs)"
  by (simp add: put_ptr_def patch_front)

lemma cstr_at_back: "length ps \<le> i \<Longrightarrow> cstr_at i (ps @ zs) = cstr_at (i - length ps) zs"
  by (simp add: cstr_at_def)

lemma ptr_at_patch:
  "a + 8 \<le> length ps \<Longrightarrow> ptr_at a (patch a (le 8 v) ps) = v"
  "\<lbrakk>b + 8 \<le> a \<or> a + 8 \<le> b; a + 8 \<le> length ps\<rbrakk> \<Longrightarrow> ptr_at b (patch a (le 8 v) ps) = ptr_at b ps"
  using take_drop_patch [of a "le 8 v" ps] by (auto simp: ptr_at_def unle_le_full)

lemma ptr_at_front: "a + 8 \<le> length ps \<Longrightarrow> ptr_at a (ps @ zs) = ptr_at a ps"
  by (simp add: ptr_at_def)

lemma ptr_at_take: "take m ps = take m qs \<Longrightarrow> a + 8 \<le> m \<Longrightarrow> ptr_at a ps = ptr_at a qs"
proof -
  assume m: "take m ps = take m qs" "a + 8 \<le> m"
  have "min 8 (m - a) = 8" using m(2) by simp
  then have t: "take 8 (drop a (take m xs)) = take 8 (drop a xs)" for xs :: "u8 list"
    by (simp only: drop_take take_take)
  show ?thesis unfolding ptr_at_def using t [of ps] t [of qs] m(1) by metis
qed

lemma start_argv_at:
  assumes "zs = pre @ strs ss @ rest" and "\<forall>s\<in>set ss. 0 \<notin> set s" and "a + 8 * length ss \<le> length ps" and "lo \<le> a"
  shows "\<exists>ps' os. start_argv lo base (length ss) a (length ps + length pre) (ps @ zs) = Some (length ps + length (pre @ strs ss), ps' @ zs) \<and>
    length ps' = length ps \<and> take a ps' = take a ps \<and> length os = length ss \<and>
    (\<forall>i<length ss. ptr_at (a + 8 * i) ps' = base + of_nat (os ! i) \<and> length ps \<le> os ! i \<and> cstr_at (os ! i - length ps) zs = Some (ss ! i))"
  using assms
proof (induction ss arbitrary: pre a ps)
  case (Cons s ss)
  let ?r = "length ps + length pre" and ?q = "patch a (le 8 (base + of_nat (length ps + length pre))) ps"
  have a: "a + 8 \<le> length ps" using Cons.prems(3) by simp
  have lq: "length ?q = length ps" using a by simp
  have s: "cstr_at (length pre) zs = Some s" using cstr_at_append [of "length pre" pre s "strs ss @ rest"] Cons.prems by simp
  have zs: "zs = (pre @ s @ [0]) @ strs ss @ rest" using Cons.prems(1) by simp
  obtain ps' os where ih: "start_argv lo base (length ss) (a + 8) (length ?q + length (pre @ s @ [0])) (?q @ zs) =
      Some (length ?q + length ((pre @ s @ [0]) @ strs ss), ps' @ zs)"
    "length ps' = length ?q" "take (a + 8) ps' = take (a + 8) ?q" "length os = length ss"
    "\<forall>i<length ss. ptr_at (a + 8 + 8 * i) ps' = base + of_nat (os ! i) \<and> length ?q \<le> os ! i \<and> cstr_at (os ! i - length ?q) zs = Some (ss ! i)"
    using Cons.IH [OF zs, of "a + 8" ?q] Cons.prems(2-4) lq by auto
  have "take a ps' = take a ?q" using arg_cong [OF ih(3), of "take a"] by (simp add: min_def)
  also have "\<dots> = take a ps" using a by (simp add: patch_def)
  finally have t: "take a ps' = take a ps" .
  have p: "ptr_at a ps' = base + of_nat ?r" using ptr_at_take [OF ih(3)] ptr_at_patch(1) [OF a] by simp
  have run: "start_argv lo base (length (s # ss)) a ?r (ps @ zs) = Some (length ps + length (pre @ strs (s # ss)), ps' @ zs)"
    using ih(1) put_ptr_front [OF Cons.prems(4) a] cstr_at_back [of ?q ?r zs] s lq by (simp add: ac_simps)
  have "\<forall>i<length (s # ss). ptr_at (a + 8 * i) ps' = base + of_nat ((?r # os) ! i) \<and> length ps \<le> (?r # os) ! i \<and>
      cstr_at ((?r # os) ! i - length ps) zs = Some ((s # ss) ! i)"
    using ih(5) p s lq by (auto simp: less_Suc_eq_0_disj add.assoc)
  then show ?case using run ih(2,4) t lq by (intro exI [of _ ps'] exI [of _ "?r # os"]) simp
qed simp

text \<open>The start-up code once it has found the directory: \<open>av\<close> is where the array begins, \<open>lo\<close> where the frame ends.\<close>

definition build_arrays :: "nat \<Rightarrow> u64 \<Rightarrow> nat \<Rightarrow> nat \<Rightarrow> u8 list \<Rightarrow> nat \<Rightarrow> u8 list \<Rightarrow> started option" where
  "build_arrays lo base n av cwd r mem = do {
     (r, mem) \<leftarrow> start_argv lo base n av r mem;
     mem \<leftarrow> put_ptr lo (av + 8 * n) 0 mem;
     mem \<leftarrow> put_ptr lo (av - 8) 0 mem;
     (e, mem) \<leftarrow> start_envp lo base (av - 16) r mem;
     Some \<lparr>st_cwd = cwd, st_argc = n, st_argv = av, st_envp = e, st_environ = e + 8, st_mem = mem\<rparr> }"

lemma real_start_steps:
  assumes "take 8 (drop rsp mem) = le 8 (of_nat n :: u64)" and "n < 4096" and "cstr_at (rsp + 8) mem = Some cwd" and "cwd \<noteq> []"
    and "av + 8 * (n + 1) = rsp + 8 + length cwd + 1" and "16 \<le> av"
  shows "real_start slack base mem rsp old =
    build_arrays ((rsp + 8) div 16 * 16 - slack) base n av cwd (rsp + 8 + length cwd + 1) mem"
proof -
  have argc: "unat (ucast (of_nat n :: u64) :: u32) = n"
    using assms(2) by (simp add: unsigned_ucast_eq unat_of_nat_lt take_bit_nat_eq_self)
  have av: "rsp + 8 + length cwd + 1 - 8 * (n + 1) = av" using assms(5) by linarith
  have g: "guard (n < 2 ^ 31) = Some ()" "guard (8 * (n + 1) \<le> rsp + 8 + length cwd + 1) = Some ()" "guard (16 \<le> av) = Some ()"
    using assms(2,5,6) unfolding guard_def by auto
  have u: "(unle (le 8 (of_nat n :: u64)) :: u64) = of_nat n" by (rule unle_le_full) simp
  show ?thesis unfolding real_start_def build_arrays_def Let_def assms(1,3) u argc bind.bind_lunit g av using assms(4) by simp
qed

lemma build_arrays_overwrite: "\<not> lo \<le> av - 8 \<Longrightarrow> build_arrays lo base n av cwd r mem = None"
  by (auto simp: build_arrays_def put_ptr_def split: bind_split)

lemma build_arrays_ok:
  assumes zs: "zs = strs argv @ 0 # rest" "\<forall>s\<in>set argv. 0 \<notin> set s"
    and av: "av + 8 * (length argv + 1) = length ps" "16 \<le> av" "lo \<le> av - 8"
  shows "\<exists>st os. build_arrays lo base (length argv) av cwd (length ps) (ps @ zs) = Some st \<and>
    st_cwd st = cwd \<and> st_argc st = length argv \<and> length os = length argv \<and>
    (\<forall>i<length argv. ptr_at (st_argv st + 8 * i) (st_mem st) = base + of_nat (os ! i) \<and> cstr_at (os ! i) (st_mem st) = Some (argv ! i)) \<and>
    ptr_at (st_argv st + 8 * length argv) (st_mem st) = 0 \<and> ptr_at (st_environ st) (st_mem st) = 0 \<and> st_envp st + 8 = st_environ st"
proof -
  let ?n = "length argv"
  have lo: "lo \<le> av" "lo \<le> av + 8 * ?n" using av(3) by auto
  obtain ps' os where a: "start_argv lo base ?n av (length ps) (ps @ zs) = Some (length ps + length (strs argv), ps' @ zs)"
    "length ps' = length ps" "length os = ?n"
    "\<forall>i<?n. ptr_at (av + 8 * i) ps' = base + of_nat (os ! i) \<and> length ps \<le> os ! i \<and> cstr_at (os ! i - length ps) zs = Some (argv ! i)"
    using start_argv_at [of zs "[]" argv "0 # rest" av ps lo base] zs av(1) lo(1) by auto
  let ?q = "patch (av + 8 * ?n) (le 8 (0 :: u64)) ps'"
  let ?m = "patch (av - 8) (le 8 (0 :: u64)) ?q"
  have b: "av + 8 * ?n + 8 \<le> length ps'" "8 \<le> av" "av - 8 + 8 = av" using av a(2) by simp_all
  have l: "length ?q = length ps'" "length ?m = length ps'" using b by simp_all
  have e: "start_envp lo base (av - 16) (length ps + length (strs argv)) (?m @ zs) = Some (av - 16, ?m @ zs)"
    using l a(2) zs(1) by (subst start_envp.simps) (simp add: nth_append)
  have r: "build_arrays lo base ?n av cwd (length ps) (ps @ zs) =
      Some \<lparr>st_cwd = cwd, st_argc = ?n, st_argv = av, st_envp = av - 16, st_environ = av - 16 + 8, st_mem = ?m @ zs\<rparr>"
    unfolding build_arrays_def a(1) using put_ptr_front [OF lo(2) b(1)] put_ptr_front [OF av(3), of ?q] b l e by simp
  have argv: "ptr_at (av + 8 * i) (?m @ zs) = base + of_nat (os ! i) \<and> cstr_at (os ! i) (?m @ zs) = Some (argv ! i)" if i: "i < ?n" for i
  proof -
    have "ptr_at (av + 8 * i) (?m @ zs) = ptr_at (av + 8 * i) ?m" using i b l by (intro ptr_at_front) linarith
    also have "\<dots> = ptr_at (av + 8 * i) ?q" using b l by (intro ptr_at_patch(2)) auto
    also have "\<dots> = ptr_at (av + 8 * i) ps'" using i b by (intro ptr_at_patch(2)) auto
    finally show ?thesis using a(4) i l a(2) by (simp add: cstr_at_back)
  qed
  have null: "ptr_at (av + 8 * ?n) (?m @ zs) = 0"
  proof -
    have "ptr_at (av + 8 * ?n) (?m @ zs) = ptr_at (av + 8 * ?n) ?m" using b l by (intro ptr_at_front) linarith
    also have "\<dots> = ptr_at (av + 8 * ?n) ?q" using b l by (intro ptr_at_patch(2)) auto
    also have "\<dots> = 0" by (rule ptr_at_patch(1) [OF b(1)])
    finally show ?thesis .
  qed
  have env: "ptr_at (av - 16 + 8) (?m @ zs) = 0"
  proof -
    have 8: "av - 16 + 8 = av - 8" using av(2) by linarith
    have "ptr_at (av - 8) (?m @ zs) = ptr_at (av - 8) ?m" using b l by (intro ptr_at_front) linarith
    also have "\<dots> = 0" using b l by (intro ptr_at_patch(1)) linarith
    finally show ?thesis unfolding 8 .
  qed
  show ?thesis using r argv null env a(3) by auto
qed

text \<open>The program's memory, and whether the two arrays fit between the frame of the start-up code and the
  strings of the arguments; the current directory, which has been copied, may be overwritten.\<close>

definition stack_size :: nat where
  "stack_size = 0x100000"

definition start_mem :: "u8 list \<Rightarrow> u8 list" where
  "start_mem page = replicate stack_size 0 @ page"

definition arrays_fit :: "nat \<Rightarrow> nat \<Rightarrow> u8 list \<Rightarrow> u8 list list \<Rightarrow> bool" where
  "arrays_fit slack off cwd argv \<longleftrightarrow> 8 * (length argv + 2) \<le> (off + 8) mod 16 + length cwd + 1 + slack"

text \<open>C18. What \<^verbatim>\<open>execvm\<close> puts behind the stack of a new program is what its start-up code finds: the current
  directory, the number of arguments, and an array of pointers to all arguments in order, with its final
  NULL, as long as the strings fit in a page together and the arrays fit in front of them. Otherwise
  building the arrays overwrites the frame of the start-up code; with a short current directory that
  happens with a few arguments. The environment does not arrive: \<^verbatim>\<open>environ\<close> is empty whatever was passed,
  because the zero byte behind the arguments is taken for its end; and the \<^verbatim>\<open>envp\<close> that \<^verbatim>\<open>main\<close> gets
  is not \<^verbatim>\<open>environ\<close> but the slot below it.\<close>

theorem exec_arguments_arrive:
  assumes sz: "args_size cwd argv envp \<le> 4096" and nz: "cwd \<noteq> []" "0 \<notin> set cwd" "\<forall>s\<in>set argv. 0 \<notin> set s" and slack: "slack \<le> 4096"
  shows "\<exists>page off. stack_page cwd argv envp = Some (page, off) \<and>
    (if arrays_fit slack off cwd argv
     then \<exists>st os. real_start slack base (start_mem page) (stack_size + off) old = Some st \<and>
       st_cwd st = cwd \<and> st_argc st = length argv \<and> length os = length argv \<and>
       (\<forall>i<length argv. ptr_at (st_argv st + 8 * i) (st_mem st) = base + of_nat (os ! i) \<and> cstr_at (os ! i) (st_mem st) = Some (argv ! i)) \<and>
       ptr_at (st_argv st + 8 * length argv) (st_mem st) = 0 \<and>
       ptr_at (st_environ st) (st_mem st) = 0 \<and> st_envp st + 8 = st_environ st
     else real_start slack base (start_mem page) (stack_size + off) old = None)"
proof -
  let ?k = "4096 - args_size cwd argv envp" and ?c = "le 8 (of_nat (length argv) :: u64)" and ?n = "length argv"
  let ?page = "replicate ?k 0 @ ?c @ (cwd @ [0]) @ strs argv @ [0] @ strs envp @ [0]"
  let ?ps = "replicate (stack_size + ?k) 0 @ ?c @ cwd @ [0]" and ?zs = "strs argv @ [0] @ strs envp @ [0]"
  let ?rsp = "stack_size + ?k" and ?str = "stack_size + ?k + 8"
  let ?lo = "?str div 16 * 16 - slack"
  have page: "stack_page cwd argv envp = Some (?page, ?k)" by (rule stack_page_layout [OF sz])
  have mem: "start_mem ?page = ?ps @ ?zs" by (simp add: start_mem_def replicate_add)
  have lp: "length ?ps = ?str + length cwd + 1" by simp
  have "?n \<le> length (strs argv)" by (induction argv) auto
  then have n: "?n < 4096" using sz unfolding args_size_def length_strs by simp
  have st: "100000 \<le> ?str" by (simp add: stack_size_def)
  obtain av where av: "av + 8 * (?n + 1) = ?str + length cwd + 1" "16 \<le> av"
  proof
    have "8 * (?n + 1) + 16 \<le> (100000 :: nat)" using n by simp
    also have "\<dots> \<le> ?str + (length cwd + 1)" by (rule order_trans [OF st le_add1])
    finally have "8 * (?n + 1) + 16 \<le> ?str + length cwd + 1" by (simp only: add.assoc)
    then show "?str + length cwd + 1 - 8 * (?n + 1) + 8 * (?n + 1) = ?str + length cwd + 1" "16 \<le> ?str + length cwd + 1 - 8 * (?n + 1)"
      by (simp_all only: le_add_diff_inverse2 add_leD1 le_diff_conv2 add.commute [of 16])
  qed
  have c: "take 8 (drop ?rsp (?ps @ ?zs)) = ?c" by simp
  have cwd: "cstr_at ?str (?ps @ ?zs) = Some cwd"
    using cstr_at_append [of ?str "replicate ?rsp 0 @ ?c" cwd ?zs] nz(2) by simp
  have run: "real_start slack base (start_mem ?page) ?rsp old = build_arrays ?lo base ?n av cwd (?str + length cwd + 1) (?ps @ ?zs)"
    unfolding mem by (rule real_start_steps [OF c n cwd nz(1) av])
  have "?str mod 16 = (?k + 8) mod 16"
  proof -
    have "?str = (?k + 8) + 65536 * 16" by (simp add: stack_size_def)
    then show ?thesis by (simp only: mod_mult_self1)
  qed
  then have lo: "?lo = ?str - (?k + 8) mod 16 - slack" by (simp add: minus_mod_eq_div_mult [symmetric])
  have fit: "arrays_fit slack ?k cwd argv \<longleftrightarrow> ?lo \<le> av - 8"
  proof -
    have key: "(8 * (m + 2) \<le> d + cl + 1 + slack) = (S - d - slack \<le> av - 8)"
      if "d < 16" "av + 8 * (m + 1) = S + cl + 1" "100000 \<le> S" for d cl m S :: nat
    proof -
      define A B where "A = S - d - slack" and "B = av - 8"
      have "A + d + slack = S" using that(1,3) slack by (simp add: A_def)
      moreover have "B + 8 = av" using av(2) by (simp add: B_def)
      ultimately have "8 * (m + 2) \<le> d + cl + 1 + slack \<longleftrightarrow> A \<le> B" using that(2) by arith
      then show ?thesis unfolding A_def B_def .
    qed
    show ?thesis unfolding arrays_fit_def lo by (rule key [OF _ av(1) st]) simp
  qed
  show ?thesis
  proof (cases "arrays_fit slack ?k cwd argv")
    case False
    then show ?thesis using page run build_arrays_overwrite [of ?lo av] fit by auto
  next
    case True
    have av': "av + 8 * (?n + 1) = length ?ps" unfolding lp by (rule av(1))
    have "?zs = strs argv @ 0 # (strs envp @ [0])" by simp
    from build_arrays_ok [OF this nz(3) av' av(2) True [unfolded fit], of base cwd] show ?thesis
      unfolding lp run [symmetric] using page True by auto
  qed
qed

theorem exec_arguments_arrive_witness:
  "\<exists>page off. stack_page (replicate 40 97) [[108, 115], [45, 97]] [[65, 61, 66]] = Some (page, off) \<and>
    (\<exists>st os. real_start 0 0x500000 (start_mem page) (stack_size + off) [] = Some st \<and> st_cwd st = replicate 40 97 \<and> st_argc st = 2 \<and>
      ptr_at (st_argv st + 8) (st_mem st) = 0x500000 + of_nat (os ! 1) \<and> cstr_at (os ! 1) (st_mem st) = Some [45, 97])"
proof -
  let ?cwd = "replicate 40 (97 :: u8)" and ?argv = "[[108, 115], [45, 97 :: u8]]"
  have fit: "arrays_fit 0 k ?cwd ?argv" for k by (simp add: arrays_fit_def)
  obtain page off where p: "stack_page ?cwd ?argv [[65, 61, 66]] = Some (page, off)"
    "if arrays_fit 0 off ?cwd ?argv
     then \<exists>st os. real_start 0 0x500000 (start_mem page) (stack_size + off) [] = Some st \<and>
       st_cwd st = ?cwd \<and> st_argc st = length ?argv \<and> length os = length ?argv \<and>
       (\<forall>i<length ?argv. ptr_at (st_argv st + 8 * i) (st_mem st) = 0x500000 + of_nat (os ! i) \<and> cstr_at (os ! i) (st_mem st) = Some (?argv ! i)) \<and>
       ptr_at (st_argv st + 8 * length ?argv) (st_mem st) = 0 \<and>
       ptr_at (st_environ st) (st_mem st) = 0 \<and> st_envp st + 8 = st_environ st
     else real_start 0 0x500000 (start_mem page) (stack_size + off) [] = None"
    using exec_arguments_arrive [of ?cwd ?argv "[[65, 61, 66]]" 0 "0x500000" "[]"] by (auto simp: args_size_def)
  then obtain st os where st: "real_start 0 0x500000 (start_mem page) (stack_size + off) [] = Some st" "st_cwd st = ?cwd" "st_argc st = length ?argv"
    "\<forall>i<length ?argv. ptr_at (st_argv st + 8 * i) (st_mem st) = 0x500000 + of_nat (os ! i) \<and> cstr_at (os ! i) (st_mem st) = Some (?argv ! i)"
    using fit [of off] by auto
  have "1 < length ?argv" by simp
  from st(4) [rule_format, OF this] show ?thesis using p(1) st(1-3) by (simp add: numeral_2_eq_2) blast
qed

end
