(* ===== verification/Exec.thy ===== *)
theory Exec
  imports Aspace Crt
begin

text \<open>
  Starting a program: the ELF reader of the C library (\<^verbatim>\<open>libc/elf/elf.c\<close>) and \<^verbatim>\<open>execvm\<close> of \<^verbatim>\<open>libc/exec.c\<close>,
  which loads the segments into a new address space and maps a stack and the page of the arguments. The
  executable is the list of its bytes; the new address space is its chain of areas, to which the
  kernel's system call adds as in Aspace, and the bytes mapped in it. \<open>room\<close> says for which lengths the
  address space of the caller has a gap; the kernel has memory for its own structures. \<open>None\<close> is an access outside the executable, outside the pages
  the library has asked for, or through NULL.
\<close>

section \<open>ELF files\<close>

definition rd :: "nat \<Rightarrow> nat \<Rightarrow> u8 list \<Rightarrow> 'a::len word" where
  "rd n off f = unle (take n (drop off f))"

record elf64_hdr =
  e_entry :: u64
  e_phoff :: u64
  e_phnum :: u16

record elf64_phdr =
  p_type :: u32
  p_offset :: u64
  p_vaddr :: u64
  p_filesz :: u64
  p_memsz :: u64

definition elf_load :: "u8 list \<Rightarrow> elf64_hdr option option" where
  "elf_load f = do {
     guard (64 \<le> length f);
     Some (if take 4 f = [0x7f, 69, 76, 70] \<and> f ! 4 = 2 \<and> f ! 5 = 1
       then Some \<lparr>e_entry = rd 8 24 f, e_phoff = rd 8 32 f, e_phnum = rd 2 56 f\<rparr> else None) }"

definition phdr_at :: "u8 list \<Rightarrow> nat \<Rightarrow> elf64_phdr option" where
  "phdr_at f off = do {
     guard (off + 56 \<le> length f);
     Some \<lparr>p_type = rd 4 off f, p_offset = rd 8 (off + 8) f, p_vaddr = rd 8 (off + 16) f,
       p_filesz = rd 8 (off + 32) f, p_memsz = rd 8 (off + 40) f\<rparr> }"

text \<open>The loop over \<open>n\<close> program headers from the one at \<open>off\<close> on; it stops at the first result that is not 0.\<close>

fun elf_foreach_ph :: "nat \<Rightarrow> nat \<Rightarrow> u8 list \<Rightarrow> (u8 list \<Rightarrow> elf64_phdr \<Rightarrow> 's \<Rightarrow> (int \<times> 's) option) \<Rightarrow> 's \<Rightarrow> (int \<times> 's) option" where
  "elf_foreach_ph 0 off f fn s = Some (0, s)"
| "elf_foreach_ph (Suc n) off f fn s = do {
     ph \<leftarrow> phdr_at f off;
     (ret, s) \<leftarrow> fn f ph s;
     if ret \<noteq> 0 then Some (ret, s) else elf_foreach_ph n (off + 56) f fn s }"

section \<open>Loading\<close>

type_synonym image = "u64 \<rightharpoonup> u8"

record new_as =
  na_vmas :: "vm_area list"
  na_mem :: image

definition new_vma :: "u64 \<Rightarrow> u64 \<Rightarrow> vm_area" where
  "new_vma a ln = \<lparr>vma_id = 0, vma_flags = VMA_RW, vma_page_size = 0, vma_begin = a, vma_length = ln, vma_pages = []\<rparr>"

text \<open>Where the kernel puts an area in a new address space, and the areas then: at the given address, if that
  is aligned, between the bounds of user space and without overlap, or for the address 0 in the first
  gap. \<open>None\<close> is an error number.\<close>

definition place :: "u64 \<Rightarrow> u64 \<Rightarrow> vm_area list \<Rightarrow> (u64 \<times> vm_area list) option" where
  "place dst ln vs =
     (if dst \<noteq> 0 then
        if dst AND 0xfff \<noteq> 0 \<or> dst < USER_BASE \<or> USER_TOP < dst then None
        else map_option (\<lambda>vs. (dst, vs)) (add_vma (new_vma dst ln) vs)
      else
        let (b, n) = find_gap ln USER_BASE vs in
        if n = length vs \<and> USER_TOP < b + ln then None
        else Some (b, take n vs @ new_vma b ln # drop n vs))"

text \<open>\<^verbatim>\<open>sendpage\<close> into the new address space returns the address, or NULL when the kernel refuses; the callers
  do not take NULL for an error, and nothing is mapped.\<close>

definition sendpage :: "u64 \<Rightarrow> u8 list \<Rightarrow> new_as \<Rightarrow> u64 \<times> new_as" where
  "sendpage dst bs s =
     (case place dst (of_nat (length bs)) (na_vmas s) of
        None \<Rightarrow> (0, s)
      | Some (b, vs) \<Rightarrow> (b, \<lparr>na_vmas = vs, na_mem = (\<lambda>x. if unat (x - b) < length bs then Some (bs ! unat (x - b)) else na_mem s x)\<rparr>))"

text \<open>Where a segment in page 0 or one without a page goes depends on the kernel's choices for the caller; that
  is not modelled.\<close>

definition mapper :: "(u64 \<Rightarrow> bool) \<Rightarrow> u8 list \<Rightarrow> elf64_phdr \<Rightarrow> new_as \<Rightarrow> (int \<times> new_as) option" where
  "mapper room f ph s =
     (if p_type ph = 2 then Some (8, s)
      else if p_type ph = 3 then Some (8, s)
      else if p_type ph \<noteq> 1 then Some (0, s)
      else do {
        let abegin = ALIGN (p_vaddr ph) 12;
        let aend = ALIGN_UP (p_vaddr ph + p_memsz ph) 12;
        guard (abegin \<noteq> 0 \<and> aend - abegin \<noteq> 0);
        let page = replicate (unat (aend - abegin)) 0;
        let off = unat (p_vaddr ph - abegin);
        guard (p_filesz ph = 0 \<or> room (aend - abegin) \<and>
          unat (p_offset ph) + unat (p_filesz ph) \<le> length f \<and> off + unat (p_filesz ph) \<le> length page);
        let page = (if p_filesz ph = 0 then page else patch off (take (unat (p_filesz ph)) (drop (unat (p_offset ph)) f)) page);
        Some (0, snd (sendpage abegin page s)) })"

record thread_info =
  ti_rsp :: u64
  ti_rcx :: u64

text \<open>The result is what \<^verbatim>\<open>create_task\<close> is called with, or an error number. When the page behind the stack is
  refused, the stack pointer is computed from NULL.\<close>

definition execvm :: "(u64 \<Rightarrow> bool) \<Rightarrow> u8 list \<Rightarrow> u8 list \<Rightarrow> u8 list list \<Rightarrow> u8 list list \<Rightarrow> (int + thread_info \<times> new_as) option" where
  "execvm room f cwd argv envp = do {
     ei \<leftarrow> elf_load f;
     case ei of
       None \<Rightarrow> Some (Inl 8)
     | Some hdr \<Rightarrow> do {
         (ret, s) \<leftarrow> elf_foreach_ph (unat (e_phnum hdr)) (unat (e_phoff hdr)) f (mapper room) \<lparr>na_vmas = [], na_mem = Map.empty\<rparr>;
         if ret \<noteq> 0 then Some (Inl 7)
         else do {
           (page, off) \<leftarrow> stack_page cwd argv envp;
           guard (room (of_nat (length page)));
           let (stk, s) = sendpage 0 (replicate stack_size 0) s;
           let (pg, s) = sendpage (stk + of_nat stack_size) page s;
           Some (Inr (\<lparr>ti_rsp = pg + of_nat off, ti_rcx = e_entry hdr\<rparr>, s)) } } }"

section \<open>Placing an area\<close>

text \<open>The areas of the new address space are in order and in user space, and only their bytes are mapped.\<close>

definition in_user :: "vm_area \<Rightarrow> bool" where
  "in_user v \<longleftrightarrow> unat USER_BASE \<le> unat (vma_begin v) \<and> unat (vma_begin v) + unat (vma_length v) \<le> unat USER_TOP"

definition as_ok :: "new_as \<Rightarrow> bool" where
  "as_ok s \<longleftrightarrow> vmas_ok (na_vmas s) \<and> (\<forall>x\<in>dom (na_mem s). covered (na_vmas s) (unat x))"

lemma new_vma_simps [simp]: "vma_begin (new_vma a n) = a" "vma_length (new_vma a n) = n"
  by (simp_all add: new_vma_def)

lemma user_bounds: "unat USER_BASE = 0x400000" "unat USER_TOP = 0x7ffffffffffff000"
  by (simp_all add: USER_BASE_def USER_TOP_def)

lemma place_any:
  assumes ok: "vmas_ok vs" and u: "\<forall>v\<in>set vs. in_user v" and ln: "0 < unat ln" "unat ln < 2 ^ 62" and p: "place 0 ln vs = Some (b, vs')"
  shows "vmas_ok vs' \<and> set vs' = insert (new_vma b ln) (set vs) \<and> (\<forall>w\<in>set vs. \<not> vma_overlap (new_vma b ln) w) \<and> vma_ok (new_vma b ln) \<and>
    unat b \<le> unat USER_TOP"
proof -
  obtain n where g: "find_gap ln USER_BASE vs = (b, n)" "vs' = take n vs @ new_vma b ln # drop n vs"
    using p by (auto simp: place_def Let_def split: prod.splits if_splits)
  have gap: "n \<le> length vs \<and> unat USER_BASE \<le> unat b \<and> unat b \<le> unat USER_TOP \<and>
    (\<forall>v\<in>set (take n vs). unat (vma_begin v) + unat (vma_length v) \<le> unat b) \<and>
    (\<forall>v\<in>set (drop n vs). unat b + unat ln \<le> unat (vma_begin v))"
    by (rule find_gap_spec [OF ok _ _ _ g(1)]) (use u ln user_bounds in \<open>auto simp: in_user_def\<close>)
  have v: "vma_ok (new_vma b ln)" using gap ln user_bounds by (simp add: vma_ok_def)
  have sp: "set vs = set (take n vs) \<union> set (drop n vs)" by (metis append_take_drop_id set_append)
  have "vmas_ok (take n vs @ drop n vs)" using ok by simp
  then have "vmas_ok vs'" unfolding g(2) using v gap by (auto simp: vma_before_def simp del: append_take_drop_id)
  moreover have "set vs' = insert (new_vma b ln) (set vs)" unfolding g(2) sp by auto
  ultimately show ?thesis using v gap sp by (auto simp: vma_overlap_def vma_before_def)
qed

lemma place_at:
  assumes ok: "vmas_ok vs" "vma_ok (new_vma dst ln)" and dst: "dst \<noteq> 0" and p: "place dst ln vs = Some (b, vs')"
  shows "b = dst \<and> vmas_ok vs' \<and> set vs' = insert (new_vma dst ln) (set vs) \<and> (\<forall>w\<in>set vs. \<not> vma_overlap (new_vma dst ln) w)"
  using add_vma_spec [OF ok] dst p by (auto simp: place_def split: if_splits)

lemma covers_disjoint: "\<lbrakk>vma_covers v a; vma_covers w a\<rbrakk> \<Longrightarrow> vma_overlap v w"
  by (auto simp: vma_covers_def vma_overlap_def vma_before_def)

lemma covers_new:
  assumes "vma_ok (new_vma b (of_nat n))" and "n < 2 ^ 64"
  shows "vma_covers (new_vma b (of_nat n)) (unat x) \<longleftrightarrow> unat (x - b) < n"
proof -
  have n: "unat (of_nat n :: u64) = n" using assms(2) by (intro unat_of_nat_lt) simp
  have b: "unat b + n < 2 ^ 64" "0 < n" using assms(1) n by (auto simp: vma_ok_def)
  show ?thesis
  proof (cases "b \<le> x")
    case True
    then show ?thesis using n by (auto simp: vma_covers_def unat_sub word_le_nat_alt)
  next
    case False
    then have "unat (x - b) = 2 ^ 64 - (unat b - unat x)" 
      using unat_sub [of x b] by (simp add: unat_sub_if' word_le_nat_alt)
    then show ?thesis using False b n unsigned_less [of b] by (auto simp: vma_covers_def word_le_nat_alt)
  qed
qed

text \<open>What a new area does to the contents: its own bytes are there and no other byte is lost.\<close>

lemma sendpage_ok:
  assumes ok: "as_ok s" and pl: "place dst (of_nat (length bs)) (na_vmas s) = Some (b, vs)"
    and v: "vma_ok (new_vma b (of_nat (length bs)))" "length bs < 2 ^ 64"
    and vs: "vmas_ok vs" "set vs = insert (new_vma b (of_nat (length bs))) (set (na_vmas s))"
      "\<forall>w\<in>set (na_vmas s). \<not> vma_overlap (new_vma b (of_nat (length bs))) w"
  shows "as_ok (snd (sendpage dst bs s))" "na_vmas (snd (sendpage dst bs s)) = vs"
    "na_mem s x = Some y \<Longrightarrow> na_mem (snd (sendpage dst bs s)) x = Some y"
    "unat (x - b) < length bs \<Longrightarrow> na_mem (snd (sendpage dst bs s)) x = Some (bs ! unat (x - b))"
proof -
  have cov: "covered vs (unat z)" if "unat (z - b) < length bs \<or> covered (na_vmas s) (unat z)" for z
    using that covers_new [OF v] vs(2) by (auto simp: covered_def)
  have "covered vs (unat z)" if "z \<in> dom (na_mem (snd (sendpage dst bs s)))" for z
    using that ok by (intro cov) (auto simp: as_ok_def sendpage_def pl split: if_splits)
  then show "as_ok (snd (sendpage dst bs s))" using vs(1) by (simp add: as_ok_def sendpage_def pl)
  show "na_vmas (snd (sendpage dst bs s)) = vs" by (simp add: sendpage_def pl)
  show "unat (x - b) < length bs \<Longrightarrow> na_mem (snd (sendpage dst bs s)) x = Some (bs ! unat (x - b))" by (simp add: sendpage_def pl)
  assume m: "na_mem s x = Some y"
  then obtain w where "w \<in> set (na_vmas s)" "vma_covers w (unat x)" using ok by (auto simp: as_ok_def covered_def)
  then have "\<not> unat (x - b) < length bs" using vs(3) covers_disjoint covers_new [OF v] by blast
  then show "na_mem (snd (sendpage dst bs s)) x = Some y" using m by (simp add: sendpage_def pl)
qed

section \<open>Segments are loaded\<close>

fun phdrs :: "nat \<Rightarrow> nat \<Rightarrow> u8 list \<Rightarrow> elf64_phdr list option" where
  "phdrs 0 off f = Some []"
| "phdrs (Suc n) off f = do { ph \<leftarrow> phdr_at f off; phs \<leftarrow> phdrs n (off + 56) f; Some (ph # phs) }"

text \<open>The area of a segment, and a segment that lies in the file and in user space.\<close>

definition seg_vma :: "elf64_phdr \<Rightarrow> vm_area" where
  "seg_vma ph = new_vma (ALIGN (p_vaddr ph) 12) (ALIGN_UP (p_vaddr ph + p_memsz ph) 12 - ALIGN (p_vaddr ph) 12)"

definition seg_ok :: "(u64 \<Rightarrow> bool) \<Rightarrow> u8 list \<Rightarrow> elf64_phdr \<Rightarrow> bool" where
  "seg_ok room f ph \<longleftrightarrow> p_type ph \<noteq> 2 \<and> p_type ph \<noteq> 3 \<and> (p_type ph = 1 \<longrightarrow> USER_BASE \<le> p_vaddr ph \<and> p_memsz ph \<noteq> 0 \<and>
     unat (p_vaddr ph) + unat (p_memsz ph) \<le> unat USER_TOP \<and> unat (p_filesz ph) \<le> unat (p_memsz ph) \<and>
     unat (p_offset ph) + unat (p_filesz ph) \<le> length f \<and> room (vma_length (seg_vma ph)))"

definition loaded :: "u8 list \<Rightarrow> elf64_phdr \<Rightarrow> image \<Rightarrow> bool" where
  "loaded f ph m \<longleftrightarrow> (p_type ph = 1 \<longrightarrow> (\<forall>j<unat (p_memsz ph). m (p_vaddr ph + of_nat j) =
     Some (if j < unat (p_filesz ph) then f ! (unat (p_offset ph) + j) else 0)))"

definition segs_apart :: "elf64_phdr \<Rightarrow> elf64_phdr \<Rightarrow> bool" where
  "segs_apart p q \<longleftrightarrow> (p_type p = 1 \<longrightarrow> p_type q = 1 \<longrightarrow> \<not> vma_overlap (seg_vma p) (seg_vma q))"

lemma vma_overlap_sym: "vma_overlap v w \<longleftrightarrow> vma_overlap w v"
  by (auto simp: vma_overlap_def)

lemma loaded_mono: "loaded f ph m \<Longrightarrow> (\<And>x v. m x = Some v \<Longrightarrow> m' x = Some v) \<Longrightarrow> loaded f ph m'"
  unfolding loaded_def by simp

lemma segment_bounds:
  fixes v n :: u64
  assumes "unat v + unat n + 4095 < 2 ^ 64"
  shows "unat (v - ALIGN v 12) + unat n \<le> unat (ALIGN_UP (v + n) 12 - ALIGN v 12)"
proof -
  have s: "unat (v + n) = unat v + unat n" using assms by (intro unat_add_lt) simp
  have al: "unat (ALIGN v 12) = unat v div 4096 * 4096" using unat_ALIGN [of v 12] by simp
  have up: "unat (ALIGN_UP (v + n) 12) = (unat v + unat n + 4095) div 4096 * 4096" using unat_ALIGN_UP [of 12 "v + n"] assms s by simp
  have ge: "unat v + unat n \<le> (unat v + unat n + 4095) div 4096 * 4096" using div_mult_mod_eq [of "unat v + unat n + 4095" 4096] by linarith
  have le: "unat (ALIGN v 12) \<le> unat v" by (simp add: al)
  then have "unat (v - ALIGN v 12) = unat v - unat (ALIGN v 12)" by (simp add: unat_sub word_le_nat_alt)
  moreover have "unat (ALIGN_UP (v + n) 12 - ALIGN v 12) = unat (ALIGN_UP (v + n) 12) - unat (ALIGN v 12)"
    using le ge up by (intro unat_sub) (simp add: word_le_nat_alt)
  ultimately show ?thesis using le ge up by linarith
qed

text \<open>The area of a segment in numbers.\<close>

lemma seg_vma_bounds:
  assumes "seg_ok room f ph" and "p_type ph = 1"
  defines "v \<equiv> seg_vma ph"
  shows "vma_ok v" "in_user v" "vma_begin v \<noteq> 0" "vma_begin v AND 0xfff = 0" "USER_BASE \<le> vma_begin v" "vma_begin v \<le> USER_TOP" "vma_length v \<noteq> 0"
    "unat (p_vaddr ph - vma_begin v) + unat (p_memsz ph) \<le> unat (vma_length v)"
proof -
  let ?a = "unat (p_vaddr ph)" and ?n = "unat (p_memsz ph)"
  have o: "unat USER_BASE \<le> ?a" "0 < ?n" "?a + ?n \<le> unat USER_TOP"
    using assms(1,2) unat_gt_0 [of "p_memsz ph"] by (auto simp: seg_ok_def word_le_nat_alt)
  have small: "?a + ?n + 4095 < 2 ^ 64" using o(3) user_bounds by simp
  have s: "unat (p_vaddr ph + p_memsz ph) = ?a + ?n" using small by (intro unat_add_lt) simp
  have al: "unat (vma_begin v) = ?a div 4096 * 4096" using unat_ALIGN [of "p_vaddr ph" 12] by (simp add: v_def seg_vma_def)
  have up: "unat (ALIGN_UP (p_vaddr ph + p_memsz ph) 12) = (?a + ?n + 4095) div 4096 * 4096"
    using unat_ALIGN_UP [of 12 "p_vaddr ph + p_memsz ph"] small s by simp
  show b: "unat (p_vaddr ph - vma_begin v) + ?n \<le> unat (vma_length v)" using segment_bounds [OF small] by (simp add: v_def seg_vma_def)
  have base: "unat USER_BASE \<le> unat (vma_begin v)"
  proof -
    have "unat USER_BASE div 4096 \<le> ?a div 4096" by (rule div_le_mono [OF o(1)])
    then show ?thesis unfolding al using user_bounds by simp
  qed
  have "(?a + ?n + 4095) div 4096 \<le> (unat USER_TOP + 4095) div 4096" by (intro div_le_mono) (use o(3) in simp)
  then have top: "unat (ALIGN_UP (p_vaddr ph + p_memsz ph) 12) \<le> unat USER_TOP" unfolding up using user_bounds by simp
  have le: "unat (vma_begin v) \<le> unat (ALIGN_UP (p_vaddr ph + p_memsz ph) 12)"
    unfolding al up by (intro mult_le_mono1 div_le_mono) simp
  have len: "unat (vma_length v) = unat (ALIGN_UP (p_vaddr ph + p_memsz ph) 12) - unat (vma_begin v)"
    using le by (simp add: v_def seg_vma_def unat_sub word_le_nat_alt)
  show "in_user v" using base top le len by (simp add: in_user_def)
  then show "vma_ok v" using b o(2) user_bounds by (simp add: vma_ok_def in_user_def)
  show "vma_length v \<noteq> 0" using b o(2) by (metis add_is_0 le_zero_eq less_numeral_extra(3) unat_0)
  show "vma_begin v \<noteq> 0" using base user_bounds by auto
  show "USER_BASE \<le> vma_begin v" "vma_begin v \<le> USER_TOP" using base top le by (simp_all add: word_le_nat_alt)
  have "IS_ALIGNED (vma_begin v) 12" by (simp add: v_def seg_vma_def)
  then show "vma_begin v AND 0xfff = 0" by (simp add: IS_ALIGNED_def BIT_def)
qed

lemma mapper_ok:
  assumes ok: "seg_ok room f ph" "as_ok s" and fresh: "p_type ph = 1 \<Longrightarrow> \<forall>w\<in>set (na_vmas s). \<not> vma_overlap (seg_vma ph) w"
  obtains s' where "mapper room f ph s = Some (0, s')" "loaded f ph (na_mem s')" "\<And>x v. na_mem s x = Some v \<Longrightarrow> na_mem s' x = Some v"
    "as_ok s'" "set (na_vmas s') = (if p_type ph = 1 then insert (seg_vma ph) (set (na_vmas s)) else set (na_vmas s))"
proof (cases "p_type ph = 1")
  case True
  let ?v = "seg_vma ph" and ?o = "unat (p_vaddr ph - vma_begin (seg_vma ph))" and ?bs = "take (unat (p_filesz ph)) (drop (unat (p_offset ph)) f)"
  let ?n = "unat (vma_length ?v)"
  let ?p = "if p_filesz ph = 0 then replicate ?n 0 else patch ?o ?bs (replicate ?n 0)"
  note b = seg_vma_bounds [OF ok(1) True]
  have o: "unat (p_offset ph) + unat (p_filesz ph) \<le> length f" "unat (p_filesz ph) \<le> unat (p_memsz ph)" "room (vma_length ?v)"
    using ok(1) True by (auto simp: seg_ok_def)
  have lb: "length ?bs = unat (p_filesz ph)" using o(1) by simp
  have lp: "length ?p = ?n" using o(2) b(8) lb by simp
  have ln: "of_nat (length ?p) = vma_length ?v" "length ?p < 2 ^ 64" unfolding lp using u64_bound by simp_all
  have nv: "new_vma (vma_begin ?v) (of_nat (length ?p)) = ?v" unfolding ln by (simp add: seg_vma_def)
  have beg: "vma_begin ?v = ALIGN (p_vaddr ph) 12" "vma_length ?v = ALIGN_UP (p_vaddr ph + p_memsz ph) 12 - ALIGN (p_vaddr ph) 12"
    by (simp_all add: seg_vma_def)
  have run: "mapper room f ph s = Some (0, snd (sendpage (vma_begin ?v) ?p s))"
    using True o b(3,7,8) unfolding mapper_def Let_def beg by (auto simp: guard_def)
  have vs: "vmas_ok (na_vmas s)" using ok(2) by (simp add: as_ok_def)
  obtain vs' where a: "add_vma ?v (na_vmas s) = Some vs'" "vmas_ok vs'" "set vs' = insert ?v (set (na_vmas s))"
    using add_vma_spec [OF vs b(1)] fresh [OF True] by (auto split: option.splits)
  have pl: "place (vma_begin ?v) (of_nat (length ?p)) (na_vmas s) = Some (vma_begin ?v, vs')"
    using b(3-6) a(1) unfolding place_def nv by (simp add: not_less)
  note sp = sendpage_ok [OF ok(2) pl, unfolded nv, OF b(1) ln(2) a(2,3) fresh [OF True]]
  have "na_mem (snd (sendpage (vma_begin ?v) ?p s)) (p_vaddr ph + of_nat j) = Some (if j < unat (p_filesz ph) then f ! (unat (p_offset ph) + j) else 0)"
    if j: "j < unat (p_memsz ph)" for j
  proof -
    have lt: "?o + j < ?n" using j b(8) by linarith
    have big: "?o + j < 18446744073709551616" by (rule less_trans [OF lt u64_bound])
    then have u: "unat (of_nat j :: u64) = j" by (intro unat_of_nat_lt) simp
    have "p_vaddr ph + of_nat j - vma_begin ?v = (p_vaddr ph - vma_begin ?v) + of_nat j" by simp
    also have "unat \<dots> = ?o + unat (of_nat j :: u64)" using big u by (intro unat_add_lt) simp
    finally have x: "unat (p_vaddr ph + of_nat j - vma_begin ?v) = ?o + j" unfolding u .
    have "na_mem (snd (sendpage (vma_begin ?v) ?p s)) (p_vaddr ph + of_nat j) = Some (?p ! (?o + j))"
      using sp(4) [of "p_vaddr ph + of_nat j"] x lt lp by simp
    also have "?p ! (?o + j) = (if j < length ?bs then ?bs ! j else 0)"
    proof (cases "p_filesz ph = 0")
      case True
      then show ?thesis using lt by simp
    next
      case False
      then show ?thesis using nth_patch [of ?o ?bs "replicate ?n 0" "?o + j"] lt j o b(8) lb by simp
    qed
    finally show ?thesis using lb o(1) by simp
  qed
  then have "loaded f ph (na_mem (snd (sendpage (vma_begin ?v) ?p s)))" unfolding loaded_def by blast
  then show thesis using that [OF run] sp(1-3) a(3) True by simp
next
  case False
  then have "mapper room f ph s = Some (0, s)" using ok(1) by (auto simp: mapper_def seg_ok_def)
  moreover have "loaded f ph (na_mem s)" using False by (simp add: loaded_def)
  ultimately show thesis using that ok(2) False by simp
qed

lemma foreach_loads:
  assumes "phdrs n off f = Some phs" and "\<forall>ph\<in>set phs. seg_ok room f ph" and "sorted_wrt segs_apart phs" and "as_ok s"
    and "\<forall>ph\<in>set phs. p_type ph = 1 \<longrightarrow> (\<forall>w\<in>set (na_vmas s). \<not> vma_overlap (seg_vma ph) w)" and "\<forall>v\<in>set (na_vmas s). in_user v"
  shows "\<exists>s'. elf_foreach_ph n off f (mapper room) s = Some (0, s') \<and> (\<forall>ph\<in>set phs. loaded f ph (na_mem s')) \<and>
    (\<forall>x v. na_mem s x = Some v \<longrightarrow> na_mem s' x = Some v) \<and> as_ok s' \<and> (\<forall>v\<in>set (na_vmas s'). in_user v)"
  using assms
proof (induction n arbitrary: off phs s)
  case (Suc n)
  obtain ph phs' where ph: "phdr_at f off = Some ph" "phdrs n (off + 56) f = Some phs'" "phs = ph # phs'"
    using Suc.prems(1) by (auto simp: bind_eq_Some_conv)
  have okp: "seg_ok room f ph" using Suc.prems(2) ph(3) by simp
  obtain s1 where s1: "mapper room f ph s = Some (0, s1)" "loaded f ph (na_mem s1)" "\<And>x v. na_mem s x = Some v \<Longrightarrow> na_mem s1 x = Some v"
    "as_ok s1" "set (na_vmas s1) = (if p_type ph = 1 then insert (seg_vma ph) (set (na_vmas s)) else set (na_vmas s))"
    by (rule mapper_ok [OF okp Suc.prems(4)]) (use Suc.prems(5) ph(3) in auto)
  have u: "\<forall>v\<in>set (na_vmas s1). in_user v" using s1(5) Suc.prems(6) seg_vma_bounds(2) [OF okp] by (auto split: if_splits)
  have fr: "\<forall>q\<in>set phs'. p_type q = 1 \<longrightarrow> (\<forall>w\<in>set (na_vmas s1). \<not> vma_overlap (seg_vma q) w)"
    using Suc.prems(3,5) s1(5) ph(3) by (auto simp: segs_apart_def vma_overlap_sym split: if_splits)
  obtain s' where s': "elf_foreach_ph n (off + 56) f (mapper room) s1 = Some (0, s')" "\<forall>ph\<in>set phs'. loaded f ph (na_mem s')"
    "\<And>x v. na_mem s1 x = Some v \<Longrightarrow> na_mem s' x = Some v" "as_ok s'" "\<forall>v\<in>set (na_vmas s'). in_user v"
    using Suc.IH [OF ph(2) _ _ s1(4) fr u] Suc.prems(2,3) ph(3) by auto
  have "loaded f ph (na_mem s')" using loaded_mono [OF s1(2) s'(3)] .
  then show ?case using ph s1(1,3) s' by auto
qed auto

section \<open>The whole program\<close>

lemma stack_page_length: "args_size cwd argv envp \<le> 4096 \<Longrightarrow> stack_page cwd argv envp = Some (page, off) \<Longrightarrow> length page = 4096"
  using stack_page_layout [of cwd argv envp] by (auto simp: args_size_def length_strs)

text \<open>Mapping the stack and the page behind it loses nothing.\<close>

lemma stack_mapped:
  assumes ok: "as_ok s" "\<forall>v\<in>set (na_vmas s). in_user v" and len: "length page = 4096"
    and stk: "sendpage 0 (replicate stack_size 0) s = (stk, s1)" and pg: "sendpage (stk + of_nat stack_size) page s1 = (a, s2)"
  shows "(\<forall>x v. na_mem s x = Some v \<longrightarrow> na_mem s2 x = Some v) \<and> (a = 0 \<or> (\<forall>j<4096. na_mem s2 (a + of_nat j) = Some (page ! j)))"
proof -
  let ?n = "of_nat (length (replicate stack_size (0 :: u8))) :: u64"
  have n: "?n = 0x100000" by (simp add: stack_size_def)
  show ?thesis
  proof (cases "place 0 ?n (na_vmas s)")
    case None
    then have "s1 = s" "stk = 0" using stk by (simp_all add: sendpage_def)
    moreover have "place 0x100000 (of_nat (length page)) (na_vmas s) = None" by (simp add: place_def USER_BASE_def)
    ultimately have "a = 0" "s2 = s" using pg by (simp_all add: sendpage_def stack_size_def)
    then show ?thesis by simp
  next
    case (Some q)
    then obtain b vs where p: "place 0 ?n (na_vmas s) = Some (b, vs)" by (cases q) auto
    have pa: "vmas_ok vs \<and> set vs = insert (new_vma b ?n) (set (na_vmas s)) \<and> (\<forall>w\<in>set (na_vmas s). \<not> vma_overlap (new_vma b ?n) w) \<and> vma_ok (new_vma b ?n) \<and>
        unat b \<le> unat USER_TOP"
      by (rule place_any [OF _ ok(2) _ _ p]) (use ok(1) n in \<open>simp_all add: as_ok_def\<close>)
    have s1: "stk = b" "s1 = snd (sendpage 0 (replicate stack_size 0) s)" using stk p by (auto simp: sendpage_def)
    note m1 = sendpage_ok [OF ok(1) p, folded s1(2)]
    have m1: "as_ok s1" "na_vmas s1 = vs" "\<And>x v. na_mem s x = Some v \<Longrightarrow> na_mem s1 x = Some v"
      using m1 pa by (simp_all add: stack_size_def)
    let ?d = "stk + of_nat stack_size"
    show ?thesis
    proof (cases "place ?d (of_nat (length page)) vs")
      case None
      then have "a = 0" "s2 = s1" using pg m1(2) by (simp_all add: sendpage_def)
      then show ?thesis using m1(3) by simp
    next
      case (Some q)
      then obtain c vs2 where p2: "place ?d (of_nat (length page)) vs = Some (c, vs2)" by (cases q) auto
      have "unat ?d = unat b + 0x100000" using pa user_bounds unfolding s1(1) by (subst unat_add_lt) (simp_all add: stack_size_def)
      then have d: "?d \<noteq> 0" by (metis add_is_0 unat_0 zero_neq_numeral)
      then have "?d \<le> USER_TOP" using p2 by (auto simp: place_def split: if_splits)
      then have v: "vma_ok (new_vma ?d (of_nat (length page)))" using len user_bounds by (simp add: vma_ok_def word_le_nat_alt)
      have pb: "c = ?d \<and> vmas_ok vs2 \<and> set vs2 = insert (new_vma ?d (of_nat (length page))) (set vs) \<and>
          (\<forall>w\<in>set vs. \<not> vma_overlap (new_vma ?d (of_nat (length page))) w)"
        by (rule place_at [OF _ v d p2]) (use pa in simp)
      have s2: "a = ?d" "s2 = snd (sendpage ?d page s1)" using pg p2 pb m1(2) by (auto simp: sendpage_def)
      note m2 = sendpage_ok [OF m1(1) p2 [folded m1(2)], folded s2(2)]
      have keep: "na_mem s1 x = Some y \<Longrightarrow> na_mem s2 x = Some y"
        and own: "unat (x - ?d) < 4096 \<Longrightarrow> na_mem s2 x = Some (page ! unat (x - ?d))" for x y
        using m2(3,4) pb v m1(2) len by simp_all
      have "na_mem s2 (a + of_nat j) = Some (page ! j)" if "j < 4096" for j
        using own [of "a + of_nat j"] that s2(1) by (simp add: unat_of_nat_lt)
      then show ?thesis using keep m1(3) by blast
    qed
  qed
qed

text \<open>C17. Loading a program: for an ELF file whose load segments lie in the file and in user space, in areas
  that do not overlap, and when there is memory for the copies, \<^verbatim>\<open>execvm\<close> succeeds, the new task starts
  at the entry point, and its memory holds every load segment, first the bytes of the file and then zeros
  up to the size in memory. The page of the arguments lies around its stack pointer as it was built,
  unless the kernel has refused it, and the stack pointer is the offset in that page.\<close>

theorem execvm_loads_segments:
  assumes hdr: "elf_load f = Some (Some hdr)" and phs: "phdrs (unat (e_phnum hdr)) (unat (e_phoff hdr)) f = Some phs"
    and ok: "\<forall>ph\<in>set phs. seg_ok room f ph" and dis: "sorted_wrt segs_apart phs"
    and sz: "args_size cwd argv envp \<le> 4096" "room 4096"
  shows "\<exists>ti s page off. execvm room f cwd argv envp = Some (Inr (ti, s)) \<and> ti_rcx ti = e_entry hdr \<and>
    (\<forall>ph\<in>set phs. loaded f ph (na_mem s)) \<and> stack_page cwd argv envp = Some (page, off) \<and>
    (ti_rsp ti = of_nat off \<or> (\<forall>j<4096. na_mem s (ti_rsp ti - of_nat off + of_nat j) = Some (page ! j)))"
proof -
  let ?s0 = "\<lparr>na_vmas = [], na_mem = Map.empty\<rparr>"
  have s0: "as_ok ?s0" by (simp add: as_ok_def)
  obtain s where s: "elf_foreach_ph (unat (e_phnum hdr)) (unat (e_phoff hdr)) f (mapper room) ?s0 = Some (0, s)"
    "\<forall>ph\<in>set phs. loaded f ph (na_mem s)" "as_ok s" "\<forall>v\<in>set (na_vmas s). in_user v"
    using foreach_loads [OF phs ok dis s0] by auto
  obtain page off where p: "stack_page cwd argv envp = Some (page, off)" using stack_page_layout [OF sz(1)] by blast
  have len: "length page = 4096" by (rule stack_page_length [OF sz(1) p])
  obtain stk s1 where stk: "sendpage 0 (replicate stack_size 0) s = (stk, s1)" by (meson surj_pair)
  obtain a s2 where pg: "sendpage (stk + of_nat stack_size) page s1 = (a, s2)" by (meson surj_pair)
  note m = stack_mapped [OF s(3,4) len stk pg]
  have "execvm room f cwd argv envp = Some (Inr (\<lparr>ti_rsp = a + of_nat off, ti_rcx = e_entry hdr\<rparr>, s2))"
    using hdr s(1) p len sz(2) stk pg by (simp add: execvm_def)
  moreover have "\<forall>ph\<in>set phs. loaded f ph (na_mem s2)" using s(2) m by (blast intro: loaded_mono)
  ultimately show ?thesis using p m by auto
qed

text \<open>A program of two bytes of code and two bytes of zeros.\<close>

definition tiny_elf :: "u8 list" where
  "tiny_elf = [0x7f, 69, 76, 70, 2, 1] @ replicate 18 0 @ le 8 (0x400078 :: u64) @ le 8 (64 :: u64) @ replicate 16 0 @ le 2 (1 :: u16) @ replicate 6 0 @
     le 4 (1 :: u32) @ replicate 4 0 @ le 8 (120 :: u64) @ le 8 (0x400078 :: u64) @ replicate 8 0 @ le 8 (2 :: u64) @ le 8 (4 :: u64) @ replicate 8 0 @ [0x90, 0xc3]"

definition tiny_seg :: elf64_phdr where
  "tiny_seg = \<lparr>p_type = 1, p_offset = 120, p_vaddr = 0x400078, p_filesz = 2, p_memsz = 4\<rparr>"

lemma tiny_elf_fields:
  "elf_load tiny_elf = Some (Some \<lparr>e_entry = 0x400078, e_phoff = 64, e_phnum = 1\<rparr>)" "phdrs 1 64 tiny_elf = Some [tiny_seg]" "length tiny_elf = 122"
  "tiny_elf ! 120 = 0x90"
  by code_simp+

lemma tiny_seg_ok: "seg_ok (\<lambda>_. True) tiny_elf tiny_seg"
  using tiny_elf_fields(3) by (simp add: seg_ok_def tiny_seg_def USER_BASE_def USER_TOP_def)

theorem execvm_loads_segments_witness:
  "\<exists>ti s. execvm (\<lambda>_. True) tiny_elf [47] [[97]] [] = Some (Inr (ti, s)) \<and> ti_rcx ti = 0x400078 \<and> na_mem s 0x400078 = Some 0x90"
proof -
  obtain ti s where "execvm (\<lambda>_. True) tiny_elf [47] [[97]] [] = Some (Inr (ti, s))" "ti_rcx ti = 0x400078" "loaded tiny_elf tiny_seg (na_mem s)"
    using execvm_loads_segments [OF tiny_elf_fields(1), of "[tiny_seg]" "\<lambda>_. True" "[47]" "[[97]]" "[]"] tiny_elf_fields(2) tiny_seg_ok
    by (auto simp: args_size_def)
  moreover from this(3) have "na_mem s 0x400078 = Some 0x90"
    unfolding loaded_def using tiny_elf_fields(4) by (simp add: tiny_seg_def) (drule spec [of _ 0], simp add: tiny_seg_def)
  ultimately show ?thesis by blast
qed

end
