(* ===== verification/Env.thy ===== *)
theory Env
  imports Prelude
begin

text \<open>
  The environment of a program, \<^verbatim>\<open>libc/env.c\<close>: an array of strings that ends with NULL, and its
  capacity and number of entries. NULL is \<open>None\<close> as an element; the outcome \<open>None\<close> is an access outside
  the array or through NULL. A string that is put into the environment is not in it yet, since the
  entry it replaces is freed. The argument \<open>mal\<close> says for which sizes \<^verbatim>\<open>malloc\<close> has memory: only the
  growing array is checked for NULL, the other copies are written through it.
\<close>

section \<open>Operations\<close>

record env =
  environ :: "u8 list option list"
  env_size :: nat
  nenv :: nat
  env_initialised :: bool

text \<open>The copy of the array that the start-up code has built.\<close>

definition env_init :: "(nat \<Rightarrow> bool) \<Rightarrow> env \<Rightarrow> env option" where
  "env_init mal s = do {
     guard (None \<in> set (environ s));
     let xs = takeWhile (\<lambda>x. x \<noteq> None) (environ s);
     guard (mal (8 * (length xs + 1)) \<and> list_all (\<lambda>x. mal (length (the x) + 1)) xs);
     Some (s\<lparr>environ := xs @ [None], env_size := length xs + 1, nenv := length xs, env_initialised := True\<rparr>) }"

definition ensure_init :: "(nat \<Rightarrow> bool) \<Rightarrow> env \<Rightarrow> env option" where
  "ensure_init mal s = (if env_initialised s then Some s else env_init mal s)"

text \<open>The position of the first entry for a name and its value; \<open>Some None\<close> when there is none.\<close>

fun find_env :: "nat \<Rightarrow> u8 list \<Rightarrow> u8 list option list \<Rightarrow> (nat \<times> u8 list) option option" where
  "find_env i name [] = None"
| "find_env i name (None # es) = Some None"
| "find_env i name (Some e # es) =
     (if take (length name) e = name \<and> length name < length e \<and> e ! length name = 61
      then Some (Some (i, drop (length name + 1) e)) else find_env (i + 1) name es)"

definition getenv :: "(nat \<Rightarrow> bool) \<Rightarrow> u8 list \<Rightarrow> env \<Rightarrow> (u8 list option \<times> env) option" where
  "getenv mal name s = do { s \<leftarrow> ensure_init mal s; r \<leftarrow> find_env 0 name (environ s); Some (map_option snd r, s) }"

text \<open>\<open>None\<close> when there is no memory for the bigger array.\<close>

definition grow :: "(nat \<Rightarrow> bool) \<Rightarrow> env \<Rightarrow> env option" where
  "grow mal s = (if env_size s < nenv s + 2
     then if mal (env_size s * 2 * 8)
       then Some (s\<lparr>environ := take (nenv s) (environ s) @ replicate (2 * env_size s - nenv s) None, env_size := 2 * env_size s\<rparr>)
       else None
     else Some s)"

definition putenv :: "(nat \<Rightarrow> bool) \<Rightarrow> u8 list \<Rightarrow> env \<Rightarrow> (int \<times> env) option" where
  "putenv mal p s = do {
     s \<leftarrow> ensure_init mal s;
     guard (mal (length p + 1) \<and> 61 \<in> set p);
     r \<leftarrow> find_env 0 (takeWhile (\<lambda>c. c \<noteq> 61) p) (environ s);
     case r of
       Some (i, v) \<Rightarrow> Some (0, s\<lparr>environ := (environ s)[i := Some p]\<rparr>)
     | None \<Rightarrow>
         (case grow mal s of
            None \<Rightarrow> Some (- 1, s)
          | Some s \<Rightarrow> do {
              es \<leftarrow> poke (nenv s) (Some p) (environ s);
              Some (0, s\<lparr>environ := es, nenv := nenv s + 1\<rparr>) }) }"

section \<open>Correctness\<close>

text \<open>The state holds the strings \<open>xs\<close>; behind them the array is NULL, at least once.\<close>

definition env_holds :: "env \<Rightarrow> u8 list list \<Rightarrow> bool" where
  "env_holds s xs \<longleftrightarrow> env_initialised s \<and> nenv s = length xs \<and> nenv s < env_size s \<and>
     environ s = map Some xs @ replicate (env_size s - nenv s) None"

text \<open>A program that has not used its environment yet holds what the start-up code has built.\<close>

definition env_strings :: "env \<Rightarrow> u8 list list \<Rightarrow> bool" where
  "env_strings s xs \<longleftrightarrow> env_holds s xs \<or> \<not> env_initialised s \<and> (\<exists>es. environ s = map Some xs @ None # es)"

definition entry_for :: "u8 list \<Rightarrow> u8 list \<Rightarrow> bool" where
  "entry_for name e \<longleftrightarrow> (\<exists>v. e = name @ 61 # v)"

text \<open>The value of a name in a list of entries.\<close>

definition env_value :: "u8 list \<Rightarrow> u8 list list \<Rightarrow> u8 list option" where
  "env_value name xs = map_option (drop (length name + 1)) (List.find (entry_for name) xs)"

fun put_entry :: "u8 list \<Rightarrow> u8 list \<Rightarrow> u8 list list \<Rightarrow> u8 list list" where
  "put_entry name p [] = [p]"
| "put_entry name p (e # es) = (if entry_for name e then p # es else e # put_entry name p es)"

lemma entry_for_iff: "entry_for name e \<longleftrightarrow> take (length name) e = name \<and> length name < length e \<and> e ! length name = 61"
proof
  assume "take (length name) e = name \<and> length name < length e \<and> e ! length name = 61"
  then show "entry_for name e" using id_take_nth_drop [of "length name" e] by (auto simp: entry_for_def)
qed (auto simp: entry_for_def)

lemma find_env_spec:
  "find_env i name (map Some xs @ None # es) = Some (case List.find (entry_for name) xs of None \<Rightarrow> None
     | Some e \<Rightarrow> Some (i + length (takeWhile (\<lambda>e. \<not> entry_for name e) xs), drop (length name + 1) e))"
  by (induction xs arbitrary: i) (auto simp: entry_for_iff split: option.splits)

lemma env_holds_array: "env_holds s xs \<Longrightarrow> \<exists>es. environ s = map Some xs @ None # es"
  by (cases "env_size s - nenv s") (auto simp: env_holds_def)

lemma find_put_entry:
  assumes "entry_for name p"
  shows "(case List.find (entry_for name) xs of None \<Rightarrow> put_entry name p xs = xs @ [p]
     | Some e \<Rightarrow> put_entry name p xs = xs[length (takeWhile (\<lambda>e. \<not> entry_for name e) xs) := p] \<and> length (takeWhile (\<lambda>e. \<not> entry_for name e) xs) < length xs)"
  by (induction xs) (auto split: option.splits)

lemma entry_for_unique: "\<lbrakk>entry_for name e; entry_for name' e; 61 \<notin> set name; 61 \<notin> set name'\<rbrakk> \<Longrightarrow> name = name'"
  by (auto simp: entry_for_def append_eq_append_conv2 append_eq_Cons_conv Cons_eq_append_conv)

lemma env_value_put:
  assumes "61 \<notin> set name" and "61 \<notin> set name'"
  shows "env_value name' (put_entry name (name @ 61 # v) xs) = (if name' = name then Some v else env_value name' xs)"
proof -
  have "entry_for name (name @ 61 # v)" by (simp add: entry_for_def)
  then show ?thesis
    by (induction xs) (auto simp: env_value_def dest: entry_for_unique [OF _ _ assms])
qed

lemma find_env_holds: "env_holds s xs \<Longrightarrow> \<exists>r. find_env 0 name (environ s) = Some r \<and> map_option snd r = env_value name xs"
  using env_holds_array [of s xs] find_env_spec [of 0 name xs]
  by (auto simp: env_value_def split: option.splits)

text \<open>The first use of the environment copies it.\<close>

lemma ensure_init_holds:
  assumes "env_strings s xs" and "mal (8 * (length xs + 1))" and "\<forall>x\<in>set xs. mal (length x + 1)"
  obtains s' where "ensure_init mal s = Some s'" "env_holds s' xs"
proof (cases "env_initialised s")
  case True
  then show thesis using assms(1) by (intro that [of s]) (auto simp: ensure_init_def env_strings_def)
next
  case False
  then obtain es where es: "environ s = map Some xs @ None # es" using assms(1) by (auto simp: env_strings_def env_holds_def)
  have "takeWhile (\<lambda>x. x \<noteq> None) (environ s) = map Some xs" unfolding es by (subst takeWhile_append2) auto
  then have "ensure_init mal s = Some (s\<lparr>environ := map Some xs @ [None], env_size := length xs + 1, nenv := length xs, env_initialised := True\<rparr>)"
    using False es assms(2,3) by (simp add: ensure_init_def env_init_def list_all_iff)
  then show thesis by (rule that) (simp add: env_holds_def)
qed

lemma putenv_holds:
  assumes h: "env_holds s xs" and name: "61 \<notin> set name" and m: "mal (length (name @ 61 # v) + 1)"
  obtains s' where "putenv mal (name @ 61 # v) s = Some (0, s')" "env_holds s' (put_entry name (name @ 61 # v) xs)"
  | "putenv mal (name @ 61 # v) s = Some (- 1, s)" "List.find (entry_for name) xs = None" "\<not> mal (16 * env_size s)"
proof -
  let ?p = "name @ 61 # v"
  have e: "entry_for name ?p" by (simp add: entry_for_def)
  have n: "takeWhile (\<lambda>c. c \<noteq> 61) ?p = name" by (subst takeWhile_append2) (use name in auto)
  obtain es where es: "environ s = map Some xs @ None # es" using env_holds_array [OF h] by blast
  have i: "ensure_init mal s = Some s" using h by (simp add: ensure_init_def env_holds_def)
  show thesis
  proof (cases "List.find (entry_for name) xs")
    case None
    show thesis
    proof (cases "grow mal s")
      case F: None
      have "putenv mal ?p s = Some (- 1, s)" using i n m es None F by (simp add: putenv_def find_env_spec)
      then show thesis using that(2) None F by (auto simp: grow_def mult.commute split: if_splits)
    next
      case (Some g)
      have g: "env_holds g xs" "nenv g + 2 \<le> env_size g"
        using h Some by (auto simp: grow_def env_holds_def split: if_splits)
      then obtain k where k: "env_size g = length xs + 2 + k" by (auto simp: env_holds_def dest: le_Suc_ex)
      have a: "environ g = map Some xs @ None # replicate (Suc k) None" using g k by (simp add: env_holds_def)
      have "nenv g = length xs" using g(1) by (simp add: env_holds_def)
      moreover have "poke (length xs) (Some ?p) (environ g) = Some (map Some xs @ Some ?p # replicate (Suc k) None)"
        unfolding a by (simp add: poke_def list_update_append)
      ultimately have "putenv mal ?p s = Some (0, g\<lparr>environ := map Some xs @ Some ?p # replicate (Suc k) None, nenv := length xs + 1\<rparr>)"
        using i n m es None Some by (simp add: putenv_def find_env_spec)
      then show thesis using that(1) find_put_entry [OF e, of xs] None g(1) k by (simp add: env_holds_def)
    qed
  next
    case (Some x)
    let ?i = "length (takeWhile (\<lambda>e. \<not> entry_for name e) xs)"
    have f: "put_entry name ?p xs = xs[?i := ?p]" "?i < length xs" using find_put_entry [OF e, of xs] Some by auto
    have "putenv mal ?p s = Some (0, s\<lparr>environ := (environ s)[?i := Some ?p]\<rparr>)"
      unfolding putenv_def using i n m Some by (simp add: es find_env_spec)
    then show thesis using that(1) f h by (simp add: env_holds_def list_update_append map_update)
  qed
qed

text \<open>C40. The environment is a map from names to values, from its first use on, when it is copied from what
  the start-up code has built: \<^verbatim>\<open>getenv\<close> finds the value of a name; \<^verbatim>\<open>putenv\<close> of a name with a value makes
  \<^verbatim>\<open>getenv\<close> find that value and keeps all other names, and the array stays well-formed, with its final
  NULL, however often it has to grow. Only when it has to grow for a new name and there is no memory for
  that, \<^verbatim>\<open>putenv\<close> answers -1, with nothing changed. There is memory for the copies of the strings, whose
  failure the code does not handle.\<close>

theorem putenv_getenv:
  assumes h: "env_strings s xs" and name: "61 \<notin> set name"
    and mem: "mal (8 * (length xs + 1))" "\<forall>x\<in>set xs. mal (length x + 1)" "mal (length (name @ 61 # v) + 1)"
  shows "(\<forall>name'. \<exists>s'. getenv mal name' s = Some (env_value name' xs, s') \<and> env_holds s' xs) \<and>
    (\<exists>r s'. putenv mal (name @ 61 # v) s = Some (r, s') \<and>
      (r = 0 \<and> env_holds s' (put_entry name (name @ 61 # v) xs) \<and>
        (\<forall>name'. 61 \<notin> set name' \<longrightarrow> getenv mal name' s' = Some (if name' = name then Some v else env_value name' xs, s')) \<or>
       r = - 1 \<and> env_holds s' xs \<and> List.find (entry_for name) xs = None \<and> \<not> mal (16 * env_size s')))"
proof -
  obtain s0 where s0: "ensure_init mal s = Some s0" "env_holds s0 xs" by (rule ensure_init_holds [OF h mem(1,2)])
  have get: "getenv mal n t = Some (env_value n ys, t)" if "env_holds t ys" for n t ys
    using find_env_holds [OF that, of n] that by (auto simp: getenv_def ensure_init_def env_holds_def)
  have i0: "ensure_init mal s0 = Some s0" using s0(2) by (simp add: ensure_init_def env_holds_def)
  have 1: "getenv mal n s = getenv mal n s0" "putenv mal p s = putenv mal p s0" for n p
    by (simp_all add: getenv_def putenv_def s0(1) i0)
  have "\<exists>s'. getenv mal n s = Some (env_value n xs, s') \<and> env_holds s' xs" for n using get [OF s0(2)] s0(2) 1 by auto
  moreover have "\<exists>r s'. putenv mal (name @ 61 # v) s0 = Some (r, s') \<and>
      (r = 0 \<and> env_holds s' (put_entry name (name @ 61 # v) xs) \<and>
        (\<forall>name'. 61 \<notin> set name' \<longrightarrow> getenv mal name' s' = Some (if name' = name then Some v else env_value name' xs, s')) \<or>
       r = - 1 \<and> env_holds s' xs \<and> List.find (entry_for name) xs = None \<and> \<not> mal (16 * env_size s'))"
    by (rule putenv_holds [of s0 xs name mal v]) (use s0(2) name mem(3) get env_value_put [OF name] in auto)
  ultimately show ?thesis using 1 by simp
qed

theorem putenv_getenv_witness:
  "\<exists>s'. putenv (\<lambda>_. True) [72, 61, 47] \<lparr>environ = [Some [80, 61, 49], None], env_size = 0, nenv = 0, env_initialised = False\<rparr> = Some (0, s') \<and>
    getenv (\<lambda>_. True) [72] s' = Some (Some [47], s') \<and> getenv (\<lambda>_. True) [80] s' = Some (Some [49], s')"
  using putenv_getenv [of "\<lparr>environ = [Some [80, 61, 49], None], env_size = 0, nenv = 0, env_initialised = False\<rparr>" "[[80, 61, 49]]" "[72]" "\<lambda>_. True" "[47]"]
  by (auto simp: env_strings_def env_value_def entry_for_def)

end
