(* ===== verification/Kbd.thy ===== *)
theory Kbd
  imports Prelude
begin

text \<open>
  The keyboard driver of the kernel, \<^verbatim>\<open>sys/drivers/kbd.c\<close>, with \<^verbatim>\<open>vga_puts_at\<close> of \<^verbatim>\<open>sys/drivers/vga_text.c\<close>:
  it follows the scan codes, keeps the modifier keys and shows the last key in the lower right corner
  of the screen, the list of the 4000 bytes of the text memory. \<open>None\<close> is an access outside a table or
  the screen.
\<close>

section \<open>Operations\<close>

definition kbd_map :: "u8 list" where
  "kbd_map = [0, 27, 49, 50, 51, 52, 53, 54, 55, 56, 57, 48, 45, 61, 127, 9,
    113, 119, 101, 114, 116, 121, 117, 105, 111, 112, 91, 93, 13, 0, 97, 115,
    100, 102, 103, 104, 106, 107, 108, 59, 39, 96, 0, 92, 122, 120, 99, 118,
    98, 110, 109, 44, 46, 47, 0, 42] @ [0, 32] @ replicate 16 0 @ [45, 0, 0, 0, 43] @ replicate 7 0 @ [60] @ replicate 10 0"

definition kbd_shift_map :: "u8 list" where
  "kbd_shift_map = [0, 27, 33, 64, 35, 36, 37, 94, 38, 42, 40, 41, 95, 43, 127, 9,
    81, 87, 69, 82, 84, 89, 85, 73, 79, 80, 123, 125, 13, 0, 65, 83,
    68, 70, 71, 72, 74, 75, 76, 58, 34, 126, 48, 124, 90, 88, 67, 86,
    66, 78, 77, 60, 62, 63, 0, 42] @ [0, 32] @ replicate 16 0 @ [45, 0, 0, 0, 43] @ replicate 7 0 @ [62] @ replicate 10 0"

text \<open>Characters with a colour from a position on; at the end of the screen the rest is dropped.\<close>

fun vga_write :: "u8 list \<Rightarrow> nat \<Rightarrow> u8 \<Rightarrow> u8 list \<Rightarrow> u8 list option" where
  "vga_write [] v col scr = Some scr"
| "vga_write (c # cs) v col scr = do {
     guard (v + 1 < length scr);
     let scr = scr[v := c, v + 1 := col];
     if 4000 \<le> v + 2 then Some scr else vga_write cs (v + 2) col scr }"

definition vga_puts_at :: "u8 list \<Rightarrow> nat \<Rightarrow> nat \<Rightarrow> u8 \<Rightarrow> u8 list \<Rightarrow> u8 list option" where
  "vga_puts_at str x y col scr = vga_write str ((x * 80 + y) * 2) col scr"

datatype kbd_phase = KIdle | KE0 | KE1a | KE1b

record kbd =
  kstate :: kbd_phase
  state2 :: u8
  ptsetup :: bool
  screen :: "u8 list"

definition show_at :: "u8 list \<Rightarrow> nat \<Rightarrow> nat \<Rightarrow> u8 \<Rightarrow> kbd \<Rightarrow> kbd option" where
  "show_at str x y col k = do { scr \<leftarrow> vga_puts_at str x y col (screen k); Some (k\<lparr>screen := scr\<rparr>) }"

definition set_mod :: "u8 \<Rightarrow> bool \<Rightarrow> kbd \<Rightarrow> kbd" where
  "set_mod m up k = k\<lparr>state2 := if up then state2 k AND NOT m else state2 k OR m\<rparr>"

definition kbd_rctrl :: "bool \<Rightarrow> kbd \<Rightarrow> kbd" where
  "kbd_rctrl up k = (set_mod 2 up k)\<lparr>ptsetup := True\<rparr>"

definition kbd_caps :: "bool \<Rightarrow> kbd \<Rightarrow> kbd option" where
  "kbd_caps up k = (if up then Some k
     else let k = k\<lparr>state2 := state2 k XOR 16\<rparr> in
       if state2 k AND 16 \<noteq> 0 then show_at (map of_char ''CAPS'') 22 76 0x4f k else show_at (map of_char ''    '') 22 76 0 k)"

definition press :: "kbd \<Rightarrow> kbd option" where "press = show_at (map of_char ''Pressing '') 23 67 0x70"
definition release :: "kbd \<Rightarrow> kbd option" where "release = show_at (map of_char ''Released '') 23 67 0x70"

definition is_letter :: "u8 \<Rightarrow> bool" where
  "is_letter c \<longleftrightarrow> 97 \<le> c \<and> c \<le> 122 \<or> 65 \<le> c \<and> c \<le> 90"

text \<open>The character of a key: the tables have 97 entries.\<close>

definition kbd_char :: "nat \<Rightarrow> u8 \<Rightarrow> u8 option" where
  "kbd_char symbol m = do {
     guard (symbol < 97);
     let c = (if m AND 12 \<noteq> 0 then kbd_shift_map ! symbol else kbd_map ! symbol);
     Some (if is_letter c \<and> m AND 16 \<noteq> 0 then c XOR 32 else c) }"

definition kbd_do_key :: "nat \<Rightarrow> bool \<Rightarrow> kbd \<Rightarrow> kbd option" where
  "kbd_do_key symbol up k =
     (if up then release k
      else do {
        k \<leftarrow> show_at (map of_char ''   '') 23 77 0 k;
        c \<leftarrow> kbd_char symbol (state2 k);
        if c = 0 then Some k
        else do {
          k \<leftarrow> (if state2 k AND 3 \<noteq> 0 then show_at [94] 23 78 0x70 k else Some k);
          k \<leftarrow> show_at [c] 23 79 0x70 k;
          press k } })"

definition kbd_do_control_key :: "nat \<Rightarrow> bool \<Rightarrow> kbd \<Rightarrow> kbd option" where
  "kbd_do_control_key symbol up k =
     (if up then release k
      else do {
        k \<leftarrow> show_at (map of_char ''   '') 23 77 0 k;
        k \<leftarrow> (if 0x3B \<le> symbol \<and> symbol < 0x44 then do { k \<leftarrow> show_at [70] 23 78 0x70 k; show_at [of_nat (symbol - 0x3a) + 48] 23 79 0x70 k }
          else if symbol = 0x0e then show_at (map of_char ''^H'') 23 78 0x70 k
          else if symbol = 0x1c then show_at (map of_char ''^M'') 23 78 0x70 k
          else if symbol = 0x0f then show_at (map of_char ''^I'') 23 78 0x70 k
          else if symbol = 0x01 then show_at (map of_char ''^['') 23 78 0x70 k
          else if symbol = 0x44 then show_at (map of_char ''F10'') 23 77 0x70 k
          else Some k);
        press k })"

definition kbd_transition :: "u8 \<Rightarrow> kbd \<Rightarrow> kbd option" where
  "kbd_transition code k = (let up = code AND 0x80 \<noteq> 0; symbol = unat (code AND 0x7f) in
     case kstate k of
       KE1a \<Rightarrow> Some (k\<lparr>kstate := KE1b\<rparr>)
     | KE1b \<Rightarrow> Some (k\<lparr>kstate := KIdle\<rparr>)
     | KE0 \<Rightarrow> Some ((if symbol = 0x1d then kbd_rctrl up k else k)\<lparr>kstate := KIdle\<rparr>)
     | KIdle \<Rightarrow>
         if code = 0xe0 then Some (k\<lparr>kstate := KE0\<rparr>)
         else if code = 0xe1 then Some (k\<lparr>kstate := KE1a\<rparr>)
         else if 0x3b \<le> code \<and> code \<le> 0x58 then kbd_do_control_key symbol up k
         else if symbol = 0x2a then Some (set_mod 4 up k)
         else if symbol = 0x36 then Some (set_mod 8 up k)
         else if symbol = 0x1d then Some (set_mod 1 up k)
         else if symbol = 0x3a then kbd_caps up k
         else if symbol \<in> {0x0e, 0x1c, 0x0f, 0x01} then kbd_do_control_key symbol up k
         else kbd_do_key symbol up k)"

text \<open>The interrupt handler takes the codes the controller has, here the list \<open>cs\<close>.\<close>

fun kbd_handler :: "u8 list \<Rightarrow> kbd \<Rightarrow> kbd option" where
  "kbd_handler [] k = Some k"
| "kbd_handler (c # cs) k = do { k \<leftarrow> kbd_transition c k; kbd_handler cs k }"

section \<open>Correctness\<close>

lemma length_kbd_maps [simp]: "length kbd_map = 97" "length kbd_shift_map = 97"
  by (simp_all add: kbd_map_def kbd_shift_map_def)

text \<open>The corner: the last four cells of row 22 and the last thirteen of row 23.\<close>

definition corner :: "nat set" where
  "corner = {3672..<3680} \<union> {3814..<3840}"

definition shows_in_corner :: "kbd \<Rightarrow> kbd \<Rightarrow> bool" where
  "shows_in_corner k k' \<longleftrightarrow> length (screen k') = length (screen k) \<and> (\<forall>i. i \<notin> corner \<longrightarrow> screen k' ! i = screen k ! i)"

lemma shows_refl [simp]: "shows_in_corner k k"
  and shows_trans: "shows_in_corner k k' \<Longrightarrow> shows_in_corner k' k'' \<Longrightarrow> shows_in_corner k k''"
  and shows_fields [simp]: "shows_in_corner k (k'\<lparr>kstate := q\<rparr>) = shows_in_corner k k'" "shows_in_corner k (set_mod m up k') = shows_in_corner k k'"
    "shows_in_corner k (kbd_rctrl up k') = shows_in_corner k k'" "shows_in_corner (k\<lparr>state2 := x\<rparr>) k' = shows_in_corner k k'"
  by (auto simp: shows_in_corner_def set_mod_def kbd_rctrl_def)

lemma vga_write_frame:
  "\<lbrakk>length scr = 4000; v + 2 * length cs \<le> 4000\<rbrakk> \<Longrightarrow> \<exists>scr'. vga_write cs v col scr = Some scr' \<and> length scr' = 4000 \<and>
    (\<forall>i. i < v \<or> v + 2 * length cs \<le> i \<longrightarrow> scr' ! i = scr ! i)"
proof (induction cs arbitrary: v scr)
  case (Cons c cs)
  let ?s = "scr[v := c, v + 1 := col]"
  show ?case
  proof (cases "4000 \<le> v + 2")
    case True
    then show ?thesis using Cons.prems by (intro exI [of _ ?s]) auto
  next
    case False
    obtain scr' where scr': "vga_write cs (v + 2) col ?s = Some scr'" "length scr' = 4000" "\<forall>i. i < v + 2 \<or> v + 2 + 2 * length cs \<le> i \<longrightarrow> scr' ! i = ?s ! i"
      using Cons.IH [of ?s "v + 2"] Cons.prems by auto
    then show ?thesis using False Cons.prems by (intro exI [of _ scr']) auto
  qed
qed auto

lemma show_at_corner:
  assumes "length (screen k) = 4000" and "x = 22 \<and> 76 \<le> y \<or> x = 23 \<and> 67 \<le> y" and "y + length str \<le> 80"
  obtains k' where "show_at str x y col k = Some k'" "shows_in_corner k k'" "state2 k' = state2 k" "kstate k' = kstate k"
proof -
  obtain scr' where s: "vga_write str ((x * 80 + y) * 2) col (screen k) = Some scr'" "length scr' = 4000"
    "\<forall>i. i < (x * 80 + y) * 2 \<or> (x * 80 + y) * 2 + 2 * length str \<le> i \<longrightarrow> scr' ! i = screen k ! i"
    using vga_write_frame [of "screen k" "(x * 80 + y) * 2" str col] assms by auto
  have c: "i \<in> corner" if "(x * 80 + y) * 2 \<le> i" "i < (x * 80 + y) * 2 + 2 * length str" for i using assms(2,3) that by (auto simp: corner_def)
  have "\<forall>i. i \<notin> corner \<longrightarrow> scr' ! i = screen k ! i"
  proof (intro allI impI)
    fix i assume "i \<notin> corner"
    then have "i < (x * 80 + y) * 2 \<or> (x * 80 + y) * 2 + 2 * length str \<le> i" using c [of i] by linarith
    then show "scr' ! i = screen k ! i" using s(3) by blast
  qed
  then show thesis using that [of "k\<lparr>screen := scr'\<rparr>"] s(1,2) assms(1) by (simp add: show_at_def vga_puts_at_def shows_in_corner_def)
qed

definition shown :: "kbd \<Rightarrow> kbd option \<Rightarrow> bool" where
  "shown k r \<longleftrightarrow> (\<exists>k'. r = Some k' \<and> shows_in_corner k k' \<and> state2 k' = state2 k \<and> kstate k' = kstate k)"

lemma shown_show_at:
  "\<lbrakk>length (screen k) = 4000; x = 22 \<and> 76 \<le> y \<or> x = 23 \<and> 67 \<le> y; y + length str \<le> 80\<rbrakk> \<Longrightarrow> shown k (show_at str x y col k)"
  using show_at_corner unfolding shown_def by metis

lemma shown_bind:
  assumes "shown k r" and "length (screen k) = 4000"
    and "\<And>k'. length (screen k') = 4000 \<Longrightarrow> state2 k' = state2 k \<Longrightarrow> shown k' (f k')"
  shows "shown k (r \<bind> f)"
proof -
  obtain k' where k': "r = Some k'" "shows_in_corner k k'" "state2 k' = state2 k" "kstate k' = kstate k" using assms(1) by (auto simp: shown_def)
  then have "shown k' (f k')" using assms(2,3) by (simp add: shows_in_corner_def)
  then show ?thesis using k' by (auto simp: shown_def intro: shows_trans)
qed

lemma shown_Some [simp]: "shown k (Some k)"
  by (simp add: shown_def)

lemma press_release: "length (screen k) = 4000 \<Longrightarrow> shown k (press k)" "length (screen k) = 4000 \<Longrightarrow> shown k (release k)"
  by (auto simp: press_def release_def intro!: shown_show_at)

lemma kbd_do_control_key_shown: "length (screen k) = 4000 \<Longrightarrow> shown k (kbd_do_control_key symbol up k)"
  by (auto simp: kbd_do_control_key_def intro!: shown_bind shown_show_at press_release)

lemma kbd_do_key_shown:
  assumes "length (screen k) = 4000" and "up \<or> symbol < 97"
  shows "shown k (kbd_do_key symbol up k)"
proof (cases up)
  case False
  then obtain c where "kbd_char symbol (state2 k) = Some c" using assms(2) by (auto simp: kbd_char_def Let_def)
  then show ?thesis using False assms(1) by (auto simp: kbd_do_key_def intro!: shown_bind shown_show_at press_release)
qed (use assms(1) press_release in \<open>simp add: kbd_do_key_def\<close>)

text \<open>A code that presses a key the tables do not have.\<close>

definition stray_code :: "u8 \<Rightarrow> bool" where
  "stray_code c \<longleftrightarrow> 97 \<le> unat c \<and> unat c < 128"

lemma kbd_do_key_stray: "97 \<le> symbol \<Longrightarrow> length (screen k) = 4000 \<Longrightarrow> kbd_do_key symbol False k = None"
  by (auto simp: kbd_do_key_def kbd_char_def bind_eq_None_conv)

lemma kbd_caps_corner:
  assumes "length (screen k) = 4000"
  shows "\<exists>k'. kbd_caps up k = Some k' \<and> shows_in_corner k k'"
proof -
  let ?k = "k\<lparr>state2 := state2 k XOR 16\<rparr>"
  have "shown ?k (show_at (map of_char ''CAPS'') 22 76 0x4f ?k)" "shown ?k (show_at (map of_char ''    '') 22 76 0 ?k)"
    using assms by (auto intro!: shown_show_at)
  then show ?thesis by (auto simp: kbd_caps_def shown_def Let_def)
qed

lemma kbd_transition_ok:
  assumes k: "length (screen k) = 4000" and c: "kstate k = KIdle \<longrightarrow> \<not> stray_code code"
  shows "\<exists>k'. kbd_transition code k = Some k' \<and> shows_in_corner k k'"
proof (cases "kstate k")
  case KIdle
  let ?up = "code AND 0x80 \<noteq> 0" and ?s = "unat (code AND 0x7F)"
  have "?up \<or> ?s < 97" using c KIdle by (simp only: code_cases stray_code_def) auto
  then have "shown k (kbd_do_key ?s ?up k)" "shown k (kbd_do_control_key ?s ?up k)" using kbd_do_key_shown kbd_do_control_key_shown k by auto
  then obtain k1 k2 where kk: "kbd_do_key ?s ?up k = Some k1" "shows_in_corner k k1" "kbd_do_control_key ?s ?up k = Some k2" "shows_in_corner k k2"
    unfolding shown_def by blast
  obtain k3 where k3: "kbd_caps ?up k = Some k3" "shows_in_corner k k3" using kbd_caps_corner [OF k] by blast
  show ?thesis unfolding kbd_transition_def Let_def KIdle kbd_phase.case kk(1,3) k3(1) using kk(2,4) k3(2) by simp
qed (simp_all add: kbd_transition_def Let_def)

text \<open>Whatever the keyboard sends, the driver stays inside its tables and the screen, except for the codes
  that press one of the keys 97 to 127, which the tables do not have; and all it changes on the screen
  is the corner.\<close>

theorem kbd_handler_safe:
  assumes "length (screen k) = 4000"
  shows "(\<forall>c\<in>set cs. \<not> stray_code c) \<longrightarrow> (\<exists>k'. kbd_handler cs k = Some k' \<and> shows_in_corner k k')"
    and "stray_code c \<Longrightarrow> kstate k = KIdle \<Longrightarrow> kbd_handler (c # cs) k = None"
proof -
  show "(\<forall>c\<in>set cs. \<not> stray_code c) \<longrightarrow> (\<exists>k'. kbd_handler cs k = Some k' \<and> shows_in_corner k k')"
    using assms
  proof (induction cs arbitrary: k)
    case (Cons c cs)
    show ?case
    proof
      assume ok: "\<forall>c\<in>set (c # cs). \<not> stray_code c"
      then obtain k1 where k1: "kbd_transition c k = Some k1" "shows_in_corner k k1" using kbd_transition_ok [OF Cons.prems, of c] by auto
      then have "length (screen k1) = 4000" using Cons.prems by (simp add: shows_in_corner_def)
      then obtain k' where "kbd_handler cs k1 = Some k'" "shows_in_corner k1 k'" using Cons.IH ok by auto
      then show "\<exists>k'. kbd_handler (c # cs) k = Some k' \<and> shows_in_corner k k'" using k1 by (auto intro: shows_trans)
    qed
  qed simp
  assume c: "stray_code c" "kstate k = KIdle"
  then have u: "97 \<le> unat c" "unat c < 128" by (auto simp: stray_code_def)
  then have s: "unat (c AND 0x7F) = unat c" "\<not> (c AND 0x80 \<noteq> 0)" by (simp only: code_cases mod_less, simp only: code_cases not_le)
  have "kbd_do_key (unat c) False k = None" using kbd_do_key_stray u(1) assms by simp
  moreover have "c \<noteq> 0xe0" "c \<noteq> 0xe1" "\<not> c \<le> 0x58" "unat c \<notin> {0x2a, 0x36, 0x1d, 0x3a, 0x0e, 0x1c, 0x0f, 0x01}"
    using u by (auto simp: word_le_nat_alt)
  ultimately have "kbd_transition c k = None" using c(2) s by (simp add: kbd_transition_def Let_def)
  then show "kbd_handler (c # cs) k = None" by simp
qed

end
