(* ===== verification/Services.thy ===== *)
theory Services
  imports UserMem Ranges
begin

text \<open>
  The services of the kernel that hand out hardware: physical memory (\<^verbatim>\<open>sys/services/mem.c\<close>), the ports of
  the processor (\<^verbatim>\<open>portio.c\<close>), the data area of the BIOS (\<^verbatim>\<open>bda.c\<close>) and the archive in the kernel's image
  (\<^verbatim>\<open>services/tarfs.c\<close>). The hardware behind a port is a parameter. The data of a request is what its
  \<^verbatim>\<open>data\<close> field points to; \<open>None\<close> is a panic or a fault.
\<close>

section \<open>Physical memory\<close>

record mem_data =
  md_obp :: "u64 \<times> obj_pool"
  md_buf :: u64
  md_len :: u64

text \<open>The length of the mapping is computed from the length of the request, not from the length it asks for.\<close>

definition mem_port_request :: "u64 \<Rightarrow> u64 \<Rightarrow> range_table \<Rightarrow> mm \<Rightarrow> (int \<times> mem_data option \<times> range_table \<times> mm) option" where
  "mem_port_request ln buf rt s =
     (if ln \<noteq> 24 \<or> buf = 0 then Some (-22, None, rt, s)
      else do {
        (ret, bs, s) \<leftarrow> copy_from_user_simple buf 24 (disable_interrupts s);
        if ret \<noteq> 0 then do { s \<leftarrow> enable_interrupts s; Some (ret, None, rt, s) }
        else
          let phys = unle (take 8 bs) :: u64; dest = unle (take 8 (drop 8 bs)) :: u64; alen = ALIGN_UP ln PAGE_SIZE_BIT in
          if \<not> IS_ALIGNED phys PAGE_SIZE_BIT then do { s \<leftarrow> enable_interrupts s; Some (-22, None, rt, s) }
          else do {
            (v, s) \<leftarrow> (if dest \<noteq> 0 then insert_vma_to_vaddr (cur_as s) dest alen (VMA_RW OR VMA_HW) s
              else insert_vma_to_any (cur_as s) alen (VMA_RW OR VMA_HW) s);
            case v of
              Inl e \<Rightarrow> do { s \<leftarrow> enable_interrupts s; Some (-12, None, rt, s) }
            | Inr vma \<Rightarrow> do {
                (r, rt, s) \<leftarrow> insert_range phys alen rt s;
                if r < 0 then do {
                  av \<leftarrow> as_heap s (cur_as s);
                  let s = set_as (cur_as s) (av\<lparr>vmas := filter (\<lambda>v. vma_id v \<noteq> vma_id vma) (vmas av)\<rparr>) s;
                  s \<leftarrow> enable_interrupts s;
                  Some (-22, None, rt, s) }
                else do {
                  (r, s) \<leftarrow> address_space_assign_addr_range (cur_as s) phys (vma_begin vma) alen s;
                  guard (0 \<le> r);
                  (op, obp, s) \<leftarrow> obj_pool_create 24 s;
                  (_, obp, s) \<leftarrow> obj_pool_alloc obp s;
                  s \<leftarrow> enable_interrupts s;
                  Some (0, Some \<lparr>md_obp = (op, obp), md_buf = vma_begin vma, md_len = alen\<rparr>, rt, s) } } } })"

text \<open>The response can be fetched once: the data is taken out of the request.\<close>

definition mem_port_get_response :: "mem_data option \<Rightarrow> mm \<Rightarrow> (int \<times> (u64 \<times> u64) option \<times> mem_data option \<times> mm) option" where
  "mem_port_get_response d s =
     (case d of None \<Rightarrow> Some (-12, None, None, s)
      | Some md \<Rightarrow> do {
          s \<leftarrow> obj_pool_destroy (fst (md_obp md)) (snd (md_obp md)) s;
          Some (0, Some (md_buf md, md_len md), None, s) })"

definition mem_port_close :: "mem_data option \<Rightarrow> mm \<Rightarrow> mm option" where
  "mem_port_close d s = (case d of None \<Rightarrow> Some s | Some md \<Rightarrow> obj_pool_destroy (fst (md_obp md)) (snd (md_obp md)) s)"

definition mem_port_connect :: "u64 \<Rightarrow> u64 \<Rightarrow> range_table \<Rightarrow> mm \<Rightarrow> (int \<times> mem_data option \<times> range_table \<times> mm) option" where
  "mem_port_connect ln buf rt s = mem_port_request ln buf rt s"

section \<open>Ports of the processor\<close>

record 'd ports =
  p_inb :: "u16 \<Rightarrow> 'd \<Rightarrow> u8 \<times> 'd"
  p_inl :: "u16 \<Rightarrow> 'd \<Rightarrow> u32 \<times> 'd"
  p_outb :: "u16 \<Rightarrow> u8 \<Rightarrow> 'd \<Rightarrow> 'd"
  p_outl :: "u16 \<Rightarrow> u32 \<Rightarrow> 'd \<Rightarrow> 'd"

definition portio_request :: "'d ports \<Rightarrow> u64 \<Rightarrow> u64 \<Rightarrow> mm \<Rightarrow> 'd \<Rightarrow> (int \<times> u64 option \<times> mm \<times> 'd) option" where
  "portio_request hw ln buf s d =
     (if ln \<noteq> 8 then Some (-22, None, s, d)
      else do {
        (ret, bs, s) \<leftarrow> copy_from_user_simple buf 8 s;
        if ret \<noteq> 0 then Some (-14, None, s, d)
        else
          let pdata = unle (take 4 bs) :: u32; port = unle (take 2 (drop 4 bs)) :: u16; ty = bs ! 6; n = bs ! 7 in
          if ty = 1 then
            let d = (if n = 1 then p_outb hw port (ucast pdata) d else if n = 4 then p_outl hw port pdata d else d)
            in Some (0, Some (- 1), s, d)
          else if ty = 2 then
            (if n = 1 then let (x, d) = p_inb hw port d in Some (0, Some (ucast x), s, d)
             else let (x, d) = p_inl hw port d in Some (0, Some (ucast x), s, d))
          else Some (-22, None, s, d) })"

text \<open>\<open>cookie\<close> tells whether the request is one of a connection and not the connection itself.\<close>

definition portio_get_response :: "bool \<Rightarrow> u64 \<Rightarrow> int \<times> u64 option" where
  "portio_get_response cookie pdata =
     (if \<not> cookie then (-9, None) else if sint pdata < 0 then (-22, None) else (0, Some pdata))"

section \<open>Memory that is mapped as it is\<close>

text \<open>\<open>n\<close> pages from the physical address \<open>addr\<close> on. The kernel holds a reference of its own on these pages.\<close>

fun assign_phys_pages :: "nat \<Rightarrow> u64 \<Rightarrow> u64 \<Rightarrow> mm \<Rightarrow> mm option" where
  "assign_phys_pages 0 addr vaddr s = Some s"
| "assign_phys_pages (Suc n) addr vaddr s = do {
     (pr, s) \<leftarrow> manage_phys_page addr s;
     p \<leftarrow> (case pr of Inr p \<Rightarrow> Some p | Inl _ \<Rightarrow> None);
     (_, s) \<leftarrow> address_space_assign_page (cur_as s) p vaddr PF_SNAPSHOT s;
     (_, s) \<leftarrow> page_unref p False s;
     assign_phys_pages n (addr + PAGE_SIZE) (vaddr + PAGE_SIZE) s }"

text \<open>An error of \<^verbatim>\<open>insert_vma_to_any\<close> is not looked at: its number is followed as a pointer.\<close>

definition bda_port_get_response :: "mm \<Rightarrow> (u64 \<times> u64 \<times> mm) option" where
  "bda_port_get_response s = do {
     let ln = PAGE_SIZE * 16;
     (v, s) \<leftarrow> insert_vma_to_any (cur_as s) ln VMA_RW s;
     vma \<leftarrow> (case v of Inr vma \<Rightarrow> Some vma | Inl _ \<Rightarrow> None);
     s \<leftarrow> assign_phys_pages 16 0 (vma_begin vma) s;
     Some (vma_begin vma, ln, s) }"

text \<open>A partial page at an end of the archive is copied to a new page that is zero elsewhere.\<close>

definition assign_copied_page :: "u64 \<Rightarrow> u64 \<Rightarrow> u64 \<Rightarrow> u64 \<Rightarrow> mm \<Rightarrow> mm option" where
  "assign_copied_page off src n vaddr s = do {
     (pg, s) \<leftarrow> get_zeroed_page s;
     let s = write_mem (pg + off) (read_mem src (unat n) s) s;
     (p, s) \<leftarrow> manage_page pg s;
     (_, s) \<leftarrow> address_space_assign_page (cur_as s) p vaddr PF_SHARED s;
     (_, s) \<leftarrow> page_unref p False s;
     Some s }"

text \<open>The archive lies from \<open>st\<close> to \<open>en\<close> in the kernel, whose image begins at the address \<open>physoffset\<close> above
  its physical place.\<close>

definition tarfs_port_get_response :: "u64 \<Rightarrow> u64 \<Rightarrow> u64 \<Rightarrow> mm \<Rightarrow> (u64 \<times> u64 \<times> mm) option" where
  "tarfs_port_get_response st en physoffset s = do {
     let astart = ALIGN_UP st PAGE_SIZE_BIT;
     let aend = ALIGN en PAGE_SIZE_BIT;
     let ustart = ALIGN st PAGE_SIZE_BIT;
     let ln = ALIGN_UP en PAGE_SIZE_BIT - ustart;
     (v, s) \<leftarrow> insert_vma_to_any (cur_as s) ln VMA_RW s;
     vma \<leftarrow> (case v of Inr vma \<Rightarrow> Some vma | Inl _ \<Rightarrow> None);
     let vaddr = vma_begin vma;
     (vaddr, s) \<leftarrow> (if astart \<noteq> st then do { s \<leftarrow> assign_copied_page (st - ustart) st (astart - st) vaddr s; Some (vaddr + PAGE_SIZE, s) }
       else Some (vaddr, s));
     let n = (if astart < aend then unat (aend - astart) div 4096 else 0);
     s \<leftarrow> assign_phys_pages n (astart - physoffset) vaddr s;
     s \<leftarrow> (if aend \<noteq> en then assign_copied_page 0 aend (en - aend) (vaddr + of_nat n * PAGE_SIZE) s else Some s);
     Some (vma_begin vma + (st - ustart), en - st, s) }"

section \<open>What the services refuse\<close>

text \<open>Placing an area and taking the new one out again leaves the address space as it was.\<close>

lemma insert_any_unlink:
  assumes "as_heap s as = Some av" and "\<forall>w\<in>set (vmas av). vma_id w \<noteq> next_id s"
  obtains r s' where "insert_vma_to_any as ln fl s = Some (r, s')" "cur_as s' = cur_as s" "interrupt_disabled s \<le> interrupt_disabled s'"
    "case r of Inl e \<Rightarrow> as_heap s' as = Some av
      | Inr v \<Rightarrow> \<exists>av'. as_heap s' as = Some av' \<and> av'\<lparr>vmas := filter (\<lambda>w. vma_id w \<noteq> vma_id v) (vmas av')\<rparr> = av"
proof -
  obtain b n where g: "find_gap ln (low_addr av) (vmas av) = (b, n)" by (meson surj_pair)
  show thesis
  proof (cases "n = length (vmas av) \<and> high_addr av < b + ln")
    case True
    then show thesis using assms(1) g that [of "Inl (-1)" "disable_interrupts s"] by (simp add: insert_vma_to_any_def Let_def)
  next
    case False
    let ?v = "\<lparr>vma_id = next_id s, vma_flags = fl, vma_page_size = 0, vma_begin = b, vma_length = ln, vma_pages = []\<rparr>"
    let ?av = "av\<lparr>vmas := take n (vmas av) @ ?v # drop n (vmas av)\<rparr>"
    let ?s = "(set_as as ?av (snd (fresh_id (disable_interrupts s))))\<lparr>interrupt_disabled := interrupt_disabled s\<rparr>"
    have run: "insert_vma_to_any as ln fl s = Some (Inr ?v, ?s)"
      using assms(1) g False by (simp add: insert_vma_to_any_def Let_def fresh_id_def enable_interrupts_pos)
    have f: "filter (\<lambda>w. vma_id w \<noteq> next_id s) vs = vs" if "set vs \<subseteq> set (vmas av)" for vs using assms(2) that by (intro filter_True) auto
    have "filter (\<lambda>w. vma_id w \<noteq> next_id s) (take n (vmas av) @ ?v # drop n (vmas av)) = vmas av"
      using f [OF set_take_subset] f [OF set_drop_subset] by simp
    then show thesis using that [OF run] by (simp add: set_as_def fresh_id_def)
  qed
qed

lemma add_vma_unlink:
  "\<lbrakk>add_vma v vs = Some vs'; \<forall>w\<in>set vs. vma_id w \<noteq> vma_id v\<rbrakk> \<Longrightarrow> filter (\<lambda>w. vma_id w \<noteq> vma_id v) vs' = vs"
proof (induction vs arbitrary: vs')
  case (Cons w vs)
  have "filter (\<lambda>w. vma_id w \<noteq> vma_id v) vs = vs" using Cons.prems(2) by (intro filter_True) auto
  then show ?case using Cons by (auto simp: bind_eq_Some_conv split: if_splits)
qed auto

lemma insert_at_unlink:
  assumes "as_heap s as = Some av" and "\<forall>w\<in>set (vmas av). vma_id w \<noteq> next_id s"
  obtains r s' where "insert_vma_to_vaddr as va ln fl s = Some (r, s')" "cur_as s' = cur_as s" "interrupt_disabled s \<le> interrupt_disabled s'"
    "case r of Inl e \<Rightarrow> as_heap s' as = Some av
      | Inr v \<Rightarrow> \<exists>av'. as_heap s' as = Some av' \<and> av'\<lparr>vmas := filter (\<lambda>w. vma_id w \<noteq> vma_id v) (vmas av')\<rparr> = av"
proof -
  let ?v = "\<lparr>vma_id = next_id s, vma_flags = fl, vma_page_size = 0, vma_begin = va, vma_length = ln, vma_pages = []\<rparr>"
  define s1 where "s1 = s\<lparr>next_id := next_id s + 1\<rparr>"
  have s1: "(disable_interrupts s)\<lparr>next_id := Suc (next_id s), interrupt_disabled := interrupt_disabled s\<rparr> = s1"
    by (simp add: s1_def disable_interrupts_def)
  have f: "as_heap s1 as = Some av" "cur_as s1 = cur_as s" "interrupt_disabled s1 = interrupt_disabled s" using assms(1) by (simp_all add: s1_def)
  have run: "insert_vma_to_vaddr as va ln fl s =
      (if va AND 0xfff \<noteq> 0 then Some (Inl (-2), s1)
       else if va < low_addr av \<or> va > high_addr av then Some (Inl (-3), s1)
       else do { (ret, s) \<leftarrow> aspace_add_vma as ?v s1; Some (if ret < 0 then Inl ret else Inr ?v, s) })"
    using f(1) s1 by (simp add: insert_vma_to_vaddr_def fresh_id_def enable_interrupts_pos Let_def)
  show thesis
  proof (cases "va AND 0xfff \<noteq> 0 \<or> va < low_addr av \<or> va > high_addr av")
    case True
    then obtain e where "insert_vma_to_vaddr as va ln fl s = Some (Inl e, s1)" using run by (auto split: if_splits)
    then show thesis using that f by simp
  next
    case False
    then have run: "insert_vma_to_vaddr as va ln fl s = aspace_add_vma as ?v s1 \<bind> (\<lambda>(ret, s). Some (if ret < 0 then Inl ret else Inr ?v, s))"
      using run by simp
    show thesis
    proof (cases "add_vma ?v (vmas av)")
      case None
      then have "aspace_add_vma as ?v s1 = Some (- 1, s1)"
        using f(1) by (simp add: aspace_add_vma_def Let_def enable_interrupts_def disable_interrupts_def)
      then show thesis using that [of "Inl (- 1)" s1] f run by simp
    next
      case (Some vs)
      let ?s = "set_as as (av\<lparr>vmas := vs\<rparr>) s1"
      have "aspace_add_vma as ?v s1 = Some (0, ?s)"
        using f(1) Some by (simp add: aspace_add_vma_def Let_def enable_interrupts_def disable_interrupts_def set_as_def)
      moreover have "filter (\<lambda>w. vma_id w \<noteq> next_id s) vs = vmas av" using add_vma_unlink [OF Some] assms(2) by simp
      ultimately show thesis using that [of "Inr ?v" ?s] f run by (simp add: set_as_def)
    qed
  qed
qed

lemma copy_disabled:
  assumes "entries_ok s" and "validate_range buf 24 s = Some False" and "unat buf + 24 \<le> 2 ^ 63"
    and "map (\<lambda>i. user_byte s (buf + of_nat i)) [0..<24] = bs"
  shows "copy_from_user_simple buf 24 (disable_interrupts s) = Some (0, bs, disable_interrupts s)"
proof -
  have "user_byte (disable_interrupts s) = user_byte s"
    by (auto simp: fun_eq_iff user_byte_def get_allocated_page_def pe_phys_def disable_interrupts_def split: option.splits)
  moreover have "entries_ok (disable_interrupts s)" using assms(1) by (simp add: entries_ok_def pe_phys_def disable_interrupts_def)
  moreover have "validate_range buf 24 (disable_interrupts s) = Some False" using assms(2) by (simp add: validate_range_def disable_interrupts_def)
  ultimately show ?thesis using copy_from_user_spec [of "disable_interrupts s" buf 24 False] assms(3,4) by simp
qed

text \<open>C30. The memory service gives no process the memory that the machine itself uses, at whatever address
  it wants it, and also when it leaves the address to the kernel: when the page that is asked for
  overlaps a range of the table of physical memory, the request fails, the table is not changed, and the
  area that was reserved for the mapping is gone again from the address space.\<close>

theorem mem_request_refuses_ram:
  assumes as: "as_heap s (cur_as s) = Some av" "\<forall>w\<in>set (vmas av). vma_id w \<noteq> next_id s"
    and buf: "entries_ok s" "validate_range buf 24 s = Some False" "unat buf + 24 \<le> 2 ^ 63" "buf \<noteq> 0"
    and req: "map (\<lambda>i. user_byte s (buf + of_nat i)) [0..<24] = le 8 (phys :: u64) @ le 8 (dest :: u64) @ le 8 (n :: u64)"
    and rt: "ranges_ok (free_range rt)" "\<forall>q\<in>set (free_range rt). 0 < mr_length q" "no_wrap \<lparr>mr_base = phys, mr_length = 0x1000\<rparr>"
    and ram: "q \<in> set (free_range rt)" "in_range q a" "in_range \<lparr>mr_base = phys, mr_length = 0x1000\<rparr> a"
  shows "\<exists>ret s'. mem_port_request 24 buf rt s = Some (ret, None, rt, s') \<and> ret < 0 \<and> as_heap s' (cur_as s) = Some av"
proof -
  let ?d = "disable_interrupts s" and ?bs = "le 8 phys @ le 8 dest @ le 8 n"
  have d: "as_heap ?d = as_heap s" "next_id ?d = next_id s" "cur_as ?d = cur_as s" "interrupt_disabled ?d = interrupt_disabled s + 1"
    by (simp_all add: disable_interrupts_def)
  have c: "copy_from_user_simple buf 24 ?d = Some (0, ?bs, ?d)" by (rule copy_disabled [OF buf(1-3) req])
  have al: "ALIGN_UP 24 PAGE_SIZE_BIT = 0x1000" by code_simp
  have dec: "unle (take 8 ?bs) = phys" "unle (take 8 (drop 8 ?bs)) = dest" by (simp_all add: unle_le_full)
  have e1: "enable_interrupts ?d = Some s" by (simp add: enable_interrupts_def disable_interrupts_def)
  show ?thesis
  proof (cases "IS_ALIGNED phys PAGE_SIZE_BIT")
    case False
    then show ?thesis using c dec al buf(4) e1 as(1) unfolding mem_port_request_def by (simp add: Let_def)
  next
    case True
    have res: "\<not> is_range_reserved phys 0x1000 (free_range rt)" using reserved_spec [OF rt(1) rt(3) _ rt(2)] ram by auto
    let ?place = "if dest \<noteq> 0 then insert_vma_to_vaddr (cur_as s) dest 0x1000 (VMA_RW OR VMA_HW) ?d
      else insert_vma_to_any (cur_as s) 0x1000 (VMA_RW OR VMA_HW) ?d"
    have ad: "as_heap ?d (cur_as s) = Some av" "\<forall>w\<in>set (vmas av). vma_id w \<noteq> next_id ?d" using as d by auto
    have "\<exists>r s2. ?place = Some (r, s2) \<and> cur_as s2 = cur_as s \<and> interrupt_disabled ?d \<le> interrupt_disabled s2 \<and>
      (case r of Inl e \<Rightarrow> as_heap s2 (cur_as s) = Some av
        | Inr v \<Rightarrow> \<exists>av'. as_heap s2 (cur_as s) = Some av' \<and> av'\<lparr>vmas := filter (\<lambda>w. vma_id w \<noteq> vma_id v) (vmas av')\<rparr> = av)"
    proof (cases "dest = 0")
      case True
      show ?thesis by (rule insert_any_unlink [OF ad, of "0x1000" "VMA_RW OR VMA_HW"]) (use True d(3) in auto)
    next
      case False
      show ?thesis by (rule insert_at_unlink [OF ad, of dest "0x1000" "VMA_RW OR VMA_HW"]) (use False d(3) in auto)
    qed
    then obtain r s2 where i: "?place = Some (r, s2)" "cur_as s2 = cur_as s" "interrupt_disabled ?d \<le> interrupt_disabled s2"
      "case r of Inl e \<Rightarrow> as_heap s2 (cur_as s) = Some av
        | Inr v \<Rightarrow> \<exists>av'. as_heap s2 (cur_as s) = Some av' \<and> av'\<lparr>vmas := filter (\<lambda>w. vma_id w \<noteq> vma_id v) (vmas av')\<rparr> = av"
      by blast
    have pos: "0 < interrupt_disabled s2" using i(3) d(4) by simp
    have req: "mem_port_request 24 buf rt s = do {
        (v, s) \<leftarrow> ?place;
        case v of
          Inl e \<Rightarrow> do { s \<leftarrow> enable_interrupts s; Some (-12, None, rt, s) }
        | Inr vma \<Rightarrow> do {
            av \<leftarrow> as_heap s (cur_as s);
            let s = set_as (cur_as s) (av\<lparr>vmas := filter (\<lambda>v. vma_id v \<noteq> vma_id vma) (vmas av)\<rparr>) s;
            s \<leftarrow> enable_interrupts s;
            Some (-22, None, rt, s) } }"
      using c dec al buf(4) True res d(3) unfolding mem_port_request_def by (simp add: Let_def insert_range_def split: bind_split sum.split)
    show ?thesis
    proof (cases r)
      case (Inl e)
      then show ?thesis using i pos req by (simp add: enable_interrupts_def)
    next
      case (Inr v)
      then obtain av' where "as_heap s2 (cur_as s) = Some av'" "av'\<lparr>vmas := filter (\<lambda>w. vma_id w \<noteq> vma_id v) (vmas av')\<rparr> = av" using i(4) by auto
      then show ?thesis using i(1,2) pos Inr req by (simp add: enable_interrupts_def set_as_def Let_def)
    qed
  qed
qed

theorem mem_request_refuses_ram_witness:
  "\<exists>ret s'. mem_port_request 24 0x401000 \<lparr>free_range = [\<lparr>mr_base = 0, mr_length = 0x9f000\<rparr>], frng_pool = demo_pool 24\<rparr> demo_user =
    Some (ret, None, \<lparr>free_range = [\<lparr>mr_base = 0, mr_length = 0x9f000\<rparr>], frng_pool = demo_pool 24\<rparr>, s') \<and> ret < 0"
proof -
  let ?rt = "\<lparr>free_range = [\<lparr>mr_base = 0, mr_length = 0x9f000\<rparr>], frng_pool = demo_pool 24\<rparr>"
  have ok: "entries_ok demo_user" by (simp add: entries_ok_def demo_user_def pe_phys_def demo_user_find)
  have v: "validate_range 0x401000 24 demo_user = Some False" by (simp add: validate_range_def demo_user_def demo_as_def)
  have "user_byte demo_user (0x401000 + of_nat i) = 0" if "i \<in> set [0..<24]" for i
  proof -
    have i: "unat (of_nat i :: u64) = i" "i < 24" using that by (auto intro: unat_of_nat_lt)
    have "ALIGN (0x401000 + of_nat i :: u64) PAGE_SIZE_BIT \<noteq> 0x400000"
      using i unat_add_lt [of "0x401000 :: u64" "of_nat i"] by (simp add: word_eq_iff_unat unat_ALIGN PAGE_SIZE_BIT_val)
    then show ?thesis by (simp add: user_byte_def get_allocated_page_def demo_user_def demo_user_find)
  qed
  then have u: "map (\<lambda>i. user_byte demo_user (0x401000 + of_nat i)) [0..<24] = replicate 24 0" by (intro replicate_eqI) auto
  have z: "replicate 24 0 = le 8 (0 :: u64) @ le 8 (0 :: u64) @ le 8 (0 :: u64)" by code_simp
  have ids: "as_heap demo_user (cur_as demo_user) = Some (demo_as\<lparr>vaddr_map := BNode (BNode BNull BNull (Some 3) 0x400000 64) BNull None 0 0\<rparr>)"
    by (simp add: demo_user_def)
  show ?thesis
    using mem_request_refuses_ram [OF ids _ ok v _ _ u [unfolded z], of ?rt "\<lparr>mr_base = 0, mr_length = 0x9f000\<rparr>" 0]
    by (auto simp: demo_user_def demo_as_def no_wrap_def in_range_def)
qed

end
