(* ===== verification/Spec2Isabelle.thy ===== *)
theory Spec2Isabelle
  imports Bitops Binradix Splay KList CString PhysMem PageMan Aspace FdTable Sched Ipc UserMem Cow Format Malloc Paging Ranges Shell Console Tty SataWrite Client Exec Env Kbd Services
begin

text \<open>
  A verification development for SadOS, a small x86-64 system: a kernel that hands out memory and
  passes messages, a C library, and servers and programs in user space. The source is C.

  \<^bold>\<open>The parts of the program and how they interact.\<close>

  The kernel (\<^verbatim>\<open>sys/\<close>) owns the physical pages (\<^verbatim>\<open>mm/get_page.c\<close>) and carves its small objects
  out of them (\<^verbatim>\<open>mm/obj_pool.c\<close>). An address space is a chain of areas and a radix tree
  (\<^verbatim>\<open>lib/binradix.c\<close>) from addresses to page entries (\<^verbatim>\<open>mm/aspace.c\<close>); a page entry leads to a page
  with a reference count, and a page that several address spaces share is copied at the first write
  (\<^verbatim>\<open>mm/page_man.c\<close>, \<^verbatim>\<open>mm/page_fault.c\<close>). The tables of the processor are edited through a recursive
  entry (\<^verbatim>\<open>mm/paging.c\<close>). Tasks are scheduled round robin (\<^verbatim>\<open>sched.c\<close>) and talk through ports: a
  connection, a request and a response are descriptors in a table of the task, a server answers
  requests through a queue of messages, and the contents are moved as pages between the address
  spaces (\<^verbatim>\<open>ipc/port.c\<close>, \<^verbatim>\<open>ipc/uport.c\<close>, \<^verbatim>\<open>mm/copy.c\<close>). Hardware is a service behind such a port
  (\<^verbatim>\<open>services/\<close>).

  In user space the C library (\<^verbatim>\<open>libc/\<close>) has the allocator, the formatted input and output, the
  strings, the environment, the working directory, the file functions, which are requests to the file
  server, and \<^verbatim>\<open>exec\<close>, whose counterpart is the start-up code \<^verbatim>\<open>crt/crt1.c\<close> of the new program. The
  file server (\<^verbatim>\<open>bin/fs\<close>) serves an archive and a disk; the console server (\<^verbatim>\<open>bin/console\<close>) owns the
  screen and the keyboard; the shell (\<^verbatim>\<open>bin/sbush\<close>) reads command lines.

  \<^bold>\<open>How the code is modelled.\<close>

  A C function is a HOL function of the same name (with a suffix or prefix where the name is taken)
  from its arguments and the state to its result and the new state. Machine integers are words of
  their width, C \<^verbatim>\<open>int\<close>s that the code only counts with are integers with the overflow written out.
  The outcome \<open>None\<close> stands for what stops or corrupts the program: a call of \<^verbatim>\<open>panic\<close>, a NULL that is
  followed, an access outside an array or a block, an \<^verbatim>\<open>int\<close> that overflows. Error numbers are results,
  as values of a sum or as negative integers, as the code has them. A structure that others point to
  is an entry of a heap, a map from addresses or names to records; a structure with a single owner is
  a record or a list in the state of its owner. So a theorem that an operation returns \<open>Some\<close> says
  that it terminates and commits none of these faults.
  Interrupts are disabled in the critical sections of the kernel; an operation is one step, and
  orders of operations are sequences of steps (\<open>sched_step\<close> in Sched, \<open>fs_reach\<close> in Vfs).

  \<^bold>\<open>The theories.\<close>

  \<^item> Prelude: words, alignment, little-endian bytes, arrays of bytes, \<open>guard\<close>; the collections of
    simplification rules.
  \<^item> Bitops (\<^verbatim>\<open>include/bitops.h\<close>, \<^verbatim>\<open>err.h\<close>, \<^verbatim>\<open>mm.h\<close>), Binradix (\<^verbatim>\<open>sys/lib/binradix.c\<close>), Splay
    (\<^verbatim>\<open>sys/lib/splay.c\<close>), KList (\<^verbatim>\<open>include/sys/list.h\<close>), CString (\<^verbatim>\<open>libc/string.c\<close>): the data
    structures and their refinement of maps, ordered sequences, lists and strings.
  \<^item> PhysMem (\<^verbatim>\<open>get_page.c\<close>, \<^verbatim>\<open>obj_pool.c\<close>), PageMan (\<^verbatim>\<open>page_man.c\<close>), Aspace (\<^verbatim>\<open>aspace.c\<close>), UserMem
    (\<^verbatim>\<open>copy.c\<close>, \<^verbatim>\<open>page_fault.c\<close>, \<^verbatim>\<open>mm/syscall.c\<close>), Paging (\<^verbatim>\<open>paging.c\<close>, \<^verbatim>\<open>page_table.c\<close>), Ranges (the
    memory map of the boot loader): the memory manager. The record \<open>phys_mem\<close> holds the free pages and
    the depth of the interrupt lock; \<open>mm\<close> extends it by the heaps of pages, page entries and address
    spaces and by the contents of memory. Cow states the invariant that ties reference counts, owners
    and write permissions together and shows that copy on write isolates address spaces.
  \<^item> FdTable (\<^verbatim>\<open>ipc.h\<close>, \<^verbatim>\<open>uapi/port.h\<close>), Sched (\<^verbatim>\<open>sched.c\<close>), Ipc (\<^verbatim>\<open>ipc/port.c\<close>, \<^verbatim>\<open>ipc/uport.c\<close>,
    \<^verbatim>\<open>services/int.c\<close>), Services (\<^verbatim>\<open>services/mem.c\<close>, \<^verbatim>\<open>portio.c\<close>, \<^verbatim>\<open>bda.c\<close>, \<^verbatim>\<open>tarfs.c\<close>), Kbd
    (\<^verbatim>\<open>drivers/kbd.c\<close>): tasks, messages and devices.
  \<^item> Malloc (\<^verbatim>\<open>libc/malloc.c\<close>), Format (\<^verbatim>\<open>printf.c\<close>, \<^verbatim>\<open>scanf.c\<close>, \<^verbatim>\<open>sys/printk.c\<close>), Env (\<^verbatim>\<open>env.c\<close>), Cwd
    (\<^verbatim>\<open>getcwd.c\<close>), Exec (\<^verbatim>\<open>exec.c\<close>, \<^verbatim>\<open>elf/elf.c\<close>), Crt (the arguments in \<^verbatim>\<open>exec.c\<close>, \<^verbatim>\<open>crt1.c\<close>), Client (\<^verbatim>\<open>rw.c\<close>): the C library.
  \<^item> Disk, SataFs, SataWrite, SataDir (\<^verbatim>\<open>bin/fs/fs.c\<close>), Tarfs (\<^verbatim>\<open>bin/fs/tarfs.c\<close>), Vfs
    (\<^verbatim>\<open>bin/fs/vfs.c\<close>): the file server. The disk is a map from sectors to 512 bytes with one buffer page.
  \<^item> Console, Tty (\<^verbatim>\<open>bin/console/main.c\<close>), Shell (\<^verbatim>\<open>bin/sbush/str.c\<close>, \<^verbatim>\<open>parse.c\<close>): console and shell.

  \<^bold>\<open>The interfaces.\<close>

  Where one component relies on another the contract is a locale, interpreted on the model of the
  code: \<open>address_map\<close> (an address is inserted, found and deleted; the radix tree), \<open>node_queue\<close> (first
  in, first out; the linked lists), \<open>page_source\<close> (what the object pools need of an allocator of
  pages; the kernel's pages and the physical frames) and \<open>file_reader\<close> (a read returns the next bytes
  and 0 exactly at the end; the disk, the archive, and the file server that chooses between them).

  \<^bold>\<open>What the lemmas show.\<close>

  \<^item> Data structures: the radix tree is a map on the allowed keys, insertion and deletion keep its
    shape and change one key, traversal visits every value; splaying keeps the order; list operations
    act as on sequences and the loops over them end; \<^verbatim>\<open>memcpy\<close> is right for overlapping areas.
  \<^item> Memory: no page and no object is handed out twice, released memory is available again; areas of an
    address space never overlap and a free gap is found when there is one; validation of a user range
    is exact; page tables translate exactly what was mapped; a write after a copy-on-write fault is
    seen by one address space only.
  \<^item> Tasks and messages: the runnable tasks are exactly the queued ones in every reachable state, every
    runnable task gets its turn; a response reaches the request it answers, closing a port marks every
    request that waits on it as closed and frees the messages.
  \<^item> C library: blocks of the allocator are disjoint and inside its pages, a released block
    is merged with its free buddy; numbers are printed in the right digits and read back; the environment
    is a map from its first use on; a change of the directory resolves its path; a program is loaded at
    its addresses and finds its arguments, when they leave room for the arrays of pointers to them.
  \<^item> Servers: reading and writing a file on the disk act as on the list of its bytes and touch no other
    file; the files of a mounted archive are read back byte for byte, up to the file functions of the C
    library, in exactly the cases in which the answers can be built and copied; in every reachable state the open handles of the file server exist, and clients do not
    disturb each other; the screen shows the end of what was printed; a typed line answers a waiting
    read; a command line that is printed is parsed back.
  \<^item> Limits and faults: theorems that state what the code does wrong on some input (closing a pending
    connection, a request of 4072 bytes, creating a file on a fresh disk) stand beside the theorems of
    its normal behaviour; and where the normal behaviour has an exact limit the theorem states both
    sides (client_reads_archive, exec_arguments_arrive, scan_code_safe, unshare_keeps_invariant).

  \<^bold>\<open>What is left to the surroundings.\<close>

  Where a component allocates through another one, whether memory is there is an argument of the model:
  \<open>mal\<close> (the heap of the file server in Vfs, of the program in Env), \<open>cm\<close> (the heap of the client in
  Client), \<open>room\<close> (gaps in the address space of the caller in Exec). Both outcomes are modelled, and what
  the code does without memory, mostly following NULL, is part of the definitions. How much of the stack below its
  arguments the start-up code may overwrite is the argument \<open>slack\<close> of Crt. The bytes that happen to be
  mapped behind the answer to a read are an argument of \<open>libc_read\<close>. The allocator's own limits, such
  as the size 4072, are not arguments: they are those of Malloc.

  \<^bold>\<open>Bounds and fuel.\<close>

  Loops over lists, strings and sectors are recursions over them; the others have a measure (the rest
  of a path or an archive, the distance to an address). Where a recursion counts steps the count is the
  loop's own bound: the number of pages of a range in \<open>assign_range_loop\<close> and \<open>send_pages\<close>, the levels
  of the page tables, the blocks between two positions of a file, the entries of a bitmap. Loops
  that may not end are partial functions (the scans of strings in CString, the loops over the ring of
  the screen in Console, serving the pending reads in Tty, reading a file to its end in SataFs), and
  lemmas show that they return on terminated strings, on screens and files that satisfy their
  invariants, and for one reader that waits.

  \<^bold>\<open>Not modelled.\<close>

  \<^item> Boot and processor set-up (\<^verbatim>\<open>sys/main.c\<close>, \<^verbatim>\<open>gdt.c\<close>, \<^verbatim>\<open>idt.c\<close>, \<^verbatim>\<open>apic.c\<close>, \<^verbatim>\<open>i8259.c\<close>, \<^verbatim>\<open>timer.c\<close>,
    \<^verbatim>\<open>memory_init\<close>, assembly): sequences of writes to registers and tables of the hardware, without
    decisions of their own. Registers and kernel stacks are not part of a task, so \<^verbatim>\<open>switch_to\<close> and
    \<^verbatim>\<open>fork\<close> are not modelled beyond the scheduler's and the memory manager's part in them.
  \<^item> The disk driver (\<^verbatim>\<open>bin/fs/ahci.c\<close>), the serial driver and the set-up of the keyboard controller:
    what they do is defined by the devices. The disk is modelled as reads and writes of sectors.
  \<^item> \<^verbatim>\<open>sys/tarfs.c\<close> is an older copy of \<^verbatim>\<open>bin/fs/tarfs.c\<close>, and \<^verbatim>\<open>vga_puts\<close> of \<^verbatim>\<open>drivers/vga_text.c\<close> is the
    one of the console server and not installed.
  \<^item> The stubs of the system calls in \<^verbatim>\<open>libc\<close>, the builtin commands of the shell, and the programs
    \<^verbatim>\<open>init\<close>, \<^verbatim>\<open>ls\<close> and \<^verbatim>\<open>hello\<close>: sequences of calls of the library.
  \<^item> Giving back the pages of a message (\<^verbatim>\<open>page_list_free\<close>) is modelled in UserMem but not called from Ipc,
    whose state has no pages; the pages that the pools of small objects take from the allocator are not
    counted in PageMan and Cow.
  \<^item> Who owns a string of the environment, and the transport of a request between the file functions and
    the file server, which is one step in Client; the kernel's part in it is Ipc and UserMem.
\<close>

end
